(* ===== verification/Prelude.thy ===== *)
theory Prelude
  imports Main "HOL-Library.Word"
begin

text \<open>
  What every component shares: the Rust integer types at their widths, the result of a Rust
  call (a value, an \<open>Err\<close>, or a panic), the checked reads of slices, and the byte orders of
  \<open>u16::from_be_bytes\<close>, \<open>u32::from_le_bytes\<close> and their inverses.

  Conventions.  \<open>u8\<close> to \<open>u64\<close> are words of that width, so \<open>+\<close> and \<open>*\<close> wrap: this is the
  arithmetic of the release profile, which the workspace ships (its profile does not turn
  overflow checks on; a debug build panics where the model wraps).  \<open>usize\<close> values are
  lengths of and offsets into slices, which Rust keeps below \<open>2^63\<close>; they are \<open>nat\<close>, and every
  \<open>usize\<close> addition of the source adds a small constant to such a length.
\<close>

unbundle bit_operations_syntax

type_synonym u8 = "8 word"
type_synonym u16 = "16 word"
type_synonym u32 = "32 word"
type_synonym u64 = "64 word"
type_synonym usize = nat
type_synonym bytes = "u8 list"

named_theorems panic_free \<open>calls that never panic\<close>

section \<open>Results\<close>

text \<open>
  \<open>Ok\<close> and \<open>Err\<close> are Rust's; \<open>Panic\<close> is an unwinding call (an index out of range, an
  \<open>expect\<close> on an error).  \<open>and_then\<close> is the \<open>?\<close> operator: it hands an \<open>Ok\<close> value on and stops
  at an error or a panic.
\<close>

datatype ('e, 'a) result = Ok 'a | Err 'e | Panic

fun and_then :: "('e, 'a) result \<Rightarrow> ('a \<Rightarrow> ('e, 'b) result) \<Rightarrow> ('e, 'b) result" where
  "and_then (Ok x) f = f x"
| "and_then (Err e) f = Err e"
| "and_then Panic f = Panic"

fun map_err :: "('e \<Rightarrow> 'f) \<Rightarrow> ('e, 'a) result \<Rightarrow> ('f, 'a) result" where
  "map_err f (Ok x) = Ok x"
| "map_err f (Err e) = Err (f e)"
| "map_err f Panic = Panic"

text \<open>\<open>Option::ok_or\<close> and \<open>Option::expect\<close>.\<close>

fun ok_or :: "'a option \<Rightarrow> 'e \<Rightarrow> ('e, 'a) result" where
  "ok_or (Some x) e = Ok x"
| "ok_or None e = Err e"

fun expect :: "'a option \<Rightarrow> ('e, 'a) result" where
  "expect (Some x) = Ok x"
| "expect None = Panic"

lemma and_then_Ok_iff: "and_then m f = Ok y \<longleftrightarrow> (\<exists>x. m = Ok x \<and> f x = Ok y)"
  by (cases m) auto

lemma and_then_Err_iff: "and_then m f = Err e \<longleftrightarrow> m = Err e \<or> (\<exists>x. m = Ok x \<and> f x = Err e)"
  by (cases m) auto

lemma and_then_Panic_iff: "and_then m f = Panic \<longleftrightarrow> m = Panic \<or> (\<exists>x. m = Ok x \<and> f x = Panic)"
  by (cases m) auto

lemmas and_then_iffs = and_then_Ok_iff and_then_Err_iff and_then_Panic_iff

lemma and_then_no_panic:
  "m \<noteq> Panic \<Longrightarrow> (\<And>x. m = Ok x \<Longrightarrow> f x \<noteq> Panic) \<Longrightarrow> and_then m f \<noteq> Panic"
  by (cases m) auto

lemma and_then_assoc: "and_then (and_then m f) g = and_then m (\<lambda>x. and_then (f x) g)"
  by (cases m) auto

lemma ok_or_iffs [simp]:
  "ok_or opt e = Ok x \<longleftrightarrow> opt = Some x" "ok_or opt e = Err e' \<longleftrightarrow> opt = None \<and> e' = e"
  "ok_or opt e \<noteq> Panic"
  by (cases opt; auto)+

lemma map_err_iffs [simp]:
  "map_err f m = Ok x \<longleftrightarrow> m = Ok x" "map_err f m = Panic \<longleftrightarrow> m = Panic"
  "map_err f m = Err e \<longleftrightarrow> (\<exists>d. m = Err d \<and> e = f d)"
  by (cases m; auto)+

lemma and_then_cong [fundef_cong]:
  "m = m' \<Longrightarrow> (\<And>x. m' = Ok x \<Longrightarrow> f x = g x) \<Longrightarrow> and_then m f = and_then m' g"
  by (cases m') auto

section \<open>Checked reads of slices\<close>

text \<open>\<open>buf[i]\<close>, \<open>&buf[a..b]\<close> and \<open>&buf[a..]\<close> panic out of range; \<open>buf.get(..)\<close> is an option.\<close>

definition idx :: "'a list \<Rightarrow> usize \<Rightarrow> ('e, 'a) result" where
  "idx buf i = (if i < length buf then Ok (buf ! i) else Panic)"

definition slice :: "'a list \<Rightarrow> usize \<Rightarrow> usize \<Rightarrow> ('e, 'a list) result" where
  "slice buf a b = (if a \<le> b \<and> b \<le> length buf then Ok (take (b - a) (drop a buf)) else Panic)"

definition slice_from :: "'a list \<Rightarrow> usize \<Rightarrow> ('e, 'a list) result" where
  "slice_from buf a = (if a \<le> length buf then Ok (drop a buf) else Panic)"

definition get_opt :: "'a list \<Rightarrow> usize \<Rightarrow> 'a option" where
  "get_opt buf i = (if i < length buf then Some (buf ! i) else None)"

definition get_range :: "'a list \<Rightarrow> usize \<Rightarrow> usize \<Rightarrow> 'a list option" where
  "get_range buf a b = (if a \<le> b \<and> b \<le> length buf then Some (take (b - a) (drop a buf)) else None)"

lemma idx_in [simp]: "i < length buf \<Longrightarrow> idx buf i = Ok (buf ! i)"
  by (simp add: idx_def)

lemma idx_iffs:
  "idx buf i = Ok x \<longleftrightarrow> i < length buf \<and> x = buf ! i"
  "idx buf i = Panic \<longleftrightarrow> length buf \<le> i" "idx buf i \<noteq> Err e"
  by (auto simp: idx_def)

lemma slice_in [simp]: "a \<le> b \<Longrightarrow> b \<le> length buf \<Longrightarrow> slice buf a b = Ok (take (b - a) (drop a buf))"
  by (simp add: slice_def)

lemma slice_from_in [simp]: "a \<le> length buf \<Longrightarrow> slice_from buf a = Ok (drop a buf)"
  by (simp add: slice_from_def)

lemma slice_iffs:
  "slice buf a b = Ok x \<longleftrightarrow> a \<le> b \<and> b \<le> length buf \<and> x = take (b - a) (drop a buf)"
  "slice buf a b \<noteq> Err e"
  by (auto simp: slice_def)

lemma slice_from_iffs:
  "slice_from buf a = Ok x \<longleftrightarrow> a \<le> length buf \<and> x = drop a buf" "slice_from buf a \<noteq> Err e"
  by (auto simp: slice_from_def)

section \<open>Byte orders\<close>

primrec from_le :: "bytes \<Rightarrow> 'a::len word" where
  "from_le [] = 0"
| "from_le (b # bs) = ucast b OR push_bit 8 (from_le bs)"

definition from_be :: "bytes \<Rightarrow> 'a::len word" where
  "from_be bs = from_le (rev bs)"

primrec to_le :: "nat \<Rightarrow> 'a::len word \<Rightarrow> bytes" where
  "to_le 0 w = []"
| "to_le (Suc n) w = ucast w # to_le n (drop_bit 8 w)"

definition to_be :: "nat \<Rightarrow> 'a::len word \<Rightarrow> bytes" where
  "to_be n w = rev (to_le n w)"

lemma length_to_le [simp]: "length (to_le n w) = n"
  by (induction n arbitrary: w) auto

lemma length_to_be [simp]: "length (to_be n w) = n"
  by (simp add: to_be_def)

text \<open>Reading back what was written: \<open>n\<close> bytes hold a word of at most \<open>8 * n\<close> bits.\<close>

lemma from_le_to_le_gen: "from_le (to_le n w) = take_bit (8 * n) w"
proof (induction n arbitrary: w)
  case 0
  then show ?case by simp
next
  case (Suc n)
  show ?case
    by (rule bit_word_eqI) (use Suc in \<open>auto simp: bit_simps\<close>)
qed

lemma from_le_to_le: "LENGTH('a) \<le> 8 * n \<Longrightarrow> from_le (to_le n (w :: 'a::len word)) = w"
  by (simp add: from_le_to_le_gen take_bit_word_eq_self)

lemma from_be_to_be: "LENGTH('a) \<le> 8 * n \<Longrightarrow> from_be (to_be n (w :: 'a::len word)) = w"
  by (simp add: from_be_def to_be_def from_le_to_le)

text \<open>And the other way round: the bytes are those that were read.\<close>

lemma to_le_take_bit: "8 * n \<le> m \<Longrightarrow> to_le n (take_bit m w) = to_le n w"
proof (induction n arbitrary: m w)
  case 0
  then show ?case by simp
next
  case (Suc n)
  have "ucast (take_bit m w) = (ucast w :: u8)"
    using Suc.prems by (intro bit_word_eqI) (auto simp: bit_simps)
  moreover have "drop_bit 8 (take_bit m w) = take_bit (m - 8) (drop_bit 8 w)"
    by (simp add: drop_bit_take_bit)
  ultimately show ?case using Suc by simp
qed

lemma to_le_from_le:
  "length bs = n \<Longrightarrow> 8 * n \<le> LENGTH('a) \<Longrightarrow> to_le n (from_le bs :: 'a::len word) = bs"
proof (induction bs arbitrary: n)
  case Nil
  then show ?case by simp
next
  case (Cons b bs)
  let ?x = "from_le bs :: 'a word"
  have len: "8 \<le> LENGTH('a)" and rest: "8 * length bs \<le> LENGTH('a) - 8"
    using Cons.prems by auto
  have low: "ucast (ucast b OR push_bit 8 ?x) = b"
    by (rule bit_word_eqI) (use len in \<open>auto simp: bit_simps\<close>)
  have high: "drop_bit 8 (ucast b OR push_bit 8 ?x) = take_bit (LENGTH('a) - 8) ?x"
    by (rule bit_word_eqI) (use len in \<open>auto simp: bit_simps dest: bit_imp_le_length\<close>)
  from Cons low high rest show ?case
    by (auto simp: to_le_take_bit)
qed

lemma to_be_from_be:
  "length bs = n \<Longrightarrow> 8 * n \<le> LENGTH('a) \<Longrightarrow> to_be n (from_be bs :: 'a::len word) = bs"
  by (simp add: from_be_def to_be_def to_le_from_le)

text \<open>\<open>u32::swap_bytes\<close>.\<close>

definition swap_bytes32 :: "u32 \<Rightarrow> u32" where
  "swap_bytes32 w = from_be (to_le 4 w)"

lemma swap_bytes32_twice [simp]: "swap_bytes32 (swap_bytes32 w) = w"
  by (simp add: swap_bytes32_def from_be_def to_le_from_le from_le_to_le)

text \<open>The two reads of \<open>packet/mod.rs\<close>: big-endian fields at an offset.\<close>

definition be16 :: "bytes \<Rightarrow> usize \<Rightarrow> ('e, u16) result" where
  "be16 buf at =
     and_then (idx buf at) (\<lambda>b0. and_then (idx buf (at + 1)) (\<lambda>b1. Ok (from_be [b0, b1])))"

definition be32 :: "bytes \<Rightarrow> usize \<Rightarrow> ('e, u32) result" where
  "be32 buf at =
     and_then (idx buf at) (\<lambda>b0. and_then (idx buf (at + 1)) (\<lambda>b1.
     and_then (idx buf (at + 2)) (\<lambda>b2. and_then (idx buf (at + 3)) (\<lambda>b3.
       Ok (from_be [b0, b1, b2, b3])))))"

lemma be16_in [simp]: "at + 1 < length buf \<Longrightarrow> be16 buf at = Ok (from_be [buf ! at, buf ! (at + 1)])"
  by (simp add: be16_def)

lemma be32_in [simp]:
  "at + 3 < length buf \<Longrightarrow>
   be32 buf at = Ok (from_be [buf ! at, buf ! (at + 1), buf ! (at + 2), buf ! (at + 3)])"
  by (simp add: be32_def)

section \<open>Integers\<close>

text \<open>\<open>saturating_add\<close>, \<open>saturating_sub\<close>, \<open>checked_add\<close>, and \<open>u16::try_from(usize)\<close>.\<close>

definition saturating_add :: "'a::len word \<Rightarrow> 'a word \<Rightarrow> 'a word" where
  "saturating_add a b = (if unat a + unat b < 2 ^ LENGTH('a) then a + b else - 1)"

definition saturating_sub :: "'a::len word \<Rightarrow> 'a word \<Rightarrow> 'a word" where
  "saturating_sub a b = (if b \<le> a then a - b else 0)"

definition checked_add :: "'a::len word \<Rightarrow> 'a word \<Rightarrow> 'a word option" where
  "checked_add a b = (if unat a + unat b < 2 ^ LENGTH('a) then Some (a + b) else None)"

definition try_from_usize :: "usize \<Rightarrow> 'a::len word option" where
  "try_from_usize n = (if n < 2 ^ LENGTH('a) then Some (of_nat n) else None)"

lemma unat_saturating_add:
  "unat (saturating_add a b) = min (unat a + unat b) (2 ^ LENGTH('a) - 1)" for a b :: "'a::len word"
  by (auto simp: saturating_add_def unat_word_ariths min_def unsigned_minus_1_eq_mask mask_eq_exp_minus_1)

lemma unat_saturating_sub: "unat (saturating_sub a b) = unat a - unat b"
  by (auto simp: saturating_sub_def unat_sub word_le_nat_alt not_le)

lemma unat_add_no_overflow:
  "unat a + unat b < 2 ^ LENGTH('a) \<Longrightarrow> unat (a + b) = unat a + unat b" for a b :: "'a::len word"
  by (simp add: unat_word_ariths)

lemma unat_Suc_no_overflow:
  "Suc (unat a) < 2 ^ LENGTH('a) \<Longrightarrow> unat (a + 1) = Suc (unat a)" for a :: "'a::len word"
  by (simp add: unat_word_ariths)

lemma unat_less: "unat w < 2 ^ LENGTH('a)" for w :: "'a::len word"
  by (rule unsigned_less)

lemma unat_u8: "unat w < 256" for w :: u8
  using unat_less [of w] by simp

lemma unat_u16: "unat w < 65536" for w :: u16
  using unat_less [of w] by simp

text \<open>A shifted value and a value that fits below it: \<open>OR\<close> is addition.\<close>

lemma push_bit_or_low: "m < 2 ^ k \<Longrightarrow> push_bit k n OR m = n * 2 ^ k + m" for m n :: nat
proof -
  assume "m < 2 ^ k"
  then have m: "take_bit k m = m" by (simp add: take_bit_nat_eq_self)
  have "\<not> bit m i" if "k \<le> i" for i
    using that by (subst m [symmetric]) (simp add: bit_simps)
  then have "push_bit k n OR m = push_bit k n + m"
    by (intro disjunctive_add [symmetric]) (auto simp: bit_simps)
  then show ?thesis by (simp add: push_bit_eq_mult)
qed

text \<open>Decimal and hexadecimal \<open>Display\<close> of unsigned integers.\<close>

definition digit_char :: "nat \<Rightarrow> char" where
  "digit_char d = (if d < 10 then char_of (48 + d) else char_of (87 + d))"

fun show_base :: "nat \<Rightarrow> nat \<Rightarrow> string" where
  "show_base b n =
     (if n < b \<or> b < 2 then [digit_char n] else show_base b (n div b) @ [digit_char (n mod b)])"

declare show_base.simps [simp del]

definition show_nat :: "nat \<Rightarrow> string" where
  "show_nat n = show_base 10 n"

definition show_hex :: "nat \<Rightarrow> string" where
  "show_hex n = show_base 16 n"

end
