(* ===== verification/Net_Types.thy ===== *)
theory Net_Types
  imports Prelude "HOL-Library.List_Lexorder" "HOL-Library.Product_Lexorder"
begin

text \<open>
  The value types the components exchange: \<open>IpAddr\<close> of the standard library with its order and
  its \<open>Display\<close>, the parse errors of \<open>core/src/error.rs\<close>, and the link types and frames of
  \<open>core/src/packet/mod.rs\<close>.
\<close>

section \<open>Addresses\<close>

text \<open>
  \<open>IpAddr\<close> holds the octets, four of them or sixteen.  The derived order puts every V4
  address before every V6 address and compares octets (for V6: segments, which is the same
  order) lexicographically.
\<close>

datatype ip_addr = V4 bytes | V6 bytes

fun ip_wf :: "ip_addr \<Rightarrow> bool" where
  "ip_wf (V4 os) \<longleftrightarrow> length os = 4"
| "ip_wf (V6 os) \<longleftrightarrow> length os = 16"

fun is_ipv4 :: "ip_addr \<Rightarrow> bool" where
  "is_ipv4 (V4 _) = True"
| "is_ipv4 (V6 _) = False"

instantiation ip_addr :: linorder
begin

fun less_eq_ip_addr :: "ip_addr \<Rightarrow> ip_addr \<Rightarrow> bool" where
  "V4 a \<le> V4 b \<longleftrightarrow> a \<le> b"
| "V4 a \<le> V6 b \<longleftrightarrow> True"
| "V6 a \<le> V4 b \<longleftrightarrow> False"
| "V6 a \<le> V6 b \<longleftrightarrow> a \<le> b"

definition less_ip_addr :: "ip_addr \<Rightarrow> ip_addr \<Rightarrow> bool" where
  "(x :: ip_addr) < y \<longleftrightarrow> x \<le> y \<and> \<not> y \<le> x"

instance
proof
  fix x y z :: ip_addr
  show "x < y \<longleftrightarrow> x \<le> y \<and> \<not> y \<le> x" by (simp add: less_ip_addr_def)
  show "x \<le> x" by (cases x) auto
  show "x \<le> y \<Longrightarrow> y \<le> z \<Longrightarrow> x \<le> z" by (cases x; cases y; cases z) auto
  show "x \<le> y \<Longrightarrow> y \<le> x \<Longrightarrow> x = y" by (cases x; cases y) auto
  show "x \<le> y \<or> y \<le> x" by (cases x; cases y) auto
qed

end

text \<open>
  \<open>Display\<close>: dotted decimal for V4.  For V6 the standard library prints IPv4-mapped addresses
  as \<open>::ffff:a.b.c.d\<close>, otherwise lower-case hexadecimal segments with the first longest run of
  at least two zero segments written \<open>::\<close>.
\<close>

fun join_with :: "char \<Rightarrow> string list \<Rightarrow> string" where
  "join_with c [] = []"
| "join_with c [s] = s"
| "join_with c (s # t # ss) = s @ c # join_with c (t # ss)"

text \<open>\<open>str::split\<close> at a character.\<close>

fun split_on :: "char \<Rightarrow> string \<Rightarrow> string list" where
  "split_on c [] = [[]]"
| "split_on c (x # xs) =
     (if x = c then [] # split_on c xs
      else case split_on c xs of s # ss \<Rightarrow> (x # s) # ss | [] \<Rightarrow> [[x]])"

lemma split_on_nonempty: "split_on c s \<noteq> []"
  by (induction s) (auto split: list.splits)

lemma split_on_join: "join_with c (split_on c s) = s"
proof (induction s)
  case (Cons x xs)
  obtain w ws where ws: "split_on c xs = w # ws" using split_on_nonempty by (meson neq_Nil_conv)
  with Cons show ?case by (cases ws) (auto)
qed simp

definition show_ipv4 :: "bytes \<Rightarrow> string" where
  "show_ipv4 os = join_with CHR ''.'' (map (\<lambda>b. show_nat (unat b)) os)"

fun segments :: "bytes \<Rightarrow> u16 list" where
  "segments (hi # lo # os) = from_be [hi, lo] # segments os"
| "segments _ = []"

text \<open>The loop over the segments: \<open>i\<close>, the current span and the longest one, as (start, len).\<close>

fun zero_span :: "usize \<Rightarrow> u16 list \<Rightarrow> usize \<times> usize \<Rightarrow> usize \<times> usize \<Rightarrow> usize \<times> usize" where
  "zero_span i [] current longest = longest"
| "zero_span i (s # ss) current longest =
     (if s = 0 then
        let current' = ((if snd current = 0 then i else fst current), snd current + 1)
        in zero_span (i + 1) ss current' (if snd current' > snd longest then current' else longest)
      else zero_span (i + 1) ss (0, 0) longest)"

definition show_segments :: "u16 list \<Rightarrow> string" where
  "show_segments ss = join_with CHR '':'' (map (\<lambda>s. show_hex (unat s)) ss)"

definition show_ipv6 :: "bytes \<Rightarrow> string" where
  "show_ipv6 os =
     (if take 12 os = replicate 10 0 @ [255, 255] then ''::ffff:'' @ show_ipv4 (drop 12 os)
      else let ss = segments os; (start, len) = zero_span 0 ss (0, 0) (0, 0) in
        if len > 1 then show_segments (take start ss) @ ''::'' @ show_segments (drop (start + len) ss)
        else show_segments ss)"

fun show_ip :: "ip_addr \<Rightarrow> string" where
  "show_ip (V4 os) = show_ipv4 os"
| "show_ip (V6 os) = show_ipv6 os"

section \<open>Parse errors\<close>

datatype layer = Link | Ipv4 | Ipv6 | Tcp | Udp | Icmp | Dns

fun show_layer :: "layer \<Rightarrow> string" where
  "show_layer Link = ''link''"
| "show_layer Ipv4 = ''ipv4''"
| "show_layer Ipv6 = ''ipv6''"
| "show_layer Tcp = ''tcp''"
| "show_layer Udp = ''udp''"
| "show_layer Icmp = ''icmp''"
| "show_layer Dns = ''dns''"

datatype parse_error =
    Truncated layer (needed: usize) (available: usize)
  | Malformed layer string

fun error_layer :: "parse_error \<Rightarrow> layer" where
  "error_layer (Truncated l n a) = l"
| "error_layer (Malformed l r) = l"

fun show_parse_error :: "parse_error \<Rightarrow> string" where
  "show_parse_error (Truncated l n a) =
     show_layer l @ '': truncated, need '' @ show_nat n @ '' bytes, have '' @ show_nat a"
| "show_parse_error (Malformed l r) = show_layer l @ '': '' @ r"

text \<open>A truncation report is honest when it asks for more bytes than it says there are.\<close>

fun error_honest :: "usize \<Rightarrow> parse_error \<Rightarrow> bool" where
  "error_honest n (Truncated l want have) \<longleftrightarrow> have < want \<and> have \<le> n"
| "error_honest n (Malformed l r) \<longleftrightarrow> True"

lemma error_honest_mono: "error_honest m e \<Longrightarrow> m \<le> n \<Longrightarrow> error_honest n e"
  by (cases e) auto

definition need :: "bytes \<Rightarrow> usize \<Rightarrow> layer \<Rightarrow> (parse_error, unit) result" where
  "need buf len l = (if length buf < len then Err (Truncated l len (length buf)) else Ok ())"

lemma need_iffs:
  "need buf n l = Ok u \<longleftrightarrow> n \<le> length buf"
  "need buf n l = Err e \<longleftrightarrow> length buf < n \<and> e = Truncated l n (length buf)"
  "need buf n l \<noteq> Panic"
  by (auto simp: need_def)

section \<open>Link types and frames\<close>

datatype link_type = LinkNull | LinkEthernet | LinkRaw

fun link_as_u32 :: "link_type \<Rightarrow> u32" where
  "link_as_u32 LinkNull = 0"
| "link_as_u32 LinkEthernet = 1"
| "link_as_u32 LinkRaw = 101"

definition link_from_raw :: "u32 \<Rightarrow> link_type option" where
  "link_from_raw v =
     (if v = 0 then Some LinkNull
      else if v = 1 then Some LinkEthernet
      else if v = 12 \<or> v = 14 \<or> v = 101 then Some LinkRaw
      else None)"

lemma link_from_raw_as_u32 [simp]: "link_from_raw (link_as_u32 l) = Some l"
  by (cases l) (auto simp: link_from_raw_def)

record frame =
  fr_ts_us :: u64
  fr_wire_len :: u32
  fr_data :: bytes

end
