(* ===== verification/Lru_Cache.thy ===== *)
theory Lru_Cache
  imports Prelude "HOL-Library.AList"
begin

text \<open>
  The \<open>LruCache\<close> of the \<open>lru\<close> crate, which is not part of the repository.  The flow table and
  the rules call it through the operations of \<open>lru_api\<close>, a parameter of their definitions; the
  locale \<open>lru\<close> states the documented behaviour they rely on, over the list of entries that
  \<open>iter\<close> visits, most recently used first.  A mutable reference to a stored value is the value
  together with the cache after the borrow, as a function of what was written.
\<close>

record ('c, 'k, 'v) lru_api =
  lru_new :: "usize \<Rightarrow> 'c"
  lru_get_mut :: "'c \<Rightarrow> 'k \<Rightarrow> ('v \<times> ('v \<Rightarrow> 'c)) option"
  lru_get_or_insert_mut :: "'c \<Rightarrow> 'k \<Rightarrow> 'v \<Rightarrow> 'v \<times> ('v \<Rightarrow> 'c)"
  lru_push :: "'c \<Rightarrow> 'k \<Rightarrow> 'v \<Rightarrow> 'c \<times> ('k \<times> 'v) option"
  lru_peek :: "'c \<Rightarrow> 'k \<Rightarrow> 'v option"
  lru_peek_lru :: "'c \<Rightarrow> ('k \<times> 'v) option"
  lru_pop_lru :: "'c \<Rightarrow> 'c \<times> ('k \<times> 'v) option"
  lru_iter :: "'c \<Rightarrow> ('k \<times> 'v) list"
  lru_len :: "'c \<Rightarrow> usize"

text \<open>On the list of entries: storing under a key that is there, and under a new one.\<close>

definition touch :: "'k \<Rightarrow> 'v \<Rightarrow> ('k \<times> 'v) list \<Rightarrow> ('k \<times> 'v) list" where
  "touch k v xs = (k, v) # AList.delete k xs"

definition add_front :: "usize \<Rightarrow> 'k \<Rightarrow> 'v \<Rightarrow> ('k \<times> 'v) list \<Rightarrow> ('k \<times> 'v) list" where
  "add_front n k v xs = (k, v) # (if length xs < n then xs else butlast xs)"

definition last_opt :: "'a list \<Rightarrow> 'a option" where
  "last_opt xs = (if xs = [] then None else Some (last xs))"

lemma map_of_touch [simp]: "map_of (touch k v xs) = (map_of xs)(k \<mapsto> v)"
  by (simp add: touch_def delete_conv fun_eq_iff)

lemma keys_touch: "fst ` set (touch k v xs) = insert k (fst ` set xs)"
  using dom_map_of_conv_image_fst [of "touch k v xs"] dom_map_of_conv_image_fst [of xs] by simp

lemma distinct_touch: "distinct (map fst xs) \<Longrightarrow> distinct (map fst (touch k v xs))"
  by (simp add: touch_def AList.distinct_delete AList.delete_notin_dom del: set_map)
    (simp add: AList.delete_keys)

lemma length_touch: "k \<in> fst ` set xs \<Longrightarrow> distinct (map fst xs) \<Longrightarrow> length (touch k v xs) = length xs"
  by (induction xs) (auto simp: touch_def)

lemma set_touch: "set (touch k v xs) = insert (k, v) {p \<in> set xs. fst p \<noteq> k}"
  by (auto simp: touch_def AList.delete_eq)

lemma distinct_map_butlast: "distinct (map f xs) \<Longrightarrow> distinct (map f (butlast xs))"
  by (simp add: map_butlast distinct_butlast)

lemma distinct_add_front:
  "distinct (map fst xs) \<Longrightarrow> k \<notin> fst ` set xs \<Longrightarrow> distinct (map fst (add_front n k v xs))"
  by (auto simp: add_front_def distinct_map_butlast dest: in_set_butlastD)

lemma length_add_front: "0 < n \<Longrightarrow> length xs \<le> n \<Longrightarrow> length (add_front n k v xs) = min n (Suc (length xs))"
  by (auto simp: add_front_def)

locale lru =
  fixes api :: "('c, 'k, 'v) lru_api" and cap :: "'c \<Rightarrow> nat" and valid :: "'c \<Rightarrow> bool"
  assumes new: "0 < n \<Longrightarrow> valid (lru_new api n) \<and> cap (lru_new api n) = n \<and> lru_iter api (lru_new api n) = []"
    and entries: "valid c \<Longrightarrow> distinct (map fst (lru_iter api c)) \<and> length (lru_iter api c) \<le> cap c \<and> 0 < cap c"
    and get_mut_None: "valid c \<Longrightarrow> lru_get_mut api c k = None \<longleftrightarrow> k \<notin> fst ` set (lru_iter api c)"
    and get_mut_Some: "valid c \<Longrightarrow> lru_get_mut api c k = Some (v, put) \<Longrightarrow>
      map_of (lru_iter api c) k = Some v \<and>
      (\<forall>v'. valid (put v') \<and> cap (put v') = cap c \<and> lru_iter api (put v') = touch k v' (lru_iter api c))"
    and get_or_insert_mut: "valid c \<Longrightarrow> lru_get_or_insert_mut api c k v0 = (v, put) \<Longrightarrow>
      v = (case map_of (lru_iter api c) k of None \<Rightarrow> v0 | Some v1 \<Rightarrow> v1) \<and>
      (\<forall>v'. valid (put v') \<and> cap (put v') = cap c \<and>
        lru_iter api (put v') =
          (if k \<in> fst ` set (lru_iter api c) then touch k v' (lru_iter api c)
           else add_front (cap c) k v' (lru_iter api c)))"
    and push_new: "valid c \<Longrightarrow> k \<notin> fst ` set (lru_iter api c) \<Longrightarrow> lru_push api c k v = (c', out) \<Longrightarrow>
      valid c' \<and> cap c' = cap c \<and> lru_iter api c' = add_front (cap c) k v (lru_iter api c) \<and>
      out = (if length (lru_iter api c) < cap c then None else Some (last (lru_iter api c)))"
    and peek: "valid c \<Longrightarrow> lru_peek api c k = map_of (lru_iter api c) k"
    and peek_lru: "valid c \<Longrightarrow> lru_peek_lru api c = last_opt (lru_iter api c)"
    and pop_lru: "valid c \<Longrightarrow> lru_pop_lru api c = (c', out) \<Longrightarrow>
      valid c' \<and> cap c' = cap c \<and> lru_iter api c' = butlast (lru_iter api c) \<and>
      out = last_opt (lru_iter api c)"
    and len: "valid c \<Longrightarrow> lru_len api c = length (lru_iter api c)"
begin

lemma distinct_keys: "valid c \<Longrightarrow> distinct (map fst (lru_iter api c))"
  using entries by blast

lemma within_cap: "valid c \<Longrightarrow> length (lru_iter api c) \<le> cap c" and cap_pos: "valid c \<Longrightarrow> 0 < cap c"
  using entries by blast+

end

section \<open>A list as a cache\<close>

text \<open>
  A cache that keeps the entries in a list meets the contract; the closed instances of the
  development run on it.
\<close>

record ('k, 'v) list_lru =
  ll_cap :: nat
  ll_entries :: "('k \<times> 'v) list"

definition ll_valid :: "('k, 'v) list_lru \<Rightarrow> bool" where
  "ll_valid c \<longleftrightarrow> distinct (map fst (ll_entries c)) \<and> length (ll_entries c) \<le> ll_cap c \<and> 0 < ll_cap c"

definition ll_put :: "('k, 'v) list_lru \<Rightarrow> 'k \<Rightarrow> 'v \<Rightarrow> ('k, 'v) list_lru" where
  "ll_put c k v =
     c\<lparr>ll_entries := (if k \<in> fst ` set (ll_entries c) then touch k v (ll_entries c)
                      else add_front (ll_cap c) k v (ll_entries c))\<rparr>"

definition list_lru_api :: "(('k, 'v) list_lru, 'k, 'v) lru_api" where
  "list_lru_api =
     \<lparr>lru_new = (\<lambda>n. \<lparr>ll_cap = n, ll_entries = []\<rparr>),
      lru_get_mut = (\<lambda>c k. map_option (\<lambda>v. (v, ll_put c k)) (map_of (ll_entries c) k)),
      lru_get_or_insert_mut =
        (\<lambda>c k v0. (case map_of (ll_entries c) k of None \<Rightarrow> v0 | Some v \<Rightarrow> v, ll_put c k)),
      lru_push = (\<lambda>c k v. (ll_put c k v,
        (case map_of (ll_entries c) k of
           Some old \<Rightarrow> Some (k, old)
         | None \<Rightarrow> if length (ll_entries c) < ll_cap c then None else last_opt (ll_entries c)))),
      lru_peek = (\<lambda>c. map_of (ll_entries c)),
      lru_peek_lru = (\<lambda>c. last_opt (ll_entries c)),
      lru_pop_lru = (\<lambda>c. (c\<lparr>ll_entries := butlast (ll_entries c)\<rparr>, last_opt (ll_entries c))),
      lru_iter = ll_entries,
      lru_len = (\<lambda>c. length (ll_entries c))\<rparr>"

lemma ll_put_valid: "ll_valid c \<Longrightarrow> ll_valid (ll_put c k v)"
  by (auto simp: ll_valid_def ll_put_def distinct_touch length_touch distinct_add_front length_add_front)

lemma key_of_entry: "(k, v) \<in> S \<Longrightarrow> k \<in> fst ` S"
  by force

interpretation list_lru: lru list_lru_api ll_cap ll_valid
proof (unfold_locales, goal_cases)
  case (6 c k v c' out)
  then show ?case
    by (auto simp: list_lru_api_def ll_put_valid ll_put_def last_opt_def ll_valid_def
        distinct_add_front length_add_front map_of_eq_None_iff [THEN iffD2]
        split: option.splits)
next
  case (9 c c' out)
  then show ?case
    by (auto simp: list_lru_api_def ll_valid_def distinct_map_butlast)
qed (auto simp: list_lru_api_def ll_valid_def map_of_eq_None_iff ll_put_def
    distinct_touch length_touch distinct_add_front length_add_front split: option.splits
    dest!: map_of_SomeD dest: key_of_entry)

end
