(* ===== verification/Flow.thy ===== *)
theory Flow
  imports Net_Types Lru_Cache "HOL-Library.Product_Lexorder" "HOL-Library.Multiset"
begin

text \<open>
  The flow table of \<open>core/src/flow.rs\<close>: canonical bidirectional keys, per-flow statistics, the
  update of one packet, the expiry of idle flows and the \<open>n\<close> flows with the most bytes.  The
  store is an \<open>LruCache\<close>, used through \<open>lru_api\<close>.
\<close>

section \<open>Keys\<close>

datatype endpoint = Endpoint (ep_addr: ip_addr) (ep_port: u16)

datatype flow_key = FlowKey (fk_a: endpoint) (fk_b: endpoint) (fk_proto: u8)

datatype direction = AtoB | BtoA

text \<open>The derived \<open>Ord\<close>: fields in order.\<close>

instantiation endpoint :: linorder
begin

definition less_eq_endpoint :: "endpoint \<Rightarrow> endpoint \<Rightarrow> bool" where
  "less_eq_endpoint x y \<longleftrightarrow> (ep_addr x, ep_port x) \<le> (ep_addr y, ep_port y)"

definition less_endpoint :: "endpoint \<Rightarrow> endpoint \<Rightarrow> bool" where
  "less_endpoint x y \<longleftrightarrow> (ep_addr x, ep_port x) < (ep_addr y, ep_port y)"

instance
  by standard
    (unfold less_eq_endpoint_def less_endpoint_def,
     (rule less_le_not_le | rule order.refl | erule (1) order.trans | rule linear |
      (drule (1) order.antisym, simp add: endpoint.expand))+)

end

instantiation flow_key :: linorder
begin

definition less_eq_flow_key :: "flow_key \<Rightarrow> flow_key \<Rightarrow> bool" where
  "less_eq_flow_key x y \<longleftrightarrow> (fk_a x, fk_b x, fk_proto x) \<le> (fk_a y, fk_b y, fk_proto y)"

definition less_flow_key :: "flow_key \<Rightarrow> flow_key \<Rightarrow> bool" where
  "less_flow_key x y \<longleftrightarrow> (fk_a x, fk_b x, fk_proto x) < (fk_a y, fk_b y, fk_proto y)"

instance
  by standard
    (unfold less_eq_flow_key_def less_flow_key_def,
     (rule less_le_not_le | rule order.refl | erule (1) order.trans | rule linear |
      (drule (1) order.antisym, simp add: flow_key.expand))+)

end

definition canonical :: "endpoint \<Rightarrow> endpoint \<Rightarrow> u8 \<Rightarrow> flow_key \<times> direction" where
  "canonical src dst proto =
     (if src \<le> dst then (FlowKey src dst proto, AtoB) else (FlowKey dst src proto, BtoA))"

fun flip :: "direction \<Rightarrow> direction" where
  "flip AtoB = BtoA"
| "flip BtoA = AtoB"

lemma canonical_ordered: "canonical s d p = (k, dir) \<Longrightarrow> fk_a k \<le> fk_b k \<and> fk_proto k = p"
  by (auto simp: canonical_def split: if_splits)

lemma canonical_swap:
  "canonical d s p = (fst (canonical s d p), if s = d then snd (canonical s d p) else flip (snd (canonical s d p)))"
  by (auto simp: canonical_def)

lemma canonical_eq_iff:
  "fst (canonical s d p) = fst (canonical s' d' p') \<longleftrightarrow>
   p = p' \<and> (s = s' \<and> d = d' \<or> s = d' \<and> d = s')"
  by (auto simp: canonical_def)

section \<open>Statistics\<close>

text \<open>The two-element arrays are pairs indexed by \<open>direction as usize\<close>.\<close>

record flow_stats =
  first_seen_us :: u64
  last_seen_us :: u64
  fs_packets :: "u64 \<times> u64"
  fs_bytes :: "u64 \<times> u64"
  fs_tcp_flags :: u8

fun at_dir :: "direction \<Rightarrow> 'a \<times> 'a \<Rightarrow> 'a" where
  "at_dir AtoB p = fst p"
| "at_dir BtoA p = snd p"

fun upd_dir :: "direction \<Rightarrow> ('a \<Rightarrow> 'a) \<Rightarrow> 'a \<times> 'a \<Rightarrow> 'a \<times> 'a" where
  "upd_dir AtoB f p = (f (fst p), snd p)"
| "upd_dir BtoA f p = (fst p, f (snd p))"

definition total_packets :: "flow_stats \<Rightarrow> u64" where
  "total_packets s = fst (fs_packets s) + snd (fs_packets s)"

definition total_bytes :: "flow_stats \<Rightarrow> u64" where
  "total_bytes s = fst (fs_bytes s) + snd (fs_bytes s)"

definition duration_us :: "flow_stats \<Rightarrow> u64" where
  "duration_us s = last_seen_us s - first_seen_us s"

record flow_update =
  fu_key :: flow_key
  fu_direction :: direction
  fu_ts_us :: u64
  fu_bytes :: u32
  fu_tcp_flags :: u8

lemma at_upd_dir [simp]: "at_dir d (upd_dir d' f p) = (if d = d' then f (at_dir d p) else at_dir d p)"
  by (cases d; cases d') auto

lemma dir_pair_eqI: "at_dir AtoB p = at_dir AtoB q \<Longrightarrow> at_dir BtoA p = at_dir BtoA q \<Longrightarrow> p = q"
  by (cases p; cases q) auto

section \<open>The table\<close>

record 'c flow_table =
  flows :: 'c
  idle_timeout_us :: u64
  evicted :: u64
  expired :: u64

definition flow_table_new :: "('c, flow_key, flow_stats) lru_api \<Rightarrow> usize \<Rightarrow> u64 \<Rightarrow> 'c flow_table" where
  "flow_table_new L capacity timeout =
     \<lparr>flows = lru_new L capacity, idle_timeout_us = timeout, evicted = 0, expired = 0\<rparr>"

definition stats_bump :: "flow_update \<Rightarrow> flow_stats \<Rightarrow> flow_stats" where
  "stats_bump u s =
     s\<lparr>last_seen_us := max (last_seen_us s) (fu_ts_us u),
       fs_packets := upd_dir (fu_direction u) (\<lambda>n. n + 1) (fs_packets s),
       fs_bytes := upd_dir (fu_direction u) (\<lambda>n. n + ucast (fu_bytes u)) (fs_bytes s),
       fs_tcp_flags := fs_tcp_flags s OR fu_tcp_flags u\<rparr>"

definition stats_first :: "flow_update \<Rightarrow> flow_stats" where
  "stats_first u =
     \<lparr>first_seen_us = fu_ts_us u, last_seen_us = fu_ts_us u,
      fs_packets = upd_dir (fu_direction u) (\<lambda>_. 1) (0, 0),
      fs_bytes = upd_dir (fu_direction u) (\<lambda>_. ucast (fu_bytes u)) (0, 0),
      fs_tcp_flags = fu_tcp_flags u\<rparr>"

definition flow_table_update ::
  "('c, flow_key, flow_stats) lru_api \<Rightarrow> 'c flow_table \<Rightarrow> flow_update \<Rightarrow> 'c flow_table \<times> flow_stats" where
  "flow_table_update L t u =
     (case lru_get_mut L (flows t) (fu_key u) of
        Some (stats, put) \<Rightarrow>
          let stats = stats_bump u stats in (t\<lparr>flows := put stats\<rparr>, stats)
      | None \<Rightarrow>
          let stats = stats_first u; (c, out) = lru_push L (flows t) (fu_key u) stats in
          (t\<lparr>flows := c, evicted := (if out \<noteq> None then evicted t + 1 else evicted t)\<rparr>, stats))"

text \<open>
  The \<open>while let\<close> of \<open>expire\<close>.  Each turn that does not break pops an entry, so \<open>len\<close> turns
  after the first test are enough; \<open>expire_loop_exact\<close> shows that the loop always stops at its
  own exit.
\<close>

primrec expire_loop ::
  "('c, flow_key, flow_stats) lru_api \<Rightarrow> u64 \<Rightarrow> u64 \<Rightarrow> nat \<Rightarrow> 'c \<Rightarrow> usize \<Rightarrow> 'c \<times> usize" where
  "expire_loop L timeout now 0 c removed = (c, removed)"
| "expire_loop L timeout now (Suc fuel) c removed =
     (case lru_peek_lru L c of
        None \<Rightarrow> (c, removed)
      | Some (_, stats) \<Rightarrow>
          if last_seen_us stats + timeout > now then (c, removed)
          else expire_loop L timeout now fuel (fst (lru_pop_lru L c)) (removed + 1))"

definition flow_expire ::
  "('c, flow_key, flow_stats) lru_api \<Rightarrow> 'c flow_table \<Rightarrow> u64 \<Rightarrow> 'c flow_table \<times> usize" where
  "flow_expire L t now =
     (let (c, removed) = expire_loop L (idle_timeout_us t) now (Suc (lru_len L (flows t))) (flows t) 0
      in (t\<lparr>flows := c, expired := expired t + of_nat removed\<rparr>, removed))"

text \<open>
  The bounded min-heap of \<open>top_by_bytes\<close>: \<open>BinaryHeap<Reverse<..>>\<close> is its elements in ascending
  order, so \<open>push\<close> inserts and \<open>pop\<close> takes the least.  Its \<open>into_iter\<close> visits them in an
  unspecified order, which the final sort forgets: keys are distinct.
\<close>

definition heap_step :: "usize \<Rightarrow> 'a::linorder list \<Rightarrow> 'a \<Rightarrow> 'a list" where
  "heap_step n heap x =
     (let heap = insort x heap in if length heap > n then tl heap else heap)"

definition rank :: "flow_key \<times> flow_stats \<Rightarrow> u64 \<times> flow_key" where
  "rank e = (total_bytes (snd e), fst e)"

definition top_by_bytes ::
  "('c, flow_key, flow_stats) lru_api \<Rightarrow> 'c flow_table \<Rightarrow> usize \<Rightarrow> (flow_key \<times> flow_stats) list" where
  "top_by_bytes L t n =
     (if n = 0 then []
      else
        let heap = foldl (\<lambda>h e. heap_step n h (rank e)) [] (lru_iter L (flows t));
            top = List.map_filter (\<lambda>(_, key). map_option (\<lambda>s. (key, s)) (lru_peek L (flows t) key)) heap
        in sort_key (\<lambda>(key, s). (- int (unat (total_bytes s)), key)) top)"

definition flow_iter :: "('c, flow_key, flow_stats) lru_api \<Rightarrow> 'c flow_table \<Rightarrow> (flow_key \<times> flow_stats) list" where
  "flow_iter L t = lru_iter L (flows t)"

definition flow_get :: "('c, flow_key, flow_stats) lru_api \<Rightarrow> 'c flow_table \<Rightarrow> flow_key \<Rightarrow> flow_stats option" where
  "flow_get L t key = lru_peek L (flows t) key"

definition flow_len :: "('c, flow_key, flow_stats) lru_api \<Rightarrow> 'c flow_table \<Rightarrow> usize" where
  "flow_len L t = lru_len L (flows t)"

section \<open>The bounded heap keeps the greatest\<close>

lemma insort_below: "\<forall>y\<in>set ys. x \<le> y \<Longrightarrow> insort x ys = x # ys"
  by (cases ys) auto

lemma drop_insort:
  "sorted ys \<Longrightarrow> d \<le> length ys \<Longrightarrow> drop (Suc d) (insort x ys) = tl (insort x (drop d ys))"
proof (induction ys arbitrary: d)
  case (Cons y ys)
  show ?case
  proof (cases d)
    case 0
    then show ?thesis by (simp add: drop_Suc)
  next
    case (Suc d')
    show ?thesis
    proof (cases "x \<le> y")
      case True
      then have "\<forall>z\<in>set (drop d' ys). x \<le> z"
        using Cons.prems(1) by (auto dest!: in_set_dropD)
      with True Suc show ?thesis by (simp add: insort_below)
    next
      case False
      with Suc Cons show ?thesis by simp
    qed
  qed
qed simp

lemma heap_step_sort:
  "heap_step n (drop (length ys - n) (sort ys)) x = drop (Suc (length ys) - n) (sort (x # ys))"
proof (cases "Suc (length ys) \<le> n")
  case True
  then show ?thesis by (simp add: heap_step_def)
next
  case False
  then have "Suc (length ys) - n = Suc (length ys - n)" by simp
  with False show ?thesis
    by (simp add: heap_step_def drop_insort del: drop_Suc)
qed

lemma heap_fold_sort:
  "foldl (heap_step n) (drop (length ys - n) (sort ys)) xs =
   drop (length xs + length ys - n) (sort (rev xs @ ys))"
proof (induction xs arbitrary: ys)
  case (Cons x xs)
  show ?case
    using Cons.IH [of "x # ys"] by (simp add: heap_step_sort del: sort_key_simps)
qed simp

lemma heap_fold: "foldl (heap_step n) [] xs = drop (length xs - n) (sort xs)"
proof -
  have "sort (rev xs) = sort xs" by (rule properties_for_sort) auto
  then show ?thesis using heap_fold_sort [of n "[]" xs] by simp
qed

section \<open>The table over the cache contract\<close>

locale flow_cache = lru api cap valid
  for api :: "('c, flow_key, flow_stats) lru_api" and cap :: "'c \<Rightarrow> nat" and valid :: "'c \<Rightarrow> bool"
begin

abbreviation entries_of :: "'c flow_table \<Rightarrow> (flow_key \<times> flow_stats) list" where
  "entries_of t \<equiv> lru_iter api (flows t)"

lemma update_hit:
  assumes "valid (flows t)" and "map_of (entries_of t) (fu_key u) = Some s0"
    and "flow_table_update api t u = (t', s)"
  shows "s = stats_bump u s0 \<and> entries_of t' = touch (fu_key u) s (entries_of t) \<and>
    valid (flows t') \<and> cap (flows t') = cap (flows t) \<and> t' = t\<lparr>flows := flows t'\<rparr>"
proof -
  have "fu_key u \<in> fst ` set (entries_of t)"
    using assms(2) by (auto dest!: map_of_SomeD intro: rev_image_eqI)
  then obtain v put where p: "lru_get_mut api (flows t) (fu_key u) = Some (v, put)"
    using get_mut_None [OF assms(1)] by (cases "lru_get_mut api (flows t) (fu_key u)") auto
  from get_mut_Some [OF assms(1) p] assms(2,3) p show ?thesis
    by (auto simp: flow_table_update_def Let_def)
qed

lemma update_miss:
  assumes "valid (flows t)" and "map_of (entries_of t) (fu_key u) = None"
    and "flow_table_update api t u = (t', s)"
  shows "s = stats_first u \<and> entries_of t' = add_front (cap (flows t)) (fu_key u) s (entries_of t) \<and>
    valid (flows t') \<and> cap (flows t') = cap (flows t) \<and>
    t' = t\<lparr>flows := flows t',
      evicted := evicted t + (if length (entries_of t) < cap (flows t) then 0 else 1)\<rparr>"
proof -
  have new: "fu_key u \<notin> fst ` set (entries_of t)"
    using assms(2) by (simp add: map_of_eq_None_iff)
  then have none: "lru_get_mut api (flows t) (fu_key u) = None"
    using get_mut_None [OF assms(1)] by simp
  obtain c out where p: "lru_push api (flows t) (fu_key u) (stats_first u) = (c, out)" by force
  from push_new [OF assms(1) new p] assms(3) p none show ?thesis
    by (auto simp: flow_table_update_def Let_def)
qed

lemma update_frame:
  assumes "valid (flows t)" and "flow_table_update api t u = (t', s)"
  shows "valid (flows t') \<and> cap (flows t') = cap (flows t) \<and>
    idle_timeout_us t' = idle_timeout_us t \<and> expired t' = expired t"
proof (cases "map_of (entries_of t) (fu_key u)")
  case None
  from update_miss [OF assms(1) None assms(2)] show ?thesis
    by (metis flow_table.select_convs(2,4) flow_table.surjective flow_table.update_convs(1,3))
next
  case (Some s0)
  from update_hit [OF assms(1) Some assms(2)] show ?thesis
    by (metis flow_table.select_convs(2,4) flow_table.surjective flow_table.update_convs(1))
qed

lemma expire_loop_exact:
  assumes "valid c" and "length (lru_iter api c) < fuel"
    and "expire_loop api timeout now fuel c removed = (c', r)"
  shows "valid c' \<and> cap c' = cap c \<and>
    lru_iter api c' =
      rev (dropWhile (\<lambda>(_, s). last_seen_us s + timeout \<le> now) (rev (lru_iter api c))) \<and>
    r = removed + length (takeWhile (\<lambda>(_, s). last_seen_us s + timeout \<le> now) (rev (lru_iter api c)))"
  using assms
proof (induction fuel arbitrary: c removed)
  case (Suc fuel)
  show ?case
  proof (cases "lru_iter api c" rule: rev_cases)
    case Nil
    with Suc.prems show ?thesis by (simp add: peek_lru last_opt_def)
  next
    case (snoc es e)
    obtain k s where e: "e = (k, s)" by force
    have peek: "lru_peek_lru api c = Some (k, s)"
      using Suc.prems(1) snoc e by (simp add: peek_lru last_opt_def)
    obtain c1 out where pop: "lru_pop_lru api c = (c1, out)" by force
    from pop_lru [OF Suc.prems(1) pop] snoc
    have c1: "valid c1" "cap c1 = cap c" "lru_iter api c1 = es" by auto
    show ?thesis
    proof (cases "last_seen_us s + timeout > now")
      case True
      with Suc.prems peek snoc e show ?thesis by (simp add: not_le)
    next
      case False
      with Suc.prems peek pop
      have "expire_loop api timeout now fuel c1 (removed + 1) = (c', r)" by simp
      from Suc.IH [OF c1(1) _ this] c1 Suc.prems(2) snoc e False show ?thesis
        by (simp add: not_less)
    qed
  qed
qed simp

lemma expire_exact:
  assumes "valid (flows t)" and "flow_expire api t now = (t', r)"
  shows "valid (flows t') \<and> cap (flows t') = cap (flows t) \<and>
    entries_of t' =
      rev (dropWhile (\<lambda>(_, s). last_seen_us s + idle_timeout_us t \<le> now) (rev (entries_of t))) \<and>
    r = length (takeWhile (\<lambda>(_, s). last_seen_us s + idle_timeout_us t \<le> now) (rev (entries_of t))) \<and>
    idle_timeout_us t' = idle_timeout_us t \<and> evicted t' = evicted t \<and>
    expired t' = expired t + of_nat r"
proof -
  obtain c r0 where loop: "expire_loop api (idle_timeout_us t) now (Suc (lru_len api (flows t))) (flows t) 0 = (c, r0)"
    by force
  from expire_loop_exact [OF assms(1) _ this] assms loop show ?thesis
    by (auto simp: flow_expire_def len)
qed

end

lemma map_sort_key: "map f (sort_key f xs) = sort (map f xs)"
  by (rule properties_for_sort [symmetric]) simp_all

lemma rank_ord: "rank e < rank e' \<longleftrightarrow>
    total_bytes (snd e) < total_bytes (snd e') \<or>
    total_bytes (snd e) = total_bytes (snd e') \<and> fst e < fst e'"
  by (auto simp: rank_def)

text \<open>The order of the result: more bytes first, then the smaller key.\<close>

definition top_order :: "flow_key \<times> flow_stats \<Rightarrow> flow_key \<times> flow_stats \<Rightarrow> bool" where
  "top_order x y \<longleftrightarrow>
     total_bytes (snd x) > total_bytes (snd y) \<or>
     total_bytes (snd x) = total_bytes (snd y) \<and> fst x < fst y"


lemma top_order_iff:
  "fst x \<noteq> fst y \<Longrightarrow>
   (- int (unat (total_bytes (snd x))), fst x) \<le> (- int (unat (total_bytes (snd y))), fst y) \<longleftrightarrow>
   top_order x y"
  by (auto simp: top_order_def word_less_def word_uint_eq_iff)

lemma sorted_wrt_top_order:
  "sorted (map (\<lambda>(k, s). (- int (unat (total_bytes s)), k)) ys) \<Longrightarrow> distinct (map fst ys) \<Longrightarrow>
   sorted_wrt top_order ys"
proof (induction ys)
  case (Cons x ys)
  have "top_order x y" if "y \<in> set ys" for y
  proof -
    have "fst x \<noteq> fst y" using Cons.prems(2) that by auto
    moreover have "(- int (unat (total_bytes (snd x))), fst x) \<le> (- int (unat (total_bytes (snd y))), fst y)"
      using Cons.prems(1) that by (auto simp: case_prod_unfold)
    ultimately show ?thesis using top_order_iff [of x y] by blast
  qed
  with Cons show ?case by simp
qed simp

context flow_cache
begin

lemma top_by_bytes_sort:
  assumes v: "valid (flows t)" and n: "n \<noteq> 0"
  shows "top_by_bytes api t n =
    sort_key (\<lambda>(k, s). (- int (unat (total_bytes s)), k))
      (drop (length (entries_of t) - n) (sort_key rank (entries_of t)))"
proof -
  let ?es = "entries_of t"
  let ?es' = "drop (length ?es - n) (sort_key rank ?es)"
  have "foldl (\<lambda>h e. heap_step n h (rank e)) [] ?es = foldl (heap_step n) [] (map rank ?es)"
    by (simp add: foldl_map)
  also have "\<dots> = map rank ?es'"
    by (simp add: heap_fold map_sort_key [symmetric] drop_map)
  finally have heap: "foldl (\<lambda>h e. heap_step n h (rank e)) [] ?es = map rank ?es'" .
  have "map_of ?es (fst e) = Some (snd e)" if "e \<in> set ?es'" for e
  proof -
    from that have "e \<in> set ?es" by (auto dest: in_set_dropD)
    then show ?thesis using distinct_keys [OF v] by (cases e) auto
  qed
  then have "List.map_filter (\<lambda>(_, key). map_option (\<lambda>s. (key, s)) (lru_peek api (flows t) key)) (map rank ?es') = ?es'"
    by (auto simp: List.map_filter_def peek [OF v] rank_def filter_id_conv intro!: map_idI)
  then show ?thesis
    using n heap by (simp add: top_by_bytes_def)
qed

lemma top_by_bytes_greatest:
  fixes n :: nat
  assumes v: "valid (flows t)"
  defines "best \<equiv> top_by_bytes api t n"
  shows "length best = min n (length (entries_of t)) \<and> set best \<subseteq> set (entries_of t) \<and>
    distinct (map fst best) \<and> sorted_wrt top_order best \<and>
    (\<forall>e \<in> set best. \<forall>e' \<in> set (entries_of t) - set best. rank e' < rank e)"
proof (cases "n = 0")
  case True
  then show ?thesis by (simp add: best_def top_by_bytes_def)
next
  case False
  let ?es = "sort_key rank (entries_of t)"
  let ?d = "length (entries_of t) - n"
  have dist: "distinct (map fst ?es)"
    using distinct_keys [OF v] by (simp add: distinct_map)
  then have "distinct (map rank ?es)"
    by (auto simp: distinct_map inj_on_def rank_def)
  moreover have "sorted (map rank ?es)" by simp
  ultimately have "sorted_wrt (<) (map rank (take ?d ?es @ drop ?d ?es))"
    by (simp add: strict_sorted_iff)
  then have low: "rank e' < rank e" if "e' \<in> set (take ?d ?es)" "e \<in> set (drop ?d ?es)" for e e'
    using that unfolding map_append sorted_wrt_append by auto
  have best: "best = sort_key (\<lambda>(k, s). (- int (unat (total_bytes s)), k)) (drop ?d ?es)"
    using False v by (simp add: best_def top_by_bytes_sort)
  have "distinct (map fst (drop ?d ?es))"
    using dist by (simp add: drop_map [symmetric])
  then have dt: "distinct (map fst best)"
    by (simp add: best distinct_map)
  have un: "set (entries_of t) = set (take ?d ?es) \<union> set (drop ?d ?es)"
    by (metis append_take_drop_id set_append set_sort)
  show ?thesis
  proof (intro conjI ballI)
    show "sorted_wrt top_order best"
      using dt by (intro sorted_wrt_top_order) (simp_all add: best)
    show "rank e' < rank e" if "e \<in> set best" "e' \<in> set (entries_of t) - set best" for e e'
      using that un low [of e' e] by (auto simp: best)
    show "length best = min n (length (entries_of t))" by (simp add: best)
    show "set best \<subseteq> set (entries_of t)" using un by (simp add: best)
    show "distinct (map fst best)" by (rule dt)
  qed
qed

end

section \<open>What the table holds: a summary of the packets\<close>

text \<open>
  The abstract contents: per key, the first and the latest time stamp, and per direction the
  number of packets and bytes (modulo \<open>2^64\<close>, as the counters are), and every TCP flag seen.
\<close>

definition dir_count :: "direction \<Rightarrow> flow_update list \<Rightarrow> u64" where
  "dir_count d us = of_nat (length (filter (\<lambda>u. fu_direction u = d) us))"

definition dir_bytes :: "direction \<Rightarrow> flow_update list \<Rightarrow> u64" where
  "dir_bytes d us = sum_list (map (\<lambda>u. ucast (fu_bytes u)) (filter (\<lambda>u. fu_direction u = d) us))"

definition summarise :: "flow_update list \<Rightarrow> flow_stats" where
  "summarise us =
     \<lparr>first_seen_us = fu_ts_us (hd us), last_seen_us = Max (set (map fu_ts_us us)),
      fs_packets = (dir_count AtoB us, dir_count BtoA us),
      fs_bytes = (dir_bytes AtoB us, dir_bytes BtoA us),
      fs_tcp_flags = foldl (\<lambda>f u. f OR fu_tcp_flags u) 0 us\<rparr>"

definition flow_summary :: "flow_update list \<Rightarrow> flow_key \<Rightarrow> flow_stats option" where
  "flow_summary us k =
     (let mine = filter (\<lambda>u. fu_key u = k) us in if mine = [] then None else Some (summarise mine))"

lemma summarise_first: "summarise [u] = stats_first u"
  by (cases "fu_direction u") (simp_all add: summarise_def stats_first_def dir_count_def dir_bytes_def)

lemma summarise_bump: "us \<noteq> [] \<Longrightarrow> summarise (us @ [u]) = stats_bump u (summarise us)"
  by (cases "fu_direction u")
    (simp_all add: summarise_def stats_bump_def dir_count_def dir_bytes_def max.commute add.commute)

lemma flow_summary_snoc:
  "flow_summary (us @ [u]) k =
   (if fu_key u = k
    then Some (case flow_summary us k of None \<Rightarrow> stats_first u | Some s \<Rightarrow> stats_bump u s)
    else flow_summary us k)"
  by (simp add: flow_summary_def Let_def summarise_first summarise_bump)

lemma dom_flow_summary: "dom (flow_summary us) = fu_key ` set us"
  by (auto simp: flow_summary_def Let_def dom_def filter_empty_conv split: if_splits)

definition flow_run :: "('c, flow_key, flow_stats) lru_api \<Rightarrow> 'c flow_table \<Rightarrow> flow_update list \<Rightarrow> 'c flow_table" where
  "flow_run L t us = foldl (\<lambda>t u. fst (flow_table_update L t u)) t us"

text \<open>The invariant of the entries: a flow was not last seen before it was first seen.\<close>

definition stats_ok :: "flow_stats \<Rightarrow> bool" where
  "stats_ok s \<longleftrightarrow> first_seen_us s \<le> last_seen_us s"

lemma stats_ok_first [simp]: "stats_ok (stats_first u)"
  by (simp add: stats_ok_def stats_first_def)

lemma stats_ok_bump [simp]: "stats_ok s \<Longrightarrow> stats_ok (stats_bump u s)"
  by (auto simp: stats_ok_def stats_bump_def max_def)

definition entries_ok :: "('c, flow_key, flow_stats) lru_api \<Rightarrow> 'c flow_table \<Rightarrow> bool" where
  "entries_ok L t \<longleftrightarrow> (\<forall>e \<in> set (flow_iter L t). stats_ok (snd e))"

text \<open>Every flow ever created is in the table, evicted, or expired.\<close>

definition created_flows :: "('c, flow_key, flow_stats) lru_api \<Rightarrow> 'c flow_table \<Rightarrow> u64" where
  "created_flows L t = of_nat (length (flow_iter L t)) + evicted t + expired t"

context flow_cache
begin

lemma new_ok: "0 < n \<Longrightarrow> valid (flows (flow_table_new api n timeout)) \<and> entries_ok api (flow_table_new api n timeout)"
  using new [of n] by (simp add: entries_ok_def flow_iter_def flow_table_new_def)

lemma update_ok:
  assumes v: "valid (flows t)" and ok: "entries_ok api t" and u: "flow_table_update api t u = (t', s)"
  shows "entries_ok api t' \<and> stats_ok s"
proof (cases "map_of (entries_of t) (fu_key u)")
  case None
  from update_miss [OF v None u] ok show ?thesis
    by (auto simp: entries_ok_def flow_iter_def add_front_def dest: in_set_butlastD)
next
  case (Some s0)
  then have "stats_ok s0" using ok by (force simp: entries_ok_def flow_iter_def dest: map_of_SomeD)
  with update_hit [OF v Some u] ok show ?thesis
    by (auto simp: entries_ok_def flow_iter_def set_touch)
qed

lemma expire_ok:
  assumes "valid (flows t)" and "entries_ok api t" and "flow_expire api t now = (t', r)"
  shows "entries_ok api t'"
  using expire_exact [OF assms(1,3)] assms(2)
  by (auto simp: entries_ok_def flow_iter_def dest!: set_dropWhileD)

lemma update_account:
  assumes v: "valid (flows t)" and u: "flow_table_update api t u = (t', s)"
  shows "created_flows api t' =
    created_flows api t + (if map_of (entries_of t) (fu_key u) = None then 1 else 0)"
proof (cases "map_of (entries_of t) (fu_key u)")
  case None
  from update_miss [OF v None u]
  have t': "t' = t\<lparr>flows := flows t', evicted := evicted t + (if length (entries_of t) < cap (flows t) then 0 else 1)\<rparr>"
    and len: "length (entries_of t') =
      (if length (entries_of t) < cap (flows t) then Suc (length (entries_of t)) else length (entries_of t))"
    using length_add_front [OF cap_pos [OF v] within_cap [OF v]] within_cap [OF v] by auto
  have "evicted t' = evicted t + (if length (entries_of t) < cap (flows t) then 0 else 1)"
    "expired t' = expired t" by (subst t', simp)+
  with len None show ?thesis by (simp add: created_flows_def flow_iter_def)
next
  case (Some s0)
  then have "fu_key u \<in> fst ` set (entries_of t)"
    by (auto dest!: map_of_SomeD intro: rev_image_eqI)
  moreover from update_hit [OF v Some u] have t': "t' = t\<lparr>flows := flows t'\<rparr>"
    and "entries_of t' = touch (fu_key u) s (entries_of t)" by auto
  ultimately have "length (entries_of t') = length (entries_of t)"
    using distinct_keys [OF v] by (simp add: length_touch)
  moreover have "evicted t' = evicted t" "expired t' = expired t" by (subst t', simp)+
  ultimately show ?thesis using Some by (simp add: created_flows_def flow_iter_def)
qed

lemma expire_account:
  assumes "valid (flows t)" and "flow_expire api t now = (t', r)"
  shows "created_flows api t' = created_flows api t"
proof -
  let ?P = "\<lambda>(_, s). last_seen_us s + idle_timeout_us t \<le> now"
  let ?es = "rev (entries_of t)"
  have "length ?es = length (takeWhile ?P ?es) + length (dropWhile ?P ?es)"
    by (metis length_append takeWhile_dropWhile_id)
  with expire_exact [OF assms] show ?thesis by (simp add: created_flows_def flow_iter_def)
qed

lemma run_summary:
  assumes n: "0 < n" and few: "card (fu_key ` set us) \<le> n"
  shows "valid (flows (flow_run api (flow_table_new api n timeout) us)) \<and>
    cap (flows (flow_run api (flow_table_new api n timeout) us)) = n \<and>
    map_of (entries_of (flow_run api (flow_table_new api n timeout) us)) = flow_summary us \<and>
    evicted (flow_run api (flow_table_new api n timeout) us) = 0"
  using few
proof (induction us rule: rev_induct)
  case Nil
  then show ?case using new [OF n] by (simp add: flow_run_def flow_table_new_def flow_summary_def fun_eq_iff)
next
  case (snoc u us)
  let ?t = "flow_run api (flow_table_new api n timeout) us"
  obtain t' s where u: "flow_table_update api ?t u = (t', s)" by force
  then have run: "flow_run api (flow_table_new api n timeout) (us @ [u]) = t'"
    by (simp add: flow_run_def)
  have "card (fu_key ` set us) \<le> card (fu_key ` set (us @ [u]))" by (rule card_mono) auto
  with snoc have v: "valid (flows ?t)" and cap: "cap (flows ?t) = n" and
    m: "map_of (entries_of ?t) = flow_summary us" and ev: "evicted ?t = 0" by auto
  show ?case
  proof (cases "map_of (entries_of ?t) (fu_key u)")
    case None
    have keys: "fst ` set (entries_of ?t) = fu_key ` set us"
      using m dom_flow_summary [of us] by (simp add: dom_map_of_conv_image_fst [symmetric])
    have "fu_key u \<notin> fu_key ` set us"
      using None m by (simp add: domIff flip: dom_flow_summary)
    then have "Suc (card (fu_key ` set us)) \<le> n"
      using snoc.prems by simp
    moreover have "length (entries_of ?t) = card (fu_key ` set us)"
      using distinct_card [OF distinct_keys [OF v]] keys by simp
    ultimately have room: "length (entries_of ?t) < n" by simp
    with update_miss [OF v None u] cap have t': "t' = ?t\<lparr>flows := flows t'\<rparr>" and
      es: "entries_of t' = (fu_key u, s) # entries_of ?t" "s = stats_first u"
      "valid (flows t')" "cap (flows t') = n"
      by (auto simp: add_front_def)
    have "evicted t' = 0" using ev by (subst t') simp
    with es None m show ?thesis unfolding run by (auto simp: flow_summary_snoc fun_eq_iff)
  next
    case (Some s0)
    from update_hit [OF v Some u] have t': "t' = ?t\<lparr>flows := flows t'\<rparr>" and
      es: "entries_of t' = touch (fu_key u) s (entries_of ?t)" "s = stats_bump u s0"
      "valid (flows t')" "cap (flows t') = n" using cap by auto
    have "evicted t' = 0" using ev by (subst t') simp
    with es Some m show ?thesis unfolding run by (auto simp: flow_summary_snoc fun_eq_iff)
  qed
qed

end

interpretation list_flows: flow_cache list_lru_api ll_cap ll_valid
  by unfold_locales

section \<open>Expiry when packets come in order\<close>

definition idle_at :: "u64 \<Rightarrow> u64 \<Rightarrow> flow_key \<times> flow_stats \<Rightarrow> bool" where
  "idle_at timeout now e \<longleftrightarrow> unat (last_seen_us (snd e)) + unat timeout \<le> unat now"

definition recency :: "(flow_key \<times> flow_stats) list \<Rightarrow> bool" where
  "recency es \<longleftrightarrow> sorted_wrt (\<lambda>x y. last_seen_us (snd x) \<ge> last_seen_us (snd y)) es"

lemma dropWhile_filter_sorted:
  "sorted_wrt R ys \<Longrightarrow> (\<And>x y. R x y \<Longrightarrow> P y \<Longrightarrow> P x) \<Longrightarrow> dropWhile P ys = filter (\<lambda>y. \<not> P y) ys"
proof (induction ys)
  case (Cons y ys)
  show ?case
  proof (cases "P y")
    case False
    then have "\<forall>z\<in>set ys. \<not> P z" using Cons.prems by auto
    then have "filter (\<lambda>y. \<not> P y) ys = ys" by (simp add: filter_id_conv)
    with False show ?thesis by simp
  qed (use Cons in simp)
qed simp

lemma recency_rev_dropWhile:
  assumes "recency es"
  shows "rev (dropWhile (idle_at timeout now) (rev es)) = filter (\<lambda>e. \<not> idle_at timeout now e) es"
proof -
  have "sorted_wrt (\<lambda>x y. last_seen_us (snd x) \<le> last_seen_us (snd y)) (rev es)"
    using assms by (simp add: recency_def sorted_wrt_rev)
  then have "dropWhile (idle_at timeout now) (rev es) = filter (\<lambda>e. \<not> idle_at timeout now e) (rev es)"
    by (rule dropWhile_filter_sorted) (auto simp: idle_at_def word_le_nat_alt)
  then show ?thesis by (simp add: rev_filter)
qed

lemma recency_touch:
  "recency es \<Longrightarrow> \<forall>e \<in> set es. last_seen_us (snd e) \<le> last_seen_us s \<Longrightarrow> recency (touch k s es)"
  by (auto simp: recency_def touch_def AList.delete_eq intro: sorted_wrt_filter)

lemma recency_add_front:
  "recency es \<Longrightarrow> \<forall>e \<in> set es. last_seen_us (snd e) \<le> last_seen_us s \<Longrightarrow> recency (add_front n k s es)"
  by (auto simp: recency_def add_front_def butlast_conv_take intro: sorted_wrt_take dest: in_set_takeD)

context flow_cache
begin

lemma update_recency:
  assumes v: "valid (flows t)" and r: "recency (entries_of t)"
    and late: "\<forall>e \<in> set (entries_of t). last_seen_us (snd e) \<le> fu_ts_us u"
    and u: "flow_table_update api t u = (t', s)"
  shows "recency (entries_of t') \<and> last_seen_us s = fu_ts_us u \<and>
    (\<forall>e \<in> set (entries_of t'). last_seen_us (snd e) \<le> fu_ts_us u)"
proof (cases "map_of (entries_of t) (fu_key u)")
  case None
  from update_miss [OF v None u] have es: "entries_of t' = add_front (cap (flows t)) (fu_key u) s (entries_of t)"
    and s: "last_seen_us s = fu_ts_us u" by (auto simp: stats_first_def)
  have "recency (entries_of t')"
    unfolding es using r late by (intro recency_add_front) (simp_all add: s)
  moreover have "\<forall>e \<in> set (entries_of t'). last_seen_us (snd e) \<le> fu_ts_us u"
    using late s unfolding es by (auto simp: add_front_def dest: in_set_butlastD)
  ultimately show ?thesis using s by blast
next
  case (Some s0)
  then have "last_seen_us s0 \<le> fu_ts_us u" using late by (force dest: map_of_SomeD)
  with update_hit [OF v Some u] have es: "entries_of t' = touch (fu_key u) s (entries_of t)"
    and s: "last_seen_us s = fu_ts_us u" by (auto simp: stats_bump_def max_def)
  have "recency (entries_of t')"
    unfolding es using r late by (intro recency_touch) (simp_all add: s)
  moreover have "\<forall>e \<in> set (entries_of t'). last_seen_us (snd e) \<le> fu_ts_us u"
    using late s unfolding es by (auto simp: set_touch)
  ultimately show ?thesis using s by blast
qed

lemma expire_in_order:
  assumes v: "valid (flows t)" and r: "recency (entries_of t)"
    and small: "\<forall>e \<in> set (entries_of t). unat (last_seen_us (snd e)) + unat (idle_timeout_us t) < 2 ^ 64"
    and x: "flow_expire api t now = (t', n)"
  shows "entries_of t' = filter (\<lambda>e. \<not> idle_at (idle_timeout_us t) now e) (entries_of t)"
proof -
  have eq: "(case e of (_, s) \<Rightarrow> last_seen_us s + idle_timeout_us t \<le> now) = idle_at (idle_timeout_us t) now e"
    if "e \<in> set (rev (entries_of t))" for e
    using small that by (auto simp: idle_at_def word_le_nat_alt unat_add_no_overflow split: prod.splits)
  have "dropWhile (\<lambda>(_, s). last_seen_us s + idle_timeout_us t \<le> now) (rev (entries_of t)) =
      dropWhile (idle_at (idle_timeout_us t) now) (rev (entries_of t))"
    by (rule dropWhile_cong [OF refl]) (use eq in auto)
  with expire_exact [OF v x] recency_rev_dropWhile [OF r] show ?thesis by simp
qed

end

section \<open>Properties\<close>

text \<open>Both directions of a conversation share one flow, and no other packet does: two packets
  have the same canonical key exactly when the protocol is the same and the end points are, in
  either order; swapping the end points flips the direction (unless they are the same).\<close>

theorem canonical_conversation:
  "(fst (canonical s d p) = fst (canonical s' d' p') \<longleftrightarrow>
    p = p' \<and> (s = s' \<and> d = d' \<or> s = d' \<and> d = s')) \<and>
   snd (canonical d s p) = (if s = d then snd (canonical s d p) else flip (snd (canonical s d p)))"
  by (simp only: canonical_eq_iff canonical_swap [of d s p] snd_conv simp_thms)

text \<open>C2. The table is a summary of the packets: after any sequence of updates with at most as
  many keys as the capacity, looking a key up gives the first and the latest time, the packets
  and bytes of each direction and the union of the TCP flags of exactly the updates of that key,
  and nothing was evicted.\<close>

theorem flow_table_summarises:
  assumes "flow_cache L cap valid" and "0 < n" and "card (fu_key ` set us) \<le> n"
  shows "flow_get L (flow_run L (flow_table_new L n timeout) us) k = flow_summary us k \<and>
    evicted (flow_run L (flow_table_new L n timeout) us) = 0"
  using flow_cache.run_summary [OF assms, of timeout]
    lru.peek [OF flow_cache.axioms [OF assms(1)]]
  by (simp add: flow_get_def)

definition sample_update :: "u16 \<Rightarrow> u64 \<Rightarrow> flow_update" where
  "sample_update port ts =
     (let (k, d) = canonical (Endpoint (V4 [10, 0, 0, 2]) port) (Endpoint (V4 [10, 0, 0, 1]) 53) 17
      in \<lparr>fu_key = k, fu_direction = d, fu_ts_us = ts, fu_bytes = 60, fu_tcp_flags = 0\<rparr>)"

definition sample_table :: "(flow_key, flow_stats) list_lru flow_table" where
  "sample_table =
     flow_run list_lru_api (flow_table_new list_lru_api 8 60) [sample_update 1000 5, sample_update 2000 6]"

lemma sample_table_eq:
  "sample_table =
     \<lparr>flows = \<lparr>ll_cap = 8, ll_entries =
        [(fu_key (sample_update 2000 6), stats_first (sample_update 2000 6)),
         (fu_key (sample_update 1000 5), stats_first (sample_update 1000 5))]\<rparr>,
      idle_timeout_us = 60, evicted = 0, expired = 0\<rparr>"
  by (simp add: sample_table_def flow_run_def flow_table_new_def flow_table_update_def list_lru_api_def
      ll_put_def add_front_def sample_update_def canonical_def less_eq_endpoint_def less_ip_addr_def
      Let_def)

lemma sample_table_valid: "ll_valid (flows sample_table)" "flow_iter list_lru_api sample_table = ll_entries (flows sample_table)"
  by (simp_all add: sample_table_eq ll_valid_def flow_iter_def list_lru_api_def sample_update_def
      canonical_def less_eq_endpoint_def less_ip_addr_def)

lemma flow_table_summarises_witness:
  "map_option fs_packets (flow_get list_lru_api
     (flow_run list_lru_api (flow_table_new list_lru_api 2 60)
        [sample_update 1000 5, sample_update 2000 6, sample_update 1000 9])
     (fu_key (sample_update 1000 0))) = Some (0, 2)"
proof -
  have c: "card (fu_key ` set [sample_update 1000 5, sample_update 2000 6, sample_update 1000 9]) \<le> 2"
    by (simp add: sample_update_def canonical_def less_eq_endpoint_def less_ip_addr_def insert_commute)
  show ?thesis
    using flow_table_summarises [OF list_flows.flow_cache_axioms _ c, of 60 "fu_key (sample_update 1000 0)"]
    by (simp add: flow_summary_def summarise_def dir_count_def Let_def sample_update_def canonical_def
        less_eq_endpoint_def less_ip_addr_def)
qed

text \<open>C11. \<open>top_by_bytes n\<close> is right: it returns \<open>n\<close> distinct flows of the table (all of them when
  there are fewer), in descending order of total bytes with ties by ascending key, and every flow
  it leaves out has fewer bytes than each returned one, or as many and a smaller key.\<close>

theorem top_by_bytes_correct:
  assumes "flow_cache L cap valid" and "valid (flows t)"
  shows "length (top_by_bytes L t n) = min n (length (flow_iter L t)) \<and>
    set (top_by_bytes L t n) \<subseteq> set (flow_iter L t) \<and> distinct (map fst (top_by_bytes L t n)) \<and>
    sorted_wrt top_order (top_by_bytes L t n) \<and>
    (\<forall>e \<in> set (top_by_bytes L t n). \<forall>e' \<in> set (flow_iter L t) - set (top_by_bytes L t n).
       rank e' < rank e)"
  unfolding flow_iter_def by (rule flow_cache.top_by_bytes_greatest [OF assms])

lemma top_by_bytes_correct_witness: "length (top_by_bytes list_lru_api sample_table 1) = 1"
  using top_by_bytes_correct [OF list_flows.flow_cache_axioms sample_table_valid(1), of 1]
  by (simp add: sample_table_valid(2)) (simp add: sample_table_eq)

text \<open>C19. Expiry removes the longest run of idle flows at the least recently used end, counts
  them, and leaves every other flow where it was.  When packets come in time order (the entries
  are in order of \<open>last_seen_us\<close> and no sum of a time and the timeout wraps) these are exactly
  the flows whose last packet is at least the timeout ago.\<close>

theorem expire_correct:
  assumes "flow_cache L cap valid" and "valid (flows t)" and "flow_expire L t now = (t', n)"
  shows "flow_iter L t' =
      rev (dropWhile (\<lambda>(_, s). last_seen_us s + idle_timeout_us t \<le> now) (rev (flow_iter L t))) \<and>
    length (flow_iter L t) = length (flow_iter L t') + n \<and> expired t' = expired t + of_nat n \<and>
    (recency (flow_iter L t) \<longrightarrow>
     (\<forall>e \<in> set (flow_iter L t). unat (last_seen_us (snd e)) + unat (idle_timeout_us t) < 2 ^ 64) \<longrightarrow>
     flow_iter L t' = filter (\<lambda>e. \<not> idle_at (idle_timeout_us t) now e) (flow_iter L t))"
proof -
  let ?P = "\<lambda>(_, s). last_seen_us s + idle_timeout_us t \<le> now"
  have "length (rev (flow_iter L t)) =
      length (takeWhile ?P (rev (flow_iter L t))) + length (dropWhile ?P (rev (flow_iter L t)))"
    by (metis length_append takeWhile_dropWhile_id)
  then show ?thesis
    using flow_cache.expire_exact [OF assms] flow_cache.expire_in_order [OF assms(1,2) _ _ assms(3)]
    by (simp add: flow_iter_def)
qed

lemma sample_expire: "flow_expire list_lru_api sample_table 65 =
    (sample_table\<lparr>flows := \<lparr>ll_cap = 8, ll_entries = [(fu_key (sample_update 2000 6), stats_first (sample_update 2000 6))]\<rparr>,
       expired := 1\<rparr>, 1)"
  by (simp add: sample_table_eq flow_expire_def list_lru_api_def last_opt_def stats_first_def sample_update_def
      canonical_def less_eq_endpoint_def less_ip_addr_def)

lemma expire_correct_witness:
  "length (flow_iter list_lru_api (fst (flow_expire list_lru_api sample_table 65))) = 1"
  using expire_correct [OF list_flows.flow_cache_axioms sample_table_valid(1) sample_expire]
  by (simp add: sample_table_valid(2) sample_expire) (simp add: sample_table_eq)

text \<open>C20. No flow is lost: an update adds one to the flows in the table, evicted or expired
  exactly when the key was not there, an expiry pass leaves that total alone, and the table stays
  within its capacity with \<open>first_seen_us \<le> last_seen_us\<close> for every flow, so \<open>duration_us\<close> never
  underflows.\<close>

theorem flow_table_account:
  assumes "flow_cache L cap valid" and "valid (flows t)" and "entries_ok L t"
    and "flow_table_update L t u = (t1, s)" and "flow_expire L t1 now = (t2, n)"
  shows "created_flows L t1 = created_flows L t + (if flow_get L t (fu_key u) = None then 1 else 0) \<and>
    created_flows L t2 = created_flows L t1 \<and>
    entries_ok L t2 \<and> length (flow_iter L t2) \<le> cap (flows t) \<and>
    unat (duration_us s) = unat (last_seen_us s) - unat (first_seen_us s)"
proof -
  have v: "lru L cap valid" by (rule flow_cache.axioms [OF assms(1)])
  have f1: "valid (flows t1)" "cap (flows t1) = cap (flows t)"
    using flow_cache.update_frame [OF assms(1,2,4)] by auto
  have ok1: "entries_ok L t1" "stats_ok s"
    using flow_cache.update_ok [OF assms(1,2,3,4)] by auto
  from flow_cache.expire_exact [OF assms(1) f1(1) assms(5)]
  have "valid (flows t2)" "cap (flows t2) = cap (flows t)" using f1(2) by auto
  then have "length (flow_iter L t2) \<le> cap (flows t)"
    using lru.within_cap [OF v] by (metis flow_iter_def)
  moreover have "unat (duration_us s) = unat (last_seen_us s) - unat (first_seen_us s)"
    using ok1(2) by (simp add: duration_us_def stats_ok_def unat_sub word_le_nat_alt)
  ultimately show ?thesis
    using flow_cache.update_account [OF assms(1,2,4)] flow_cache.expire_account [OF assms(1) f1(1) assms(5)]
      flow_cache.expire_ok [OF assms(1) f1(1) ok1(1) assms(5)] lru.peek [OF v assms(2)]
    by (simp add: flow_get_def)
qed

lemma flow_table_account_witness:
  "created_flows list_lru_api (fst (flow_table_update list_lru_api sample_table (sample_update 1000 7))) = 2"
proof -
  obtain t1 s where u: "flow_table_update list_lru_api sample_table (sample_update 1000 7) = (t1, s)" by force
  obtain t2 n where x: "flow_expire list_lru_api t1 9 = (t2, n)" by force
  have ok: "entries_ok list_lru_api sample_table"
    by (simp add: entries_ok_def sample_table_valid(2)) (simp add: sample_table_eq)
  have "created_flows list_lru_api sample_table = 2"
    by (simp add: created_flows_def sample_table_valid(2)) (simp add: sample_table_eq)
  moreover have "flow_get list_lru_api sample_table (fu_key (sample_update 1000 7)) \<noteq> None"
    by (simp add: flow_get_def sample_table_eq list_lru_api_def sample_update_def canonical_def
        less_eq_endpoint_def less_ip_addr_def)
  ultimately show ?thesis
    using flow_table_account [OF list_flows.flow_cache_axioms sample_table_valid(1) ok u x]
    by (simp add: u)
qed

end
