(* ===== verification/Dns.thy ===== *)
theory Dns
  imports Net_Types
begin

text \<open>
  \<open>core/src/packet/dns.rs\<close>: the DNS header, the first question and its name, with compression
  pointers.  \<open>read_name_loop\<close> is the source's \<open>loop\<close>, one unfolding per iteration; that it is
  a total function is the termination of that loop on every message.  The relation
  \<open>decodes\<close> is the specification of an encoded name, and the section's main lemmas say that
  \<open>read_name\<close> accepts exactly the encodings with at most sixteen pointers and a printed name of
  at most 253 characters.
\<close>

section \<open>The code\<close>

definition DNS_PORT :: u16 where "DNS_PORT = 53"
definition DNS_HEADER_LEN :: usize where "DNS_HEADER_LEN = 12"
definition MAX_NAME_LEN :: usize where "MAX_NAME_LEN = 253"
definition MAX_POINTER_JUMPS :: u8 where "MAX_POINTER_JUMPS = 16"
definition LABEL_KIND_MASK :: u8 where "LABEL_KIND_MASK = 0xC0"
definition LABEL_POINTER :: u8 where "LABEL_POINTER = 0xC0"
definition LABEL_LITERAL :: u8 where "LABEL_LITERAL = 0x00"
definition QR_BIT :: u8 where "QR_BIT = 0x80"

lemmas dns_consts = DNS_PORT_def DNS_HEADER_LEN_def MAX_NAME_LEN_def MAX_POINTER_JUMPS_def
  LABEL_KIND_MASK_def LABEL_POINTER_def LABEL_LITERAL_def QR_BIT_def

record dns_question =
  q_name :: string
  q_qtype :: u16

record dns_info =
  dns_id :: u16
  is_response :: bool
  opcode :: u8
  rcode :: u8
  question_count :: u16
  answer_count :: u16
  question :: "dns_question option"

definition is_ascii_graphic :: "u8 \<Rightarrow> bool" where
  "is_ascii_graphic b \<longleftrightarrow> 0x21 \<le> b \<and> b \<le> 0x7E"

definition to_ascii_lowercase :: "u8 \<Rightarrow> u8" where
  "to_ascii_lowercase b = (if 0x41 \<le> b \<and> b \<le> 0x5A then b + 0x20 else b)"

definition printable_lower :: "u8 \<Rightarrow> char" where
  "printable_lower b =
     (if is_ascii_graphic b then char_of (unat (to_ascii_lowercase b)) else CHR ''?'')"

definition dns_truncated :: "usize \<Rightarrow> usize \<Rightarrow> parse_error" where
  "dns_truncated want have = Truncated Dns want have"

definition dns_malformed :: "string \<Rightarrow> parse_error" where
  "dns_malformed reason = Malformed Dns reason"

text \<open>
  The loop's variables are \<open>name\<close>, \<open>pos\<close>, \<open>resume_at\<close> and \<open>jumps\<close>.  The measure: a pointer
  spends one of the sixteen jumps, a label moves \<open>pos\<close> towards the end of the message.
\<close>

definition push_label :: "string \<Rightarrow> bytes \<Rightarrow> string" where
  "push_label name label = (if name \<noteq> [] then name @ ''.'' else name) @ map printable_lower label"

definition pointer_target :: "u8 \<Rightarrow> u8 \<Rightarrow> usize" where
  "pointer_target len_byte low = push_bit 8 (unat (len_byte AND NOT LABEL_KIND_MASK)) OR unat low"

text \<open>The measure of the loop: the pointers that may still be followed.\<close>

definition jumps_left :: "u8 \<Rightarrow> nat" where
  "jumps_left j = (if j = 255 then 18 else 17 - unat j)"

lemma jumps_left_decreases: "\<not> MAX_POINTER_JUMPS < j + 1 \<Longrightarrow> jumps_left (j + 1) < jumps_left j"
proof -
  assume *: "\<not> MAX_POINTER_JUMPS < j + 1"
  have j: "unat j < 256" using unsigned_less [of j] by simp
  have "j = 255 \<longleftrightarrow> unat j = 255" "j + 1 = 255 \<longleftrightarrow> unat (j + 1) = 255"
    by (auto simp: word_unat_eq_iff)
  with * j show ?thesis
    by (auto simp: jumps_left_def dns_consts word_less_nat_alt unat_word_ariths)
qed

function read_name_loop ::
  "bytes \<Rightarrow> string \<Rightarrow> usize \<Rightarrow> usize option \<Rightarrow> u8 \<Rightarrow> (parse_error, string \<times> usize) result" where
  "read_name_loop msg name pos resume_at jumps =
     (case get_opt msg pos of
        None \<Rightarrow> Err (dns_truncated (pos + 1) (length msg))
      | Some len_byte \<Rightarrow>
          if len_byte AND LABEL_KIND_MASK = LABEL_LITERAL \<and> len_byte = 0 then
            Ok (name, case resume_at of None \<Rightarrow> pos + 1 | Some r \<Rightarrow> r)
          else if len_byte AND LABEL_KIND_MASK = LABEL_LITERAL then
            (let len = unat len_byte in
             case get_range msg (pos + 1) (pos + 1 + len) of
               None \<Rightarrow> Err (dns_truncated (pos + 1 + len) (length msg))
             | Some label \<Rightarrow>
                 let name' = push_label name label in
                 if length name' > MAX_NAME_LEN then Err (dns_malformed ''name longer than 253'')
                 else read_name_loop msg name' (pos + 1 + len) resume_at jumps)
          else if len_byte AND LABEL_KIND_MASK = LABEL_POINTER then
            (case get_opt msg (pos + 1) of
               None \<Rightarrow> Err (dns_truncated (pos + 2) (length msg))
             | Some low \<Rightarrow>
                 let resume_at' = (case resume_at of None \<Rightarrow> Some (pos + 2) | Some r \<Rightarrow> Some r);
                     jumps' = jumps + 1 in
                 if jumps' > MAX_POINTER_JUMPS then Err (dns_malformed ''compression pointer loop'')
                 else read_name_loop msg name (pointer_target len_byte low) resume_at' jumps')
          else Err (dns_malformed ''reserved label type''))"
  by pat_completeness auto
termination
  by (relation "measures [\<lambda>(msg, name, pos, r, j). jumps_left j, \<lambda>(msg, name, pos, r, j). length msg - pos]")
    (auto simp: get_opt_def jumps_left_decreases split: if_splits)

declare read_name_loop.simps [simp del]

definition read_name :: "bytes \<Rightarrow> usize \<Rightarrow> (parse_error, string \<times> usize) result" where
  "read_name msg start = read_name_loop msg [] start None 0"

definition dns_parse :: "bytes \<Rightarrow> (parse_error, dns_info) result" where
  "dns_parse msg =
     and_then (need msg DNS_HEADER_LEN Dns) (\<lambda>_.
     and_then (be16 msg 4) (\<lambda>question_count.
     and_then
       (if question_count = 0 then Ok None
        else and_then (read_name msg DNS_HEADER_LEN) (\<lambda>(name, end).
          and_then (need msg (end + 2) Dns) (\<lambda>_.
          and_then (be16 msg end) (\<lambda>qtype. Ok (Some \<lparr>q_name = name, q_qtype = qtype\<rparr>)))))
       (\<lambda>question.
     and_then (be16 msg 0) (\<lambda>id.
     and_then (idx msg 2) (\<lambda>flags_hi.
     and_then (idx msg 3) (\<lambda>flags_lo.
     and_then (be16 msg 6) (\<lambda>answer_count.
       Ok \<lparr>dns_id = id, is_response = (flags_hi AND QR_BIT \<noteq> 0),
           opcode = drop_bit 3 flags_hi AND 0x0F, rcode = flags_lo AND 0x0F,
           question_count = question_count, answer_count = answer_count,
           question = question\<rparr>)))))))"

section \<open>The bits of a label byte\<close>

lemma mask_kind: "LABEL_KIND_MASK = NOT (mask 6)"
  by (simp add: dns_consts mask_eq_exp_minus_1)

lemma kind_bits: "b AND LABEL_KIND_MASK = push_bit 6 (drop_bit 6 b)"
  unfolding mask_kind by (rule bit_word_eqI) (auto simp: bit_simps)

lemma unat_kind: "unat (b AND LABEL_KIND_MASK) = 64 * (unat b div 64)"
proof -
  have "unat b div 64 < 4" using unat_u8 [of b] by linarith
  then show ?thesis
    by (simp only: kind_bits unsigned_push_bit_eq unsigned_drop_bit_eq)
      (simp add: drop_bit_eq_div push_bit_eq_mult take_bit_nat_eq_self)
qed

lemma kind_literal: "b AND LABEL_KIND_MASK = LABEL_LITERAL \<longleftrightarrow> unat b < 64"
proof -
  have "b AND LABEL_KIND_MASK = LABEL_LITERAL \<longleftrightarrow> 64 * (unat b div 64) = 0"
    unfolding word_unat_eq_iff unat_kind by (simp add: dns_consts)
  then show ?thesis by (simp add: div_eq_0_iff)
qed

lemma div64_3: "n < 256 \<Longrightarrow> 64 * (n div 64) = 192 \<longleftrightarrow> 192 \<le> (n::nat)"
proof
  assume "64 * (n div 64) = 192"
  then show "192 \<le> n" using times_div_less_eq_dividend [of 64 n] by linarith
next
  assume "n < 256" "192 \<le> n"
  then have "n div 64 = 3" by (intro div_nat_eqI) auto
  then show "64 * (n div 64) = 192" by simp
qed

lemma kind_pointer: "b AND LABEL_KIND_MASK = LABEL_POINTER \<longleftrightarrow> 192 \<le> unat b"
proof -
  have "b AND LABEL_KIND_MASK = LABEL_POINTER \<longleftrightarrow> 64 * (unat b div 64) = 192"
    unfolding word_unat_eq_iff unat_kind by (simp add: dns_consts)
  then show ?thesis using div64_3 [OF unat_u8] by simp
qed

lemma unat_low_bits: "unat (b AND NOT LABEL_KIND_MASK) = unat b mod 64"
  by (simp add: mask_kind take_bit_eq_mask [symmetric] unsigned_take_bit_eq take_bit_eq_mod unat_mod)

lemma pointer_target_eq: "pointer_target b low = (unat b mod 64) * 256 + unat low"
  by (simp add: pointer_target_def unat_low_bits push_bit_or_low unat_u8)

section \<open>One iteration of the loop\<close>

text \<open>
  The five things an iteration can meet, by the value of the byte at \<open>pos\<close>: the end of the
  message, the root label, a literal label, a pointer, a reserved label type.
\<close>

abbreviation resume_or :: "usize option \<Rightarrow> usize \<Rightarrow> usize" where
  "resume_or r p \<equiv> (case r of None \<Rightarrow> p | Some q \<Rightarrow> q)"

definition label_at :: "bytes \<Rightarrow> usize \<Rightarrow> bytes" where
  "label_at msg pos = take (unat (msg ! pos)) (drop (pos + 1) msg)"

definition target_at :: "bytes \<Rightarrow> usize \<Rightarrow> usize" where
  "target_at msg pos = (unat (msg ! pos) mod 64) * 256 + unat (msg ! (pos + 1))"

lemma loop_at_end:
  "length msg \<le> pos \<Longrightarrow>
   read_name_loop msg name pos r j = Err (dns_truncated (pos + 1) (length msg))"
  by (subst read_name_loop.simps) (simp add: get_opt_def)

lemma loop_at_root:
  "pos < length msg \<Longrightarrow> msg ! pos = 0 \<Longrightarrow>
   read_name_loop msg name pos r j = Ok (name, resume_or r (pos + 1))"
  by (subst read_name_loop.simps) (simp add: get_opt_def dns_consts)

lemma loop_at_label:
  "pos < length msg \<Longrightarrow> 0 < unat (msg ! pos) \<Longrightarrow> unat (msg ! pos) < 64 \<Longrightarrow>
   read_name_loop msg name pos r j =
     (if length msg < pos + 1 + unat (msg ! pos)
      then Err (dns_truncated (pos + 1 + unat (msg ! pos)) (length msg))
      else if 253 < length (push_label name (label_at msg pos))
      then Err (dns_malformed ''name longer than 253'')
      else read_name_loop msg (push_label name (label_at msg pos)) (pos + 1 + unat (msg ! pos)) r j)"
  by (subst read_name_loop.simps)
    (auto simp: get_opt_def get_range_def kind_literal MAX_NAME_LEN_def unat_gt_0 Let_def label_at_def)

lemma loop_at_pointer:
  "pos < length msg \<Longrightarrow> 192 \<le> unat (msg ! pos) \<Longrightarrow>
   read_name_loop msg name pos r j =
     (if length msg \<le> pos + 1 then Err (dns_truncated (pos + 2) (length msg))
      else if MAX_POINTER_JUMPS < j + 1 then Err (dns_malformed ''compression pointer loop'')
      else read_name_loop msg name (target_at msg pos) (Some (resume_or r (pos + 2))) (j + 1))"
  by (subst read_name_loop.simps)
    (auto simp: get_opt_def kind_literal kind_pointer pointer_target_eq Let_def target_at_def split: option.split)

lemma loop_at_reserved:
  "pos < length msg \<Longrightarrow> 64 \<le> unat (msg ! pos) \<Longrightarrow> unat (msg ! pos) < 192 \<Longrightarrow>
   read_name_loop msg name pos r j = Err (dns_malformed ''reserved label type'')"
  by (subst read_name_loop.simps) (auto simp: get_opt_def kind_literal kind_pointer)

lemma byte_kinds:
  fixes msg :: bytes
  obtains "length msg \<le> pos" | "pos < length msg" "msg ! pos = 0"
  | "pos < length msg" "0 < unat (msg ! pos)" "unat (msg ! pos) < 64"
  | "pos < length msg" "192 \<le> unat (msg ! pos)"
  | "pos < length msg" "64 \<le> unat (msg ! pos)" "unat (msg ! pos) < 192"
  by (cases "pos < length msg"; cases "msg ! pos = 0"; cases "unat (msg ! pos) < 64";
      cases "unat (msg ! pos) < 192") (auto simp: unat_gt_0)

text \<open>Induction over the iterations: a hypothesis for the label case and one for the pointer case.\<close>

lemma read_name_loop_induct [case_names iteration]:
  assumes "\<And>name pos r j.
    (pos < length msg \<Longrightarrow> 0 < unat (msg ! pos) \<Longrightarrow> unat (msg ! pos) < 64 \<Longrightarrow>
     pos + 1 + unat (msg ! pos) \<le> length msg \<Longrightarrow>
     length (push_label name (label_at msg pos)) \<le> 253 \<Longrightarrow>
     P (push_label name (label_at msg pos)) (pos + 1 + unat (msg ! pos)) r j) \<Longrightarrow>
    (pos + 1 < length msg \<Longrightarrow> 192 \<le> unat (msg ! pos) \<Longrightarrow> \<not> MAX_POINTER_JUMPS < j + 1 \<Longrightarrow>
     P name (target_at msg pos) (Some (resume_or r (pos + 2))) (j + 1)) \<Longrightarrow>
    P name pos r j"
  shows "P name pos r (j :: u8)"
  using assms
proof (induction msg name pos r j rule: read_name_loop.induct)
  case (1 msg name pos r j)
  show ?case
  proof (rule "1.prems", goal_cases)
    case 1
    then show ?case
      by (intro "1.IH"(1) [OF _ _ _ refl _ refl _ "1.prems"])
        (auto simp: get_opt_def get_range_def kind_literal MAX_NAME_LEN_def label_at_def)
  next
    case 2
    then have "P name (pointer_target (msg ! pos) (msg ! (pos + 1)))
        (case r of None \<Rightarrow> Some (pos + 2) | Some x \<Rightarrow> Some x) (j + 1)"
      by (intro "1.IH"(2) [OF _ _ _ _ _ refl refl _ "1.prems"])
        (auto simp: get_opt_def kind_literal kind_pointer)
    then show ?case by (simp add: pointer_target_eq target_at_def option.case_distrib [of Some])
  qed
qed

section \<open>Specification of an encoded name\<close>

text \<open>
  \<open>decodes msg pos labels end j\<close>: the bytes of \<open>msg\<close> at \<open>pos\<close> encode \<open>labels\<close>, the encoding
  takes \<open>j\<close> pointers, and what follows the name in the message starts at \<open>end\<close> (after the
  first pointer, if there is one).
\<close>

inductive decodes :: "bytes \<Rightarrow> usize \<Rightarrow> bytes list \<Rightarrow> usize \<Rightarrow> nat \<Rightarrow> bool" for msg where
  root: "pos < length msg \<Longrightarrow> msg ! pos = 0 \<Longrightarrow> decodes msg pos [] (pos + 1) 0"
| label: "pos < length msg \<Longrightarrow> 0 < unat (msg ! pos) \<Longrightarrow> unat (msg ! pos) < 64 \<Longrightarrow>
     pos + 1 + unat (msg ! pos) \<le> length msg \<Longrightarrow>
     decodes msg (pos + 1 + unat (msg ! pos)) labels end j \<Longrightarrow>
     decodes msg pos (label_at msg pos # labels) end j"
| pointer: "pos + 1 < length msg \<Longrightarrow> 192 \<le> unat (msg ! pos) \<Longrightarrow>
     decodes msg (target_at msg pos) labels end j \<Longrightarrow> decodes msg pos labels (pos + 2) (Suc j)"

fun push_labels :: "string \<Rightarrow> bytes list \<Rightarrow> string" where
  "push_labels name [] = name"
| "push_labels name (l # ls) = push_labels (push_label name l) ls"

lemma push_label_length: "length name \<le> length (push_label name l)"
  by (simp add: push_label_def)

lemma push_labels_length: "length name \<le> length (push_labels name ls)"
  by (induction ls arbitrary: name) (auto intro: order_trans [OF push_label_length])

lemma jumps_plus_one:
  "unat j \<le> 16 \<Longrightarrow> \<not> MAX_POINTER_JUMPS < j + 1 \<longleftrightarrow> unat j < 16"
  "unat j \<le> 16 \<Longrightarrow> unat (j + 1) = unat j + 1" for j :: u8
  by (auto simp: unat_word_ariths dns_consts word_less_nat_alt)

lemma decodes_read_name_loop:
  "decodes msg pos ls end j \<Longrightarrow> unat jumps + j \<le> 16 \<Longrightarrow> length (push_labels name ls) \<le> 253 \<Longrightarrow>
   read_name_loop msg name pos r jumps = Ok (push_labels name ls, resume_or r end)"
proof (induction arbitrary: name r jumps rule: decodes.induct)
  case (root pos)
  then show ?case by (simp add: loop_at_root)
next
  case (label pos labels "end" j)
  have "length (push_label name (label_at msg pos)) \<le> 253"
    using label.prems(2) push_labels_length [of "push_label name (label_at msg pos)" labels]
    by (simp only: push_labels.simps)
  with label show ?case by (simp add: loop_at_label)
next
  case (pointer pos labels "end" j)
  have "\<not> MAX_POINTER_JUMPS < jumps + 1" "unat (jumps + 1) = unat jumps + 1"
    using pointer.prems jumps_plus_one [of jumps] by auto
  then show ?case
    using pointer.hyps pointer.prems by (simp add: loop_at_pointer pointer.IH)
qed

lemma read_name_loop_decodes:
  "read_name_loop msg name pos r jumps = Ok (nm, e) \<Longrightarrow> unat jumps \<le> 16 \<Longrightarrow> length name \<le> 253 \<Longrightarrow>
   \<exists>ls end j. decodes msg pos ls end j \<and> nm = push_labels name ls \<and> e = resume_or r end \<and>
     unat jumps + j \<le> 16 \<and> length nm \<le> 253"
proof (induction name pos r jumps rule: read_name_loop_induct [where msg = msg])
  case (iteration name pos r jumps)
  note run = iteration.prems(1)
  show ?case
  proof (cases rule: byte_kinds [of msg pos])
    case 2
    then show ?thesis using iteration.prems decodes.root [of pos msg]
      by (intro exI [of _ "[]"] exI [of _ "pos + 1"] exI [of _ 0]) (auto simp: loop_at_root)
  next
    case 3
    let ?name = "push_label name (label_at msg pos)" and ?next = "pos + 1 + unat (msg ! pos)"
    from 3 run have *: "?next \<le> length msg" "length ?name \<le> 253"
        "read_name_loop msg ?name ?next r jumps = Ok (nm, e)"
      by (auto simp: loop_at_label split: if_splits)
    obtain ls "end" j where "decodes msg ?next ls end j" "nm = push_labels ?name ls"
        "e = resume_or r end" "unat jumps + j \<le> 16" "length nm \<le> 253"
      using iteration.IH(1) [OF 3 *(1,2,3)] iteration.prems(2) *(2) by blast
    then show ?thesis using decodes.label [OF 3 *(1)]
      by (intro exI [of _ "label_at msg pos # ls"] exI [of _ "end"] exI [of _ j]) simp
  next
    case 4
    from 4 run have *: "pos + 1 < length msg" "\<not> MAX_POINTER_JUMPS < jumps + 1"
        "read_name_loop msg name (target_at msg pos) (Some (resume_or r (pos + 2))) (jumps + 1) = Ok (nm, e)"
      by (auto simp: loop_at_pointer split: if_splits)
    note jumps = jumps_plus_one [OF iteration.prems(2)]
    from iteration.IH(2) [OF *(1) 4(2) *(2,3)] iteration.prems(3) jumps *(2)
    obtain ls "end" j where "decodes msg (target_at msg pos) ls end j" "nm = push_labels name ls"
        "e = resume_or r (pos + 2)" "unat jumps + 1 + j \<le> 16" "length nm \<le> 253" by auto
    then show ?thesis using decodes.pointer [OF *(1) 4(2)]
      by (intro exI [of _ ls] exI [of _ "pos + 2"] exI [of _ "Suc j"]) simp
  qed (use run in \<open>auto simp: loop_at_end loop_at_reserved\<close>)
qed

theorem read_name_accepts:
  "read_name msg start = Ok (name, end) \<longleftrightarrow>
   (\<exists>labels jumps. decodes msg start labels end jumps \<and> jumps \<le> 16 \<and>
      name = push_labels [] labels \<and> length name \<le> 253)"
proof
  assume "read_name msg start = Ok (name, end)"
  from read_name_loop_decodes [OF this [unfolded read_name_def]]
  show "\<exists>labels jumps. decodes msg start labels end jumps \<and> jumps \<le> 16 \<and>
      name = push_labels [] labels \<and> length name \<le> 253" by auto
qed (auto simp: read_name_def decodes_read_name_loop)

lemma decodes_end: "decodes msg pos ls end j \<Longrightarrow> pos < end \<and> end \<le> length msg"
  by (induction rule: decodes.induct) auto

lemma decodes_labels: "decodes msg pos ls end j \<Longrightarrow> \<forall>l \<in> set ls. 0 < length l \<and> length l < 64"
  by (induction rule: decodes.induct) (auto simp: label_at_def)

lemma decodes_functional:
  "decodes msg pos ls end j \<Longrightarrow> decodes msg pos ls' end' j' \<Longrightarrow> ls' = ls \<and> end' = end \<and> j' = j"
proof (induction arbitrary: ls' end' j' rule: decodes.induct)
  case (root pos)
  from root(3) show ?case by (cases rule: decodes.cases) (use root in simp_all)
next
  case (label pos labels "end" j)
  from label.prems show ?case
  proof (cases rule: decodes.cases)
    case (label labels')
    then show ?thesis using label.IH by blast
  qed (use label.hyps in simp_all)
next
  case (pointer pos labels "end" j)
  from pointer.prems show ?case
  proof (cases rule: decodes.cases)
    case (pointer end'' j'')
    then show ?thesis using pointer.IH by blast
  qed (use pointer.hyps in simp_all)
qed

text \<open>The characters of a printed name: graphic ASCII without upper case.\<close>

definition name_char :: "char \<Rightarrow> bool" where
  "name_char c \<longleftrightarrow> (let n = of_char c in 33 \<le> n \<and> n \<le> 126 \<and> \<not> (65 \<le> n \<and> n \<le> (90::nat)))"

lemma to_ascii_lowercase_range: "33 \<le> unat b \<Longrightarrow> unat b \<le> 126 \<Longrightarrow>
  unat (to_ascii_lowercase b) = (if 65 \<le> unat b \<and> unat b \<le> 90 then unat b + 32 else unat b)"
  by (simp add: to_ascii_lowercase_def word_le_nat_alt unat_word_ariths)
lemma name_char_question: "name_char CHR ''?''" and name_char_dot: "name_char CHR ''.''"
  by (simp_all add: name_char_def)
lemma printable_lower_name_char: "name_char (printable_lower b)"
proof (cases "is_ascii_graphic b")
  case True
  then have "33 \<le> unat b" "unat b \<le> 126"
    by (simp_all add: is_ascii_graphic_def word_le_nat_alt)
  with True to_ascii_lowercase_range [OF this] show ?thesis
    by (simp add: printable_lower_def name_char_def)
qed (simp add: printable_lower_def name_char_question)

lemma push_label_name_chars: "list_all name_char name \<Longrightarrow> list_all name_char (push_label name l)"
  by (auto simp: push_label_def list_all_iff printable_lower_name_char name_char_dot)

lemma push_labels_name_chars:
  "list_all name_char name \<Longrightarrow> list_all name_char (push_labels name ls)"
  by (induction ls arbitrary: name) (auto simp: push_label_name_chars)

lemma read_name_loop_not_panic: "read_name_loop msg name pos r j \<noteq> Panic"
proof (induction name pos r j rule: read_name_loop_induct [where msg = msg])
  case (iteration name pos r j)
  then show ?case
    by (cases rule: byte_kinds [of msg pos])
      (auto simp: loop_at_end loop_at_root loop_at_label loop_at_pointer loop_at_reserved)
qed

lemma read_name_loop_honest:
  "read_name_loop msg name pos r j = Err e \<Longrightarrow> error_honest (length msg) e \<and> error_layer e = Dns"
proof (induction name pos r j rule: read_name_loop_induct [where msg = msg])
  case (iteration name pos r j)
  then show ?case
    by (cases rule: byte_kinds [of msg pos])
      (auto simp: loop_at_end loop_at_root loop_at_label loop_at_pointer loop_at_reserved
        dns_truncated_def dns_malformed_def split: if_splits)
qed

lemma read_name_Ok:
  assumes "read_name msg start = Ok (name, end)"
  shows "start < end" "end \<le> length msg" "length name \<le> 253" "list_all name_char name"
  using assms by (auto simp: read_name_accepts push_labels_name_chars dest: decodes_end)

text \<open>A name that points at itself is refused, whatever was read before it.\<close>

lemma self_pointer_loop:
  assumes "pos + 1 < length msg" "192 \<le> unat (msg ! pos)" "target_at msg pos = pos"
  shows "unat j \<le> 16 \<Longrightarrow>
    read_name_loop msg name pos r j = Err (dns_malformed ''compression pointer loop'')"
proof (induction "16 - unat j" arbitrary: j r)
  case 0
  then have "MAX_POINTER_JUMPS < j + 1" using jumps_plus_one(1) [of j] by simp
  with assms show ?case by (subst loop_at_pointer) auto
next
  case (Suc n)
  then have "n = 16 - unat (j + 1)" "unat (j + 1) \<le> 16" using jumps_plus_one(2) [of j] by auto
  from Suc.hyps(1) [OF this] assms show ?case by (subst loop_at_pointer) auto
qed

lemma dns_parse_not_panic [panic_free]: "dns_parse msg \<noteq> Panic"
  unfolding dns_parse_def read_name_def
  by (intro and_then_no_panic)
    (auto simp: need_iffs DNS_HEADER_LEN_def and_then_iffs read_name_loop_not_panic
      split: prod.splits dest: read_name_Ok(2) [unfolded read_name_def])

lemma dns_parse_honest:
  "dns_parse msg = Err e \<Longrightarrow> error_honest (length msg) e \<and> error_layer e = Dns"
  by (auto simp: dns_parse_def and_then_iffs need_iffs be16_def idx_iffs read_name_def
      split: if_splits prod.splits dest: read_name_loop_honest)

lemma dns_parse_Ok:
  assumes "dns_parse msg = Ok info"
  shows "12 \<le> length msg" "question info = None \<longleftrightarrow> question_count info = 0"
    "\<And>q. question info = Some q \<Longrightarrow> length (q_name q) \<le> 253 \<and> list_all name_char (q_name q)"
  using assms
  by (auto simp: dns_parse_def and_then_iffs need_iffs DNS_HEADER_LEN_def split: if_splits prod.splits
      intro!: read_name_Ok(3,4))

section \<open>Properties\<close>

text \<open>C10. Reading a domain name succeeds on exactly the encodings of RFC 1035 that the limits allow:
  \<open>read_name\<close> returns \<open>name\<close> and the position after it if and only if the message, from \<open>start\<close>,
  holds labels ended by a root label with compression pointers followed at most 16 times, and the
  labels joined by dots are \<open>name\<close>, of at most 253 characters.  It terminates on every message,
  pointer cycles included.\<close>

theorem name_decoding_exact:
  "read_name msg start = Ok (name, pos) \<longleftrightarrow>
   (\<exists>labels jumps. decodes msg start labels pos jumps \<and> jumps \<le> 16 \<and>
      name = push_labels [] labels \<and> length name \<le> 253)"
  by (rule read_name_accepts)

text \<open>A name that points at itself is refused: where a compression pointer leads back to its own
  position, reading from there ends with the error for pointer loops, whatever follows.\<close>

theorem self_pointer_refused:
  assumes "pos + 1 < length msg" and "192 \<le> unat (msg ! pos)" and "target_at msg pos = pos"
  shows "read_name msg pos = Err (dns_malformed ''compression pointer loop'')"
  unfolding read_name_def using self_pointer_loop [OF assms, of 0] by simp

lemma self_pointer_refused_witness:
  "read_name [0xC0, 0x00] 0 = Err (dns_malformed ''compression pointer loop'')"
  using self_pointer_refused [of 0 "[0xC0, 0x00]"] by (simp add: target_at_def)

text \<open>C30. Parsing a DNS message is total and its errors are honest: it never panics; an error belongs
  to the DNS layer and never claims more octets available than there are; a parsed message has a
  question exactly when its question count is not zero, with a name of at most 253 printable
  lower-case characters.\<close>

theorem dns_parse_sound:
  "case dns_parse msg of
     Ok info \<Rightarrow> 12 \<le> length msg \<and> (question info = None \<longleftrightarrow> question_count info = 0) \<and>
       (case question info of None \<Rightarrow> True | Some q \<Rightarrow> length (q_name q) \<le> 253 \<and> list_all name_char (q_name q))
   | Err e \<Rightarrow> error_honest (length msg) e \<and> error_layer e = Dns
   | Panic \<Rightarrow> False"
  using dns_parse_not_panic [of msg] dns_parse_honest [of msg] dns_parse_Ok [of msg]
  by (auto split: result.splits option.splits)

end
