(* ===== verification/Packet.thy ===== *)
theory Packet
  imports Dns
begin

text \<open>
  \<open>core/src/packet/\<close>: the Ethernet, IPv4, IPv6, TCP, UDP and ICMP parsers and the function
  \<open>parse\<close> that runs them on a frame.  Every parser returns a \<open>result\<close>, with \<open>Panic\<close> where an
  index would be out of range; the lemmas of the collection \<open>panic_free\<close> say that no parser
  gets there, whatever the bytes.
\<close>

section \<open>Ethernet\<close>

definition ETHERTYPE_IPV4 :: u16 where "ETHERTYPE_IPV4 = 0x0800"
definition ETHERTYPE_IPV6 :: u16 where "ETHERTYPE_IPV6 = 0x86DD"
definition ETHERTYPE_VLAN :: u16 where "ETHERTYPE_VLAN = 0x8100"
definition ETHERTYPE_QINQ :: u16 where "ETHERTYPE_QINQ = 0x88A8"
definition ETH_HEADER_LEN :: usize where "ETH_HEADER_LEN = 14"
definition VLAN_TAG_LEN :: usize where "VLAN_TAG_LEN = 4"
definition MAX_VLAN_TAGS :: u8 where "MAX_VLAN_TAGS = 2"
definition MAC_LEN :: usize where "MAC_LEN = 6"

lemmas eth_consts = ETHERTYPE_IPV4_def ETHERTYPE_IPV6_def ETHERTYPE_VLAN_def ETHERTYPE_QINQ_def
  ETH_HEADER_LEN_def VLAN_TAG_LEN_def MAX_VLAN_TAGS_def MAC_LEN_def

record ethernet_header =
  eth_dst :: bytes
  eth_src :: bytes
  eth_ethertype :: u16
  eth_vlan_tags :: u8

text \<open>
  The \<open>while\<close> over the tags.  Each round moves \<open>offset\<close> by four within the buffer, so it ends;
  the guard on \<open>vlan_tags\<close> stops it after two.
\<close>

function vlan_loop :: "bytes \<Rightarrow> u16 \<Rightarrow> usize \<Rightarrow> u8 \<Rightarrow> (parse_error, u16 \<times> usize \<times> u8) result" where
  "vlan_loop buf ethertype offset vlan_tags =
     (if ethertype = ETHERTYPE_VLAN \<or> ethertype = ETHERTYPE_QINQ then
        if vlan_tags = MAX_VLAN_TAGS then Err (Malformed Link ''too many vlan tags'')
        else and_then (need buf (offset + VLAN_TAG_LEN) Link) (\<lambda>_.
             and_then (be16 buf (offset + 2)) (\<lambda>ethertype'.
               vlan_loop buf ethertype' (offset + VLAN_TAG_LEN) (vlan_tags + 1)))
      else Ok (ethertype, offset, vlan_tags))"
  by pat_completeness auto
termination
  by (relation "measure (\<lambda>(buf, _, offset, _). length buf - offset)")
    (auto simp: need_iffs VLAN_TAG_LEN_def)

declare vlan_loop.simps [simp del]

definition ethernet_parse :: "bytes \<Rightarrow> (parse_error, ethernet_header \<times> bytes) result" where
  "ethernet_parse buf =
     and_then (need buf ETH_HEADER_LEN Link) (\<lambda>_.
     and_then (slice buf 0 MAC_LEN) (\<lambda>dst.
     and_then (slice buf MAC_LEN (2 * MAC_LEN)) (\<lambda>src.
     and_then (be16 buf 12) (\<lambda>ethertype.
     and_then (vlan_loop buf ethertype ETH_HEADER_LEN 0) (\<lambda>(ethertype, offset, vlan_tags).
     and_then (slice_from buf offset) (\<lambda>rest.
       Ok (\<lparr>eth_dst = dst, eth_src = src, eth_ethertype = ethertype, eth_vlan_tags = vlan_tags\<rparr>,
           rest)))))))"

section \<open>IP\<close>

record ip_header =
  ip_src :: ip_addr
  ip_dst :: ip_addr
  ip_proto :: u8
  ip_ttl :: u8
  more_fragments :: bool
  fragment_offset :: u16

definition is_fragment :: "ip_header \<Rightarrow> bool" where
  "is_fragment h \<longleftrightarrow> more_fragments h \<or> fragment_offset h \<noteq> 0"

definition IPV4_MIN_HEADER_LEN :: usize where "IPV4_MIN_HEADER_LEN = 20"
definition FLAG_MORE_FRAGMENTS :: u16 where "FLAG_MORE_FRAGMENTS = 0x2000"
definition FRAGMENT_OFFSET_MASK :: u16 where "FRAGMENT_OFFSET_MASK = 0x1FFF"

definition ipv4_parse :: "bytes \<Rightarrow> (parse_error, ip_header \<times> bytes) result" where
  "ipv4_parse buf =
     and_then (need buf IPV4_MIN_HEADER_LEN Ipv4) (\<lambda>_.
     and_then (idx buf 0) (\<lambda>b0.
     if drop_bit 4 b0 \<noteq> 4 then Err (Malformed Ipv4 ''version is not 4'') else
     let header_len = unat (b0 AND 0x0F) * 4 in
     if header_len < IPV4_MIN_HEADER_LEN then Err (Malformed Ipv4 ''header length below 20'') else
     and_then (need buf header_len Ipv4) (\<lambda>_.
     and_then (be16 buf 2) (\<lambda>total.
     let total_len = unat total in
     if total_len < header_len then Err (Malformed Ipv4 ''total length smaller than header'') else
     let payload_end = min total_len (length buf) in
     and_then (be16 buf 6) (\<lambda>flags_offset.
     and_then (slice buf 12 16) (\<lambda>src.
     and_then (slice buf 16 20) (\<lambda>dst.
     and_then (idx buf 9) (\<lambda>proto.
     and_then (idx buf 8) (\<lambda>ttl.
     and_then (slice buf header_len payload_end) (\<lambda>payload.
       Ok (\<lparr>ip_src = V4 src, ip_dst = V4 dst, ip_proto = proto, ip_ttl = ttl,
            more_fragments = (flags_offset AND FLAG_MORE_FRAGMENTS \<noteq> 0),
            fragment_offset = flags_offset AND FRAGMENT_OFFSET_MASK\<rparr>, payload)))))))))))"

definition IPV6_HEADER_LEN :: usize where "IPV6_HEADER_LEN = 40"
definition MAX_EXTENSION_HEADERS :: nat where "MAX_EXTENSION_HEADERS = 8"
definition NH_HOP_BY_HOP :: u8 where "NH_HOP_BY_HOP = 0"
definition NH_ROUTING :: u8 where "NH_ROUTING = 43"
definition NH_FRAGMENT :: u8 where "NH_FRAGMENT = 44"
definition NH_AUTH :: u8 where "NH_AUTH = 51"
definition NH_DEST_OPTS :: u8 where "NH_DEST_OPTS = 60"
definition FRAGMENT_HEADER_LEN :: usize where "FRAGMENT_HEADER_LEN = 8"
definition FRAGMENT_OFFSET_SHIFT :: nat where "FRAGMENT_OFFSET_SHIFT = 3"
definition FRAGMENT_MORE_BIT :: u16 where "FRAGMENT_MORE_BIT = 0x0001"

lemmas nh_consts = NH_HOP_BY_HOP_def NH_ROUTING_def NH_FRAGMENT_def NH_AUTH_def NH_DEST_OPTS_def

definition addr_at :: "bytes \<Rightarrow> usize \<Rightarrow> (parse_error, bytes) result" where
  "addr_at buf at = slice buf at (at + 16)"

text \<open>
  The \<open>for\<close> loop over the extension headers, \<open>n\<close> rounds left.  \<open>ext_step\<close> is the \<open>match\<close>: the
  length of the extension header at \<open>offset\<close> and the header with the fragment fields set, or
  nothing when the next header is not an extension header.
\<close>

definition ext_step :: "bytes \<Rightarrow> ip_header \<Rightarrow> usize \<Rightarrow> (parse_error, (ip_header \<times> usize) option) result" where
  "ext_step packet header offset =
     (if ip_proto header = NH_HOP_BY_HOP \<or> ip_proto header = NH_ROUTING \<or> ip_proto header = NH_DEST_OPTS then
        and_then (need packet (offset + 2) Ipv6) (\<lambda>_.
        and_then (idx packet (offset + 1)) (\<lambda>len. Ok (Some (header, (unat len + 1) * 8))))
      else if ip_proto header = NH_AUTH then
        and_then (need packet (offset + 2) Ipv6) (\<lambda>_.
        and_then (idx packet (offset + 1)) (\<lambda>len. Ok (Some (header, (unat len + 2) * 4))))
      else if ip_proto header = NH_FRAGMENT then
        and_then (need packet (offset + FRAGMENT_HEADER_LEN) Ipv6) (\<lambda>_.
        and_then (be16 packet (offset + 2)) (\<lambda>field.
          Ok (Some (header\<lparr>fragment_offset := drop_bit FRAGMENT_OFFSET_SHIFT field,
                           more_fragments := (field AND FRAGMENT_MORE_BIT \<noteq> 0)\<rparr>,
                    FRAGMENT_HEADER_LEN))))
      else Ok None)"

fun ext_loop :: "nat \<Rightarrow> bytes \<Rightarrow> ip_header \<Rightarrow> usize \<Rightarrow> (parse_error, ip_header \<times> bytes) result" where
  "ext_loop 0 packet header offset = Err (Malformed Ipv6 ''too many extension headers'')"
| "ext_loop (Suc n) packet header offset =
     and_then (ext_step packet header offset) (\<lambda>step.
       case step of
         None \<Rightarrow> and_then (slice_from packet offset) (\<lambda>rest. Ok (header, rest))
       | Some (header', ext_len) \<Rightarrow>
           and_then (need packet (offset + ext_len) Ipv6) (\<lambda>_.
           and_then (idx packet offset) (\<lambda>next.
             ext_loop n packet (header'\<lparr>ip_proto := next\<rparr>) (offset + ext_len))))"

definition ipv6_parse :: "bytes \<Rightarrow> (parse_error, ip_header \<times> bytes) result" where
  "ipv6_parse buf =
     and_then (need buf IPV6_HEADER_LEN Ipv6) (\<lambda>_.
     and_then (idx buf 0) (\<lambda>b0.
     if drop_bit 4 b0 \<noteq> 6 then Err (Malformed Ipv6 ''version is not 6'') else
     and_then (be16 buf 4) (\<lambda>plen.
     let payload_len = unat plen; end = min (IPV6_HEADER_LEN + payload_len) (length buf) in
     and_then (slice buf 0 end) (\<lambda>packet.
     and_then (addr_at buf 8) (\<lambda>src.
     and_then (addr_at buf 24) (\<lambda>dst.
     and_then (idx buf 6) (\<lambda>proto.
     and_then (idx buf 7) (\<lambda>ttl.
       ext_loop MAX_EXTENSION_HEADERS packet
         \<lparr>ip_src = V6 src, ip_dst = V6 dst, ip_proto = proto, ip_ttl = ttl,
          more_fragments = False, fragment_offset = 0\<rparr> IPV6_HEADER_LEN))))))))"

section \<open>Transport\<close>

definition TCP_MIN_HEADER_LEN :: usize where "TCP_MIN_HEADER_LEN = 20"
definition FLAG_FIN :: u8 where "FLAG_FIN = 0x01"
definition FLAG_SYN :: u8 where "FLAG_SYN = 0x02"
definition FLAG_RST :: u8 where "FLAG_RST = 0x04"
definition FLAG_PSH :: u8 where "FLAG_PSH = 0x08"
definition FLAG_ACK :: u8 where "FLAG_ACK = 0x10"

lemmas tcp_flag_consts = FLAG_FIN_def FLAG_SYN_def FLAG_RST_def FLAG_PSH_def FLAG_ACK_def

record tcp_header =
  tcp_src_port :: u16
  tcp_dst_port :: u16
  tcp_seq :: u32
  tcp_ack :: u32
  tcp_flags :: u8
  tcp_window :: u16

definition is_syn_only :: "tcp_header \<Rightarrow> bool" where
  "is_syn_only h \<longleftrightarrow> tcp_flags h AND (FLAG_SYN OR FLAG_ACK) = FLAG_SYN"

definition tcp_parse :: "bytes \<Rightarrow> (parse_error, tcp_header \<times> bytes) result" where
  "tcp_parse buf =
     and_then (need buf TCP_MIN_HEADER_LEN Tcp) (\<lambda>_.
     and_then (idx buf 12) (\<lambda>b12.
     let header_len = unat (drop_bit 4 b12) * 4 in
     if header_len < TCP_MIN_HEADER_LEN then Err (Malformed Tcp ''data offset below 5'') else
     and_then (need buf header_len Tcp) (\<lambda>_.
     and_then (be16 buf 0) (\<lambda>src_port.
     and_then (be16 buf 2) (\<lambda>dst_port.
     and_then (be32 buf 4) (\<lambda>seq.
     and_then (be32 buf 8) (\<lambda>ack.
     and_then (idx buf 13) (\<lambda>flags.
     and_then (be16 buf 14) (\<lambda>window.
     and_then (slice_from buf header_len) (\<lambda>rest.
       Ok (\<lparr>tcp_src_port = src_port, tcp_dst_port = dst_port, tcp_seq = seq, tcp_ack = ack,
            tcp_flags = flags, tcp_window = window\<rparr>, rest)))))))))))"

definition UDP_HEADER_LEN :: usize where "UDP_HEADER_LEN = 8"

record udp_header =
  udp_src_port :: u16
  udp_dst_port :: u16
  udp_length :: u16

definition udp_parse :: "bytes \<Rightarrow> (parse_error, udp_header \<times> bytes) result" where
  "udp_parse buf =
     and_then (need buf UDP_HEADER_LEN Udp) (\<lambda>_.
     and_then (be16 buf 0) (\<lambda>src_port.
     and_then (be16 buf 2) (\<lambda>dst_port.
     and_then (be16 buf 4) (\<lambda>length_field.
     let declared = unat length_field in
     if declared \<noteq> 0 \<and> declared < UDP_HEADER_LEN
     then Err (Malformed Udp ''length below header size'')
     else let end = (if declared = 0 then length buf else min declared (length buf)) in
     and_then (slice buf UDP_HEADER_LEN end) (\<lambda>payload.
       Ok (\<lparr>udp_src_port = src_port, udp_dst_port = dst_port, udp_length = length_field\<rparr>,
           payload))))))"

definition ICMP_HEADER_LEN :: usize where "ICMP_HEADER_LEN = 4"

record icmp_header =
  icmp_type :: u8
  icmp_code :: u8
  icmp_v6 :: bool

definition icmp_parse :: "bytes \<Rightarrow> bool \<Rightarrow> (parse_error, icmp_header) result" where
  "icmp_parse buf v6 =
     and_then (need buf ICMP_HEADER_LEN Icmp) (\<lambda>_.
     and_then (idx buf 0) (\<lambda>ty.
     and_then (idx buf 1) (\<lambda>code.
       Ok \<lparr>icmp_type = ty, icmp_code = code, icmp_v6 = v6\<rparr>)))"

section \<open>Packets\<close>

definition PROTO_ICMP :: u8 where "PROTO_ICMP = 1"
definition PROTO_TCP :: u8 where "PROTO_TCP = 6"
definition PROTO_UDP :: u8 where "PROTO_UDP = 17"
definition PROTO_ICMPV6 :: u8 where "PROTO_ICMPV6 = 58"
definition NULL_HEADER_LEN :: usize where "NULL_HEADER_LEN = 4"

lemmas proto_consts = PROTO_ICMP_def PROTO_TCP_def PROTO_UDP_def PROTO_ICMPV6_def

datatype transport =
    TransportNone | TransportTcp tcp_header | TransportUdp udp_header | TransportIcmp icmp_header
  | LaterFragment | TransportOther u8

fun ports :: "transport \<Rightarrow> u16 \<times> u16" where
  "ports (TransportTcp h) = (tcp_src_port h, tcp_dst_port h)"
| "ports (TransportUdp h) = (udp_src_port h, udp_dst_port h)"
| "ports _ = (0, 0)"

datatype app = AppNone | AppDns dns_info | AppDnsError parse_error

record packet =
  pk_ts_us :: u64
  pk_wire_len :: u32
  pk_ethertype :: "u16 option"
  pk_ip :: "ip_header option"
  pk_transport :: transport
  pk_app :: app

text \<open>
  \<open>parse\<close>, in the three stages of the source: the link layer, the IP version, and what follows
  the IP header.
\<close>

definition parse_link :: "link_type \<Rightarrow> bytes \<Rightarrow> (parse_error, u16 option \<times> bytes) result" where
  "parse_link link data =
     (case link of
        LinkEthernet \<Rightarrow>
          and_then (ethernet_parse data) (\<lambda>(eth, rest). Ok (Some (eth_ethertype eth), rest))
      | LinkNull \<Rightarrow>
          and_then (need data NULL_HEADER_LEN Link) (\<lambda>_.
          and_then (slice_from data NULL_HEADER_LEN) (\<lambda>rest. Ok (None, rest)))
      | LinkRaw \<Rightarrow> Ok (None, data))"

definition parse_ip_version :: "u16 option \<Rightarrow> bytes \<Rightarrow> (parse_error, u8 option) result" where
  "parse_ip_version ethertype l3 =
     (case ethertype of
        Some t \<Rightarrow>
          if t = ETHERTYPE_IPV4 then Ok (Some 4)
          else if t = ETHERTYPE_IPV6 then Ok (Some 6)
          else Ok None
      | None \<Rightarrow>
          and_then (need l3 1 Link) (\<lambda>_.
          and_then (idx l3 0) (\<lambda>b0. Ok (Some (drop_bit 4 b0)))))"

definition parse_ip :: "u8 \<Rightarrow> bytes \<Rightarrow> (parse_error, ip_header \<times> bytes) result" where
  "parse_ip version l3 =
     (if version = 4 then ipv4_parse l3
      else if version = 6 then ipv6_parse l3
      else Err (Malformed Link ''unknown ip version''))"

definition parse_l4 :: "packet \<Rightarrow> ip_header \<Rightarrow> bytes \<Rightarrow> (parse_error, packet) result" where
  "parse_l4 packet ip l4 =
     (if ip_proto ip = PROTO_TCP then
        and_then (tcp_parse l4) (\<lambda>(tcp, _). Ok (packet\<lparr>pk_transport := TransportTcp tcp\<rparr>))
      else if ip_proto ip = PROTO_UDP then
        and_then (udp_parse l4) (\<lambda>(udp, payload).
          let packet = packet\<lparr>pk_transport := TransportUdp udp\<rparr>;
              (sport, dport) = ports (pk_transport packet) in
          if (sport = DNS_PORT \<or> dport = DNS_PORT) \<and> payload \<noteq> [] then
            (case dns_parse payload of
               Ok info \<Rightarrow> Ok (packet\<lparr>pk_app := AppDns info\<rparr>)
             | Err e \<Rightarrow> Ok (packet\<lparr>pk_app := AppDnsError e\<rparr>)
             | Panic \<Rightarrow> Panic)
          else Ok packet)
      else if ip_proto ip = PROTO_ICMP \<or> ip_proto ip = PROTO_ICMPV6 then
        and_then (icmp_parse l4 (ip_proto ip = PROTO_ICMPV6)) (\<lambda>icmp.
          Ok (packet\<lparr>pk_transport := TransportIcmp icmp\<rparr>))
      else Ok (packet\<lparr>pk_transport := TransportOther (ip_proto ip)\<rparr>))"

definition parse :: "link_type \<Rightarrow> frame \<Rightarrow> (parse_error, packet) result" where
  "parse link frame =
     and_then (parse_link link (fr_data frame)) (\<lambda>(ethertype, l3).
     let packet = \<lparr>pk_ts_us = fr_ts_us frame, pk_wire_len = fr_wire_len frame,
                   pk_ethertype = ethertype, pk_ip = None, pk_transport = TransportNone,
                   pk_app = AppNone\<rparr> in
     and_then (parse_ip_version ethertype l3) (\<lambda>version.
     case version of
       None \<Rightarrow> Ok packet
     | Some v \<Rightarrow>
         and_then (parse_ip v l3) (\<lambda>(ip, l4).
         let packet = packet\<lparr>pk_ip := Some ip\<rparr> in
         if fragment_offset ip \<noteq> 0 then Ok (packet\<lparr>pk_transport := LaterFragment\<rparr>)
         else parse_l4 packet ip l4)))"

section \<open>No parser panics\<close>

lemma unat_nibble: "unat (b AND 0x0F :: u8) < 16"
proof -
  have "b AND 0x0F = take_bit 4 b" by (simp add: take_bit_eq_mask mask_eq_exp_minus_1)
  then show ?thesis using take_bit_nat_less_exp [of 4 "unat b"] by (simp add: unsigned_take_bit_eq)
qed

lemma vlan_loop_not_panic: "vlan_loop buf t offset tags \<noteq> Panic"
proof (induction buf t offset tags rule: vlan_loop.induct)
  case (1 buf t offset tags)
  then show ?case
    by (subst vlan_loop.simps) (auto simp: and_then_iffs need_iffs VLAN_TAG_LEN_def)
qed

lemma vlan_loop_Ok:
  "vlan_loop buf t offset tags = Ok (t', offset', tags') \<Longrightarrow> offset \<le> length buf \<Longrightarrow> unat tags \<le> 2 \<Longrightarrow>
   offset' \<le> length buf \<and> unat tags' \<le> 2 \<and> offset' = offset + 4 * (unat tags' - unat tags) \<and>
   unat tags \<le> unat tags' \<and> t' \<noteq> ETHERTYPE_VLAN \<and> t' \<noteq> ETHERTYPE_QINQ"
proof (induction buf t offset tags rule: vlan_loop.induct)
  case (1 buf t offset tags)
  show ?case
  proof (cases "t = ETHERTYPE_VLAN \<or> t = ETHERTYPE_QINQ")
    case False
    with "1.prems" show ?thesis by (auto simp: vlan_loop.simps [of buf t])
  next
    case True
    with "1.prems" obtain t2 where *: "tags \<noteq> MAX_VLAN_TAGS" "offset + 4 \<le> length buf"
        "be16 buf (offset + 2) = (Ok t2 :: (parse_error, u16) result)"
        "vlan_loop buf t2 (offset + 4) (tags + 1) = Ok (t', offset', tags')"
      by (auto simp: vlan_loop.simps [of buf t] and_then_iffs need_iffs VLAN_TAG_LEN_def split: if_splits)
    from *(1) "1.prems"(3) have "unat tags < 2"
      by (auto simp: MAX_VLAN_TAGS_def le_less word_unat_eq_iff)
    then have tags: "unat (tags + 1) = unat tags + 1" by (simp add: unat_word_ariths)
    have "need buf (offset + VLAN_TAG_LEN) Link = Ok ()" using *(2) by (simp add: need_iffs VLAN_TAG_LEN_def)
    from "1.IH" [OF True *(1) this *(3)] * tags \<open>unat tags < 2\<close>
    show ?thesis by (auto simp: VLAN_TAG_LEN_def)
  qed
qed

lemma ethernet_parse_not_panic [panic_free]: "ethernet_parse buf \<noteq> Panic"
  by (auto simp: ethernet_parse_def and_then_iffs need_iffs eth_consts vlan_loop_not_panic
      slice_from_iffs slice_def slice_from_def split: if_splits
      dest!: vlan_loop_Ok)

lemma ipv4_parse_not_panic [panic_free]: "ipv4_parse buf \<noteq> Panic"
  by (auto simp: ipv4_parse_def need_iffs IPV4_MIN_HEADER_LEN_def and_then_iffs Let_def idx_iffs be16_def
      slice_def split: if_splits)

lemma ext_step_not_panic: "ext_step packet h offset \<noteq> Panic"
  by (auto simp: ext_step_def and_then_iffs need_iffs FRAGMENT_HEADER_LEN_def split: if_splits)

lemma ext_step_Some:
  "ext_step packet h offset = Ok (Some (h', n)) \<Longrightarrow>
   offset + 2 \<le> length packet \<and> 8 \<le> n \<and> 4 dvd n \<and>
   ip_src h' = ip_src h \<and> ip_dst h' = ip_dst h \<and> ip_ttl h' = ip_ttl h"
  by (auto simp: ext_step_def and_then_iffs need_iffs FRAGMENT_HEADER_LEN_def split: if_splits)

lemma ext_loop_not_panic: "offset \<le> length packet \<Longrightarrow> ext_loop n packet h offset \<noteq> Panic"
proof (induction n packet h offset rule: ext_loop.induct)
  case (2 n packet h offset)
  then show ?case
    by (auto simp: and_then_iffs ext_step_not_panic need_iffs idx_iffs split: option.splits
        dest: ext_step_Some)
qed simp

lemma ipv6_parse_not_panic [panic_free]: "ipv6_parse buf \<noteq> Panic"
  by (auto simp: ipv6_parse_def need_iffs IPV6_HEADER_LEN_def and_then_iffs Let_def idx_iffs be16_def
      slice_def addr_at_def ext_loop_not_panic split: if_splits)

lemma tcp_parse_not_panic [panic_free]: "tcp_parse buf \<noteq> Panic"
  by (auto simp: tcp_parse_def need_iffs TCP_MIN_HEADER_LEN_def and_then_iffs Let_def idx_iffs be16_def
      be32_def slice_from_def split: if_splits)

lemma udp_parse_not_panic [panic_free]: "udp_parse buf \<noteq> Panic"
  by (auto simp: udp_parse_def need_iffs UDP_HEADER_LEN_def and_then_iffs Let_def idx_iffs be16_def
      slice_def split: if_splits)

lemma icmp_parse_not_panic [panic_free]: "icmp_parse buf v6 \<noteq> Panic"
  by (auto simp: icmp_parse_def need_iffs ICMP_HEADER_LEN_def and_then_iffs idx_iffs)

lemma parse_link_not_panic [panic_free]: "parse_link link data \<noteq> Panic"
  by (auto simp: parse_link_def panic_free need_iffs and_then_iffs slice_from_def NULL_HEADER_LEN_def
      split: link_type.splits)

lemma parse_ip_version_not_panic [panic_free]: "parse_ip_version t l3 \<noteq> Panic"
  by (auto simp: parse_ip_version_def and_then_iffs need_iffs idx_iffs split: option.splits)

lemma parse_ip_not_panic [panic_free]: "parse_ip v l3 \<noteq> Panic"
  by (simp add: parse_ip_def panic_free)

lemma parse_l4_not_panic [panic_free]: "parse_l4 packet ip l4 \<noteq> Panic"
  by (auto simp: parse_l4_def panic_free and_then_iffs Let_def split: prod.splits result.splits)

lemma parse_not_panic [panic_free]: "parse link frame \<noteq> Panic"
  by (auto simp: parse_def panic_free and_then_iffs Let_def split: prod.splits option.splits)

section \<open>Errors name bytes that are missing\<close>

lemma vlan_loop_honest: "vlan_loop buf t offset tags = Err e \<Longrightarrow> error_honest (length buf) e"
proof (induction buf t offset tags rule: vlan_loop.induct)
  case (1 buf t offset tags)
  then show ?case
    by (auto simp: vlan_loop.simps [of buf t] and_then_iffs need_iffs be16_def idx_iffs split: if_splits)
qed

lemma ethernet_parse_honest: "ethernet_parse buf = Err e \<Longrightarrow> error_honest (length buf) e"
  by (auto simp: ethernet_parse_def and_then_iffs need_iffs slice_iffs slice_from_iffs be16_def idx_iffs
      split: prod.splits dest: vlan_loop_honest)

lemma ipv4_parse_honest: "ipv4_parse buf = Err e \<Longrightarrow> error_honest (length buf) e"
  by (auto simp: ipv4_parse_def and_then_iffs need_iffs slice_iffs be16_def idx_iffs Let_def split: if_splits)

lemma ext_step_honest: "ext_step packet h offset = Err e \<Longrightarrow> error_honest (length packet) e"
  by (auto simp: ext_step_def and_then_iffs need_iffs be16_def idx_iffs split: if_splits)

lemma ext_loop_honest: "ext_loop n packet h offset = Err e \<Longrightarrow> error_honest (length packet) e"
proof (induction n packet h offset rule: ext_loop.induct)
  case (2 n packet h offset)
  then show ?case
    by (auto simp: and_then_iffs need_iffs idx_iffs slice_from_iffs split: option.splits dest: ext_step_honest)
qed auto

lemma ipv6_parse_honest: "ipv6_parse buf = Err e \<Longrightarrow> error_honest (length buf) e"
  by (auto simp: ipv6_parse_def addr_at_def and_then_iffs need_iffs slice_iffs be16_def idx_iffs Let_def
      split: if_splits dest!: ext_loop_honest elim: error_honest_mono)

lemma tcp_parse_honest: "tcp_parse buf = Err e \<Longrightarrow> error_honest (length buf) e"
  by (auto simp: tcp_parse_def and_then_iffs need_iffs slice_from_iffs be16_def be32_def idx_iffs Let_def
      split: if_splits)

lemma udp_parse_honest: "udp_parse buf = Err e \<Longrightarrow> error_honest (length buf) e"
  by (auto simp: udp_parse_def and_then_iffs need_iffs slice_iffs be16_def idx_iffs Let_def split: if_splits)

lemma icmp_parse_honest: "icmp_parse buf v6 = Err e \<Longrightarrow> error_honest (length buf) e"
  by (auto simp: icmp_parse_def and_then_iffs need_iffs idx_iffs)

lemmas l4_honest = tcp_parse_honest udp_parse_honest icmp_parse_honest

text \<open>What a parser hands on is no longer than what it got.\<close>

lemma parse_link_length: "parse_link link data = Ok (t, l3) \<Longrightarrow> length l3 \<le> length data"
  by (auto simp: parse_link_def and_then_iffs need_iffs ethernet_parse_def slice_from_iffs
      split: link_type.splits prod.splits)

lemma ext_loop_length: "ext_loop n packet h offset = Ok (h', rest) \<Longrightarrow> length rest \<le> length packet"
  by (induction n packet h offset rule: ext_loop.induct)
    (auto simp: and_then_iffs slice_from_iffs split: option.splits)

lemma parse_ip_length: "parse_ip v l3 = Ok (ip, l4) \<Longrightarrow> length l4 \<le> length l3"
  by (auto simp: parse_ip_def ipv4_parse_def ipv6_parse_def and_then_iffs slice_iffs Let_def min_def
      split: if_splits dest!: ext_loop_length)

lemma parse_honest: "parse link frame = Err e \<Longrightarrow> error_honest (length (fr_data frame)) e"
proof -
  have link: "parse_link link d = Err e \<Longrightarrow> error_honest (length d) e" for d
    by (auto simp: parse_link_def and_then_iffs need_iffs slice_from_iffs
        split: link_type.splits prod.splits dest: ethernet_parse_honest)
  have version: "parse_ip_version t l3 = Err e \<Longrightarrow> error_honest (length l3) e" for t l3
    by (auto simp: parse_ip_version_def and_then_iffs need_iffs idx_iffs split: option.splits if_splits)
  have ip: "parse_ip v l3 = Err e \<Longrightarrow> error_honest (length l3) e" for v l3
    by (auto simp: parse_ip_def split: if_splits dest: ipv4_parse_honest ipv6_parse_honest)
  have l4: "parse_l4 p h l4 = Err e \<Longrightarrow> error_honest (length l4) e" for p h l4
    by (auto simp: parse_l4_def and_then_iffs Let_def split: if_splits prod.splits result.splits dest: l4_honest)
  assume "parse link frame = Err e"
  then consider "parse_link link (fr_data frame) = Err e"
    | t l3 where "parse_link link (fr_data frame) = Ok (t, l3)" "parse_ip_version t l3 = Err e"
    | t l3 v where "parse_link link (fr_data frame) = Ok (t, l3)" "parse_ip v l3 = Err e"
    | t l3 v h l4 p where "parse_link link (fr_data frame) = Ok (t, l3)" "parse_ip v l3 = Ok (h, l4)"
        "parse_l4 p h l4 = Err e"
    by (auto simp: parse_def and_then_iffs Let_def split: option.splits if_splits)
  then show ?thesis
    by cases (blast dest: link version ip l4 parse_link_length parse_ip_length
        intro: error_honest_mono order_trans)+
qed

section \<open>Well-formed packets\<close>

definition ip_header_wf :: "ip_header \<Rightarrow> bool" where
  "ip_header_wf h \<longleftrightarrow> ip_wf (ip_src h) \<and> ip_wf (ip_dst h) \<and> is_ipv4 (ip_src h) = is_ipv4 (ip_dst h) \<and>
     unat (fragment_offset h) < 2 ^ 13"

fun transport_of_proto :: "transport \<Rightarrow> u8 \<Rightarrow> bool" where
  "transport_of_proto TransportNone proto \<longleftrightarrow> False"
| "transport_of_proto (TransportTcp h) proto \<longleftrightarrow> proto = PROTO_TCP"
| "transport_of_proto (TransportUdp h) proto \<longleftrightarrow> proto = PROTO_UDP"
| "transport_of_proto (TransportIcmp h) proto \<longleftrightarrow>
     (proto = PROTO_ICMP \<or> proto = PROTO_ICMPV6) \<and> icmp_v6 h = (proto = PROTO_ICMPV6)"
| "transport_of_proto LaterFragment proto \<longleftrightarrow> True"
| "transport_of_proto (TransportOther q) proto \<longleftrightarrow>
     q = proto \<and> proto \<notin> {PROTO_TCP, PROTO_UDP, PROTO_ICMP, PROTO_ICMPV6}"

definition packet_wf :: "packet \<Rightarrow> bool" where
  "packet_wf p \<longleftrightarrow>
     (case pk_ip p of
        None \<Rightarrow> pk_transport p = TransportNone \<and> pk_app p = AppNone
      | Some h \<Rightarrow> ip_header_wf h \<and> transport_of_proto (pk_transport p) (ip_proto h) \<and>
          (pk_transport p = LaterFragment \<longleftrightarrow> fragment_offset h \<noteq> 0) \<and>
          (pk_app p \<noteq> AppNone \<longrightarrow>
             (\<exists>u. pk_transport p = TransportUdp u \<and> (udp_src_port u = 53 \<or> udp_dst_port u = 53))))"

lemma fragment_offset_bounds:
  "unat (w AND FRAGMENT_OFFSET_MASK) < 2 ^ 13" "unat (drop_bit FRAGMENT_OFFSET_SHIFT w) < 2 ^ 13"
  for w :: u16
proof -
  have "w AND FRAGMENT_OFFSET_MASK = take_bit 13 w"
    by (simp add: FRAGMENT_OFFSET_MASK_def take_bit_eq_mask mask_eq_exp_minus_1)
  then show "unat (w AND FRAGMENT_OFFSET_MASK) < 2 ^ 13"
    by (simp only: unsigned_take_bit_eq take_bit_nat_less_exp)
  have "unat (drop_bit FRAGMENT_OFFSET_SHIFT w) = unat w div 8"
    by (simp add: FRAGMENT_OFFSET_SHIFT_def unat_drop_bit_eq) (simp add: drop_bit_eq_div)
  then show "unat (drop_bit FRAGMENT_OFFSET_SHIFT w) < 2 ^ 13" using unat_u16 [of w] by simp
qed

lemma ipv4_parse_wf: "ipv4_parse buf = Ok (h, rest) \<Longrightarrow> ip_header_wf h"
  by (auto simp: ipv4_parse_def ip_header_wf_def and_then_iffs slice_iffs Let_def
      fragment_offset_bounds(1) [simplified] split: if_splits)

lemma ext_step_wf: "ext_step packet h offset = Ok (Some (h', n)) \<Longrightarrow> ip_header_wf h \<Longrightarrow> ip_header_wf h'"
  by (auto simp: ext_step_def ip_header_wf_def and_then_iffs fragment_offset_bounds(2) [simplified]
      split: if_splits)

lemma ext_loop_wf: "ext_loop n packet h offset = Ok (h', rest) \<Longrightarrow> ip_header_wf h \<Longrightarrow> ip_header_wf h'"
proof (induction n arbitrary: h offset)
  case (Suc n)
  have upd: "ip_header_wf (g\<lparr>ip_proto := b\<rparr>) = ip_header_wf g" for g b by (simp add: ip_header_wf_def)
  from Suc.prems(1) consider "h' = h"
    | g len b where "ext_step packet h offset = Ok (Some (g, len))"
        "ext_loop n packet (g\<lparr>ip_proto := b\<rparr>) (offset + len) = Ok (h', rest)"
    by (auto simp: and_then_iffs split: option.splits)
  then show ?case
    by cases (use Suc upd ext_step_wf in blast)+
qed simp

lemma ipv6_parse_wf: "ipv6_parse buf = Ok (h, rest) \<Longrightarrow> ip_header_wf h"
proof -
  assume "ipv6_parse buf = Ok (h, rest)"
  then obtain packet where "40 \<le> length buf" "ext_loop MAX_EXTENSION_HEADERS packet
       \<lparr>ip_src = V6 (take 16 (drop 8 buf)), ip_dst = V6 (take 16 (drop 24 buf)),
        ip_proto = buf ! 6, ip_ttl = buf ! 7, more_fragments = False, fragment_offset = 0\<rparr>
       IPV6_HEADER_LEN = Ok (h, rest)"
    by (auto simp: ipv6_parse_def addr_at_def and_then_iffs slice_iffs Let_def split: if_splits)
  then show ?thesis by (elim ext_loop_wf) (simp add: ip_header_wf_def)
qed

lemma parse_ip_wf: "parse_ip v l3 = Ok (h, l4) \<Longrightarrow> ip_header_wf h"
  by (auto simp: parse_ip_def split: if_splits dest: ipv4_parse_wf ipv6_parse_wf)

lemma parse_l4_wf:
  "parse_l4 p h l4 = Ok p' \<Longrightarrow> pk_ip p = Some h \<Longrightarrow> pk_app p = AppNone \<Longrightarrow> ip_header_wf h \<Longrightarrow>
   fragment_offset h = 0 \<Longrightarrow> packet_wf p'"
  by (auto simp: parse_l4_def packet_wf_def and_then_iffs Let_def DNS_PORT_def icmp_parse_def
      split: if_splits result.splits)

lemma parse_link_stages:
  assumes "parse link frame = Ok p"
  obtains t l3 where "parse_link link (fr_data frame) = Ok (t, l3)" "parse_ip_version t l3 = Ok None"
      "p = \<lparr>pk_ts_us = fr_ts_us frame, pk_wire_len = fr_wire_len frame, pk_ethertype = t,
             pk_ip = None, pk_transport = TransportNone, pk_app = AppNone\<rparr>"
  | t l3 v h l4 where "parse_link link (fr_data frame) = Ok (t, l3)" "parse_ip_version t l3 = Ok (Some v)"
      "parse_ip v l3 = Ok (h, l4)" "fragment_offset h \<noteq> 0"
      "p = \<lparr>pk_ts_us = fr_ts_us frame, pk_wire_len = fr_wire_len frame, pk_ethertype = t,
             pk_ip = Some h, pk_transport = LaterFragment, pk_app = AppNone\<rparr>"
  | t l3 v h l4 where "parse_link link (fr_data frame) = Ok (t, l3)" "parse_ip_version t l3 = Ok (Some v)"
      "parse_ip v l3 = Ok (h, l4)" "fragment_offset h = 0"
      "parse_l4 \<lparr>pk_ts_us = fr_ts_us frame, pk_wire_len = fr_wire_len frame, pk_ethertype = t,
             pk_ip = Some h, pk_transport = TransportNone, pk_app = AppNone\<rparr> h l4 = Ok p"
proof -
  from assms obtain t l3 version where link: "parse_link link (fr_data frame) = Ok (t, l3)"
    and version: "parse_ip_version t l3 = Ok version" and rest: "(case version of
       None \<Rightarrow> Ok \<lparr>pk_ts_us = fr_ts_us frame, pk_wire_len = fr_wire_len frame, pk_ethertype = t,
             pk_ip = None, pk_transport = TransportNone, pk_app = AppNone\<rparr>
     | Some v \<Rightarrow> and_then (parse_ip v l3) (\<lambda>(ip, l4).
         if fragment_offset ip \<noteq> 0 then
           Ok \<lparr>pk_ts_us = fr_ts_us frame, pk_wire_len = fr_wire_len frame, pk_ethertype = t,
             pk_ip = Some ip, pk_transport = LaterFragment, pk_app = AppNone\<rparr>
         else parse_l4 \<lparr>pk_ts_us = fr_ts_us frame, pk_wire_len = fr_wire_len frame, pk_ethertype = t,
             pk_ip = Some ip, pk_transport = TransportNone, pk_app = AppNone\<rparr> ip l4)) = Ok p"
    by (auto simp: parse_def and_then_Ok_iff Let_def cong: option.case_cong if_cong)
  show thesis
  proof (cases version)
    case None
    with rest version show thesis by (intro that(1) [OF link]) simp_all
  next
    case (Some v)
    with rest obtain h l4 where ip: "parse_ip v l3 = Ok (h, l4)" by (auto simp: and_then_Ok_iff)
    from version Some have v: "parse_ip_version t l3 = Ok (Some v)" by simp
    from rest Some ip show thesis
      by (cases "fragment_offset h = 0") (simp_all add: that(2,3) [OF link v ip])
  qed
qed

lemma parse_l4_frame:
  "parse_l4 p h l4 = Ok p' \<Longrightarrow> pk_ts_us p' = pk_ts_us p \<and> pk_wire_len p' = pk_wire_len p \<and>
     pk_ethertype p' = pk_ethertype p \<and> pk_ip p' = pk_ip p"
  by (auto simp: parse_l4_def and_then_iffs Let_def split: if_splits result.splits)

lemma parse_wf:
  assumes "parse link frame = Ok p"
  shows "packet_wf p \<and> pk_ts_us p = fr_ts_us frame \<and> pk_wire_len p = fr_wire_len frame"
  using assms
proof (cases rule: parse_link_stages)
  case (1 t l3)
  then show ?thesis by (simp add: packet_wf_def)
next
  case (2 t l3 v h l4)
  then show ?thesis using parse_ip_wf [OF 2(3)] by (simp add: packet_wf_def)
next
  case (3 t l3 v h l4)
  have "packet_wf p" by (rule parse_l4_wf [OF 3(5) _ _ parse_ip_wf [OF 3(3)] 3(4)]) simp_all
  then show ?thesis using parse_l4_frame [OF 3(5)] by simp
qed

section \<open>VLAN tags are transparent\<close>

lemma be16_drop:
  "drop off buf = drop off' buf' \<Longrightarrow> off \<le> length buf \<Longrightarrow> off' \<le> length buf' \<Longrightarrow>
   (be16 buf (off + i) :: ('e, u16) result) = be16 buf' (off' + i)"
proof -
  assume *: "drop off buf = drop off' buf'" "off \<le> length buf" "off' \<le> length buf'"
  have "length buf - off = length buf' - off'" using arg_cong [OF *(1), of length] by simp
  then have "(idx buf (off + j) :: ('e, u8) result) = idx buf' (off' + j)" for j
    using * nth_drop [of off buf j] nth_drop [of off' buf' j] by (auto simp: idx_def)
  from this [of i] this [of "i + 1"] show ?thesis by (simp add: be16_def add.assoc)
qed

lemma vlan_loop_shift:
  "vlan_loop buf t off tags = Ok (t', off', tags') \<Longrightarrow> drop off buf = drop off2 buf2 \<Longrightarrow>
   off \<le> length buf \<Longrightarrow> off2 \<le> length buf2 \<Longrightarrow> unat tags \<le> unat tags' \<Longrightarrow> unat tags' < 2 \<Longrightarrow>
   vlan_loop buf2 t off2 (tags + 1) = Ok (t', off2 + (off' - off), tags' + 1)"
proof (induction buf t off tags arbitrary: off2 rule: vlan_loop.induct)
  case (1 buf t off tags)
  show ?case
  proof (cases "t = ETHERTYPE_VLAN \<or> t = ETHERTYPE_QINQ")
    case False
    then have "vlan_loop buf t off tags = Ok (t, off, tags)"
      "vlan_loop buf2 t off2 (tags + 1) = Ok (t, off2, tags + 1)"
      by (simp_all add: vlan_loop.simps [of _ t])
    with "1.prems"(1) show ?thesis by simp
  next
    case True
    with "1.prems"(1) obtain u where *: "tags \<noteq> MAX_VLAN_TAGS" "off + 4 \<le> length buf"
        "be16 buf (off + 2) = (Ok u :: (parse_error, u16) result)"
        "vlan_loop buf u (off + 4) (tags + 1) = Ok (t', off', tags')"
      by (auto simp: vlan_loop.simps [of buf t] and_then_iffs need_iffs VLAN_TAG_LEN_def split: if_splits)
    have len: "off2 + 4 \<le> length buf2"
      using arg_cong [OF "1.prems"(2), of length] *(2) "1.prems"(4) by simp
    have be: "be16 buf2 (off2 + 2) = (Ok u :: (parse_error, u16) result)"
      using be16_drop [OF "1.prems"(2,3,4), where i = 2 and 'e = parse_error] *(3) by simp
    have t0: "unat tags + 1 \<le> 2" using "1.prems"(5,6) by simp
    then have tags: "unat (tags + 1) = unat tags + 1" by (simp add: unat_word_ariths)
    have off': "off + 4 \<le> off'" "unat (tags + 1) \<le> unat tags'"
      using vlan_loop_Ok [OF *(4,2)] t0 tags by auto
    then have notmax: "tags + 1 \<noteq> MAX_VLAN_TAGS" using "1.prems"(6) by (auto simp: MAX_VLAN_TAGS_def)
    have "drop (off + 4) buf = drop (off2 + 4) buf2"
      using arg_cong [OF "1.prems"(2), of "drop 4"] by (simp add: add.commute)
    moreover have "need buf (off + VLAN_TAG_LEN) Link = Ok ()" using *(2) by (simp add: need_iffs VLAN_TAG_LEN_def)
    ultimately have "vlan_loop buf2 u (off2 + 4) (tags + 1 + 1) = Ok (t', off2 + 4 + (off' - (off + 4)), tags' + 1)"
      using "1.IH" [OF True *(1) _ *(3), of "()" "off2 + 4"] *(2,4) len off'(2) "1.prems"(6)
      by (simp add: VLAN_TAG_LEN_def)
    with True notmax len be off'(1) show ?thesis
      by (simp add: vlan_loop.simps [of buf2 t] need_def VLAN_TAG_LEN_def)
  qed
qed

lemma ethernet_parse_tag:
  assumes "length macs = 12" "ethernet_parse (macs @ rest) = Ok (h, payload)" "unat (eth_vlan_tags h) < 2"
  shows "ethernet_parse (macs @ [0x81, 0x00, a, b] @ rest) =
     Ok (h\<lparr>eth_vlan_tags := eth_vlan_tags h + 1\<rparr>, payload)"
proof -
  let ?buf = "macs @ rest" and ?tagged = "macs @ [0x81, 0x00, a, b] @ rest"
  from assms(1,2) obtain t t' off' tags' where *: "2 \<le> length rest"
      "t = from_be [rest ! 0, rest ! 1]" "vlan_loop ?buf t 14 0 = Ok (t', off', tags')"
      "h = \<lparr>eth_dst = take 6 macs, eth_src = drop 6 macs, eth_ethertype = t', eth_vlan_tags = tags'\<rparr>"
      "payload = drop off' ?buf"
    by (auto simp: ethernet_parse_def and_then_iffs need_iffs eth_consts slice_iffs slice_from_iffs
        nth_append drop_append)
  have d: "drop 18 ?tagged = drop 14 ?buf" using assms(1) by simp
  have off': "14 \<le> off'" "off' \<le> length ?buf" using vlan_loop_Ok [OF *(3)] assms(1) *(1) by auto
  have "vlan_loop ?tagged t 18 (0 + 1) = Ok (t', 18 + (off' - 14), tags' + 1)"
    by (rule vlan_loop_shift [OF *(3) d [symmetric]]) (use assms * in auto)
  moreover have "be16 ?tagged 16 = (Ok t :: (parse_error, u16) result)"
    using assms(1) *(1,2) by (simp add: nth_append)
  ultimately have "vlan_loop ?tagged ETHERTYPE_VLAN 14 0 = Ok (t', off' + 4, tags' + 1)"
    using off' assms(1) *(1)
    by (simp add: vlan_loop.simps [of _ ETHERTYPE_VLAN] need_def VLAN_TAG_LEN_def MAX_VLAN_TAGS_def)
  moreover have "be16 ?tagged 12 = (Ok ETHERTYPE_VLAN :: (parse_error, u16) result)"
    using assms(1) by (simp add: nth_append from_be_def ETHERTYPE_VLAN_def)
  moreover have "drop (off' + 4) ?tagged = drop off' ?buf"
  proof -
    have "off' + 4 = off' - 14 + 18" "off' = off' - 14 + 14" using off' by simp_all
    then show ?thesis using d by (metis drop_drop)
  qed
  ultimately show ?thesis using assms(1) *(1,4,5) off'
    by (simp add: ethernet_parse_def need_def ETH_HEADER_LEN_def MAC_LEN_def del: append_Cons)
qed

lemma parse_tagged:
  assumes "length macs = 12" "fr_data fr = macs @ rest"
    and "ethernet_parse (macs @ rest) = Ok (h, payload)" "unat (eth_vlan_tags h) < 2"
  shows "parse LinkEthernet (fr\<lparr>fr_data := macs @ [0x81, 0x00, a, b] @ rest\<rparr>) = parse LinkEthernet fr"
  using assms ethernet_parse_tag [OF assms(1,3,4), of a b]
  by (simp add: parse_def parse_link_def)

section \<open>Padding after an IPv4 packet\<close>

lemma ipv4_parse_padding:
  assumes "ipv4_parse buf = Ok (h, payload)" "unat (from_be [buf ! 2, buf ! 3] :: u16) \<le> length buf"
  shows "ipv4_parse (buf @ pad) = Ok (h, payload)"
proof -
  have app: "(buf @ pad) ! i = buf ! i" if "i < length buf" for i using that by (simp add: nth_append)
  from assms(1) have len: "20 \<le> length buf" "unat (buf ! 0 AND 0x0F) * 4 \<le> length buf"
    by (auto simp: ipv4_parse_def and_then_iffs need_iffs IPV4_MIN_HEADER_LEN_def idx_iffs Let_def split: if_splits)
  with assms app show ?thesis
    by (auto simp: ipv4_parse_def and_then_iffs need_iffs IPV4_MIN_HEADER_LEN_def idx_iffs slice_def Let_def
        split: if_splits)
qed

section \<open>IPv6 extension headers\<close>

text \<open>
  \<open>ext_chain packet h offset k h' offset'\<close>: from \<open>offset\<close>, with \<open>h\<close> the header so far, there
  are \<open>k\<close> complete extension headers, and they lead to \<open>offset'\<close> and \<open>h'\<close>.
\<close>

inductive ext_chain :: "bytes \<Rightarrow> ip_header \<Rightarrow> usize \<Rightarrow> nat \<Rightarrow> ip_header \<Rightarrow> usize \<Rightarrow> bool" for packet where
  none: "ext_chain packet h offset 0 h offset"
| more: "ext_step packet h offset = Ok (Some (g, len)) \<Longrightarrow> offset + len \<le> length packet \<Longrightarrow>
     ext_chain packet (g\<lparr>ip_proto := packet ! offset\<rparr>) (offset + len) k h' offset' \<Longrightarrow>
     ext_chain packet h offset (Suc k) h' offset'"

inductive_simps ext_chain_0: "ext_chain packet h offset 0 h' offset'"
inductive_simps ext_chain_Suc: "ext_chain packet h offset (Suc k) h' offset'"

definition ext_ends :: "bytes \<Rightarrow> ip_header \<Rightarrow> usize \<Rightarrow> nat \<Rightarrow> ip_header \<Rightarrow> bytes \<Rightarrow> bool" where
  "ext_ends packet h offset k h' rest \<longleftrightarrow>
     (\<exists>offset'. ext_chain packet h offset k h' offset' \<and> ext_step packet h' offset' = Ok None \<and>
        rest = drop offset' packet)"

lemma ext_ends_0: "ext_ends packet h offset 0 h' rest \<longleftrightarrow>
  ext_step packet h offset = Ok None \<and> h' = h \<and> rest = drop offset packet"
  by (auto simp: ext_ends_def ext_chain_0)

lemma ext_ends_Suc: "ext_ends packet h offset (Suc k) h' rest \<longleftrightarrow>
  (\<exists>g len. ext_step packet h offset = Ok (Some (g, len)) \<and> offset + len \<le> length packet \<and>
     ext_ends packet (g\<lparr>ip_proto := packet ! offset\<rparr>) (offset + len) k h' rest)"
  by (auto simp: ext_ends_def ext_chain_Suc)

lemma ext_loop_Suc_Some:
  "ext_step packet h offset = Ok (Some (g, len)) \<Longrightarrow> offset + len \<le> length packet \<Longrightarrow>
   ext_loop (Suc n) packet h offset = ext_loop n packet (g\<lparr>ip_proto := packet ! offset\<rparr>) (offset + len)"
  by (auto simp: need_def dest: ext_step_Some)

lemma ext_loop_Ok_iff:
  "offset \<le> length packet \<Longrightarrow>
   ext_loop n packet h offset = Ok (h', rest) \<longleftrightarrow> (\<exists>k<n. ext_ends packet h offset k h' rest)"
proof (induction n arbitrary: h offset)
  case 0
  then show ?case by simp
next
  case (Suc n)
  consider "ext_step packet h offset = Ok None"
    | g len where "ext_step packet h offset = Ok (Some (g, len))" "offset + len \<le> length packet"
    | g len where "ext_step packet h offset = Ok (Some (g, len))" "\<not> offset + len \<le> length packet"
    | e where "ext_step packet h offset = Err e"
    using ext_step_not_panic by (cases "ext_step packet h offset") fastforce+
  then show ?case
  proof cases
    case 2
    then show ?thesis
      by (simp only: Ex_less_Suc2 ext_ends_0 ext_ends_Suc ext_loop_Suc_Some Suc.IH) simp
  qed (use Suc.prems in \<open>auto simp: Ex_less_Suc2 ext_ends_0 ext_ends_Suc need_def\<close>)
qed


lemma ext_loop_too_many:
  "ext_chain packet h offset n h' offset' \<Longrightarrow>
   ext_loop n packet h offset = Err (Malformed Ipv6 ''too many extension headers'')"
proof (induction rule: ext_chain.induct)
  case (more h offset g len k h' offset')
  then show ?case by (simp only: ext_loop_Suc_Some)
qed simp

definition ipv6_packet :: "bytes \<Rightarrow> bytes" where
  "ipv6_packet buf = take (min (40 + unat (from_be [buf ! 4, buf ! 5] :: u16)) (length buf)) buf"

definition ipv6_fixed_header :: "bytes \<Rightarrow> ip_header" where
  "ipv6_fixed_header buf =
     \<lparr>ip_src = V6 (take 16 (drop 8 buf)), ip_dst = V6 (take 16 (drop 24 buf)), ip_proto = buf ! 6,
      ip_ttl = buf ! 7, more_fragments = False, fragment_offset = 0\<rparr>"

lemma ipv6_parse_loop:
  "40 \<le> length buf \<Longrightarrow> drop_bit 4 (buf ! 0) = 6 \<Longrightarrow>
   ipv6_parse buf = ext_loop MAX_EXTENSION_HEADERS (ipv6_packet buf) (ipv6_fixed_header buf) 40"
  by (auto simp: ipv6_parse_def need_def idx_def IPV6_HEADER_LEN_def addr_at_def ipv6_packet_def
      ipv6_fixed_header_def Let_def min_def)

lemma ipv6_parse_Ok_iff:
  "ipv6_parse buf = Ok (h, rest) \<longleftrightarrow>
   40 \<le> length buf \<and> drop_bit 4 (buf ! 0) = 6 \<and>
   (\<exists>k\<le>7. ext_ends (ipv6_packet buf) (ipv6_fixed_header buf) 40 k h rest)"
proof (cases "40 \<le> length buf \<and> drop_bit 4 (buf ! 0) = 6")
  case True
  then have "40 \<le> length (ipv6_packet buf)" by (simp add: ipv6_packet_def)
  then show ?thesis
    using True less_Suc_eq_le [where n = 7]
    by (simp add: ipv6_parse_loop ext_loop_Ok_iff MAX_EXTENSION_HEADERS_def)
next
  case False
  then show ?thesis
    by (auto simp: ipv6_parse_def need_iffs and_then_iffs idx_iffs IPV6_HEADER_LEN_def split: if_splits)
qed

section \<open>The contract of a parser\<close>

text \<open>What every layer's parser promises the next: it never panics, and an error it returns does not
  claim more octets than the buffer has.\<close>

locale layer_parser =
  fixes parser :: "bytes \<Rightarrow> (parse_error, 'a) result"
  assumes total: "parser buf \<noteq> Panic" and honest: "parser buf = Err e \<Longrightarrow> error_honest (length buf) e"
begin

lemma outcome: "case parser buf of Ok _ \<Rightarrow> True | Err e \<Rightarrow> error_honest (length buf) e | Panic \<Rightarrow> False"
  using total honest by (auto split: result.splits)

lemma empty: "parser [] = Err (Truncated l want have) \<Longrightarrow> have = 0 \<and> 0 < want"
  using honest [of "[]"] by fastforce

end

interpretation ethernet: layer_parser ethernet_parse
  by unfold_locales (simp_all add: panic_free ethernet_parse_honest)

interpretation ipv4: layer_parser ipv4_parse
  by unfold_locales (auto simp: panic_free dest: ipv4_parse_honest)

interpretation ipv6: layer_parser ipv6_parse
  by unfold_locales (auto simp: panic_free dest: ipv6_parse_honest)

interpretation tcp: layer_parser tcp_parse
  by unfold_locales (auto simp: panic_free dest: l4_honest)

interpretation udp: layer_parser udp_parse
  by unfold_locales (auto simp: panic_free dest: l4_honest)

interpretation icmp: layer_parser "\<lambda>buf. icmp_parse buf v6" for v6
  by unfold_locales (auto simp: panic_free dest: l4_honest)

interpretation dns_layer: layer_parser dns_parse
  by unfold_locales (auto simp: panic_free dest: dns_parse_honest)

section \<open>Properties\<close>

text \<open>C1. Parsing any frame on any link is safe and its result is well formed: it never panics; an
  error never claims more octets available than the frame has; a packet keeps the frame's time and
  wire length, its addresses have the length of their family and agree in family, its transport
  is that of the protocol number (or a later fragment exactly when the offset is not zero), and
  it has DNS data only over UDP port 53.\<close>

theorem parse_sound:
  "case parse link f of
     Ok p \<Rightarrow> packet_wf p \<and> pk_ts_us p = fr_ts_us f \<and> pk_wire_len p = fr_wire_len f
   | Err e \<Rightarrow> error_honest (length (fr_data f)) e
   | Panic \<Rightarrow> False"
  using parse_not_panic [of link f] parse_honest [of link f] parse_wf [of link f]
  by (auto split: result.splits)

text \<open>Each layer's parser is total and honest on any bytes.\<close>

theorem layer_parsers_sound:
  "(case ethernet_parse buf of Ok _ \<Rightarrow> True | Err e \<Rightarrow> error_honest (length buf) e | Panic \<Rightarrow> False) \<and>
   (case ipv4_parse buf of Ok _ \<Rightarrow> True | Err e \<Rightarrow> error_honest (length buf) e | Panic \<Rightarrow> False) \<and>
   (case ipv6_parse buf of Ok _ \<Rightarrow> True | Err e \<Rightarrow> error_honest (length buf) e | Panic \<Rightarrow> False) \<and>
   (case tcp_parse buf of Ok _ \<Rightarrow> True | Err e \<Rightarrow> error_honest (length buf) e | Panic \<Rightarrow> False) \<and>
   (case udp_parse buf of Ok _ \<Rightarrow> True | Err e \<Rightarrow> error_honest (length buf) e | Panic \<Rightarrow> False) \<and>
   (case icmp_parse buf v6 of Ok _ \<Rightarrow> True | Err e \<Rightarrow> error_honest (length buf) e | Panic \<Rightarrow> False)"
  using ethernet.outcome [of buf] ipv4.outcome [of buf] ipv6.outcome [of buf] tcp.outcome [of buf]
    udp.outcome [of buf] icmp.outcome [of buf v6] by blast

text \<open>C31. VLAN tags are transparent: putting one more 802.1Q tag in front of an Ethernet frame that
  parses with fewer than two tags leaves the parsed packet the same.\<close>

theorem vlan_tag_transparent:
  assumes "length macs = 12" and "fr_data fr = macs @ rest"
    and "ethernet_parse (macs @ rest) = Ok (h, payload)" and "unat (eth_vlan_tags h) < 2"
  shows "parse LinkEthernet (fr\<lparr>fr_data := macs @ [0x81, 0x00, a, b] @ rest\<rparr>) = parse LinkEthernet fr"
  by (rule parse_tagged [OF assms])

lemma vlan_tag_transparent_witness:
  "parse LinkEthernet \<lparr>fr_ts_us = 1, fr_wire_len = 18,
     fr_data = [0, 0, 0, 0, 0, 0, 0, 0, 0, 0, 0, 0] @ [0x81, 0x00, 0, 7] @ [0x88, 0xCC]\<rparr> =
   parse LinkEthernet \<lparr>fr_ts_us = 1, fr_wire_len = 18,
     fr_data = [0, 0, 0, 0, 0, 0, 0, 0, 0, 0, 0, 0] @ [0x88, 0xCC]\<rparr>"
proof -
  let ?macs = "[0, 0, 0, 0, 0, 0, 0, 0, 0, 0, 0, 0]"
  let ?h = "\<lparr>eth_dst = [0, 0, 0, 0, 0, 0], eth_src = [0, 0, 0, 0, 0, 0], eth_ethertype = 0x88CC, eth_vlan_tags = 0\<rparr>"
  have "ethernet_parse (?macs @ [0x88, 0xCC]) = Ok (?h, [])"
    by (simp add: ethernet_parse_def eth_consts need_def vlan_loop.simps from_be_def)
  from vlan_tag_transparent [OF _ _ this, of "\<lparr>fr_ts_us = 1, fr_wire_len = 18, fr_data = ?macs @ [0x88, 0xCC]\<rparr>" 0 7]
  show ?thesis by simp
qed

text \<open>Link-layer padding after an IPv4 packet is ignored: octets beyond its total length change
  neither the header nor the payload.\<close>

theorem ipv4_padding_ignored:
  assumes "ipv4_parse buf = Ok (h, payload)" and "unat (from_be [buf ! 2, buf ! 3] :: u16) \<le> length buf"
  shows "ipv4_parse (buf @ pad) = Ok (h, payload)"
  by (rule ipv4_parse_padding [OF assms])

definition sample_ipv4 :: bytes where
  "sample_ipv4 = [0x45, 0, 0, 21, 0, 0, 0, 0, 64, 17, 0, 0, 10, 0, 0, 1, 10, 0, 0, 2, 0xAB]"

lemma ipv4_padding_ignored_witness:
  "\<exists>h. ipv4_parse (sample_ipv4 @ [0, 0, 0]) = Ok (h, [0xAB])"
proof -
  have "\<exists>h. ipv4_parse sample_ipv4 = Ok (h, [0xAB])"
    by (simp add: sample_ipv4_def ipv4_parse_def need_def IPV4_MIN_HEADER_LEN_def Let_def from_be_def
        be16_def)
  then obtain h where h: "ipv4_parse sample_ipv4 = Ok (h, [0xAB])" by blast
  have "unat (from_be [sample_ipv4 ! 2, sample_ipv4 ! 3] :: u16) \<le> length sample_ipv4"
    by (simp add: sample_ipv4_def from_be_def)
  from ipv4_padding_ignored [OF h this, of "[0, 0, 0]"] show ?thesis by blast
qed


end
