(* ===== verification/Window.thy ===== *)
theory Window
  imports Prelude "HOL-Library.AList"
begin

text \<open>
  The sliding windows of \<open>core/src/rules/window.rs\<close>: the number of distinct keys, and the number
  of events, seen in the last \<open>window_us\<close> microseconds.  The locale \<open>sliding_window\<close> is what the
  rules rely on; both windows are interpretations of it.
\<close>

definition MAX_EVENTS_PER_SOURCE :: usize where
  "MAX_EVENTS_PER_SOURCE = 65536"

section \<open>Distinct keys\<close>

text \<open>The \<open>VecDeque\<close> is a list with its front first, the \<open>HashMap\<close> an association list.\<close>

record 'k distinct_window =
  dw_events :: "(u64 \<times> 'k) list"
  dw_counts :: "('k \<times> u32) list"

definition dw_new :: "'k distinct_window" where
  "dw_new = \<lparr>dw_events = [], dw_counts = []\<rparr>"

definition dw_pop_oldest :: "'k distinct_window \<Rightarrow> 'k distinct_window" where
  "dw_pop_oldest w =
     (case dw_events w of
        [] \<Rightarrow> w
      | (_, key) # rest \<Rightarrow>
          w\<lparr>dw_events := rest,
            dw_counts :=
              (case map_of (dw_counts w) key of
                 None \<Rightarrow> dw_counts w
               | Some n \<Rightarrow>
                   if n - 1 = 0 then AList.delete key (dw_counts w)
                   else AList.update key (n - 1) (dw_counts w))\<rparr>)"

lemma dw_events_pop [simp]: "dw_events (dw_pop_oldest w) = tl (dw_events w)"
  by (auto simp: dw_pop_oldest_def split: list.splits)

function dw_evict_before :: "'k distinct_window \<Rightarrow> u64 \<Rightarrow> 'k distinct_window" where
  "dw_evict_before w cutoff =
     (case dw_events w of
        (ts, _) # _ \<Rightarrow> if ts < cutoff then dw_evict_before (dw_pop_oldest w) cutoff else w
      | [] \<Rightarrow> w)"
  by auto
termination
  by (relation "measure (\<lambda>(w, _). length (dw_events w))") auto

declare dw_evict_before.simps [simp del]

definition dw_add :: "'k distinct_window \<Rightarrow> u64 \<Rightarrow> 'k \<Rightarrow> u64 \<Rightarrow> 'k distinct_window \<times> usize" where
  "dw_add w ts key window =
     (let w = dw_evict_before w (saturating_sub ts window);
          w = (if length (dw_events w) = MAX_EVENTS_PER_SOURCE then dw_pop_oldest w else w);
          w = w\<lparr>dw_events := dw_events w @ [(ts, key)],
                dw_counts := AList.update key
                  ((case map_of (dw_counts w) key of None \<Rightarrow> 0 | Some n \<Rightarrow> n) + 1) (dw_counts w)\<rparr>
      in (w, length (dw_counts w)))"

section \<open>Events\<close>

type_synonym count_window = "u64 list"

definition cw_new :: count_window where
  "cw_new = []"

definition cw_add :: "count_window \<Rightarrow> u64 \<Rightarrow> u64 \<Rightarrow> count_window \<times> usize" where
  "cw_add w ts window =
     (let cutoff = saturating_sub ts window;
          w = dropWhile (\<lambda>t. t < cutoff) w;
          w = (if length w = MAX_EVENTS_PER_SOURCE then tl w else w);
          w = w @ [ts]
      in (w, length w))"

section \<open>The contract\<close>

text \<open>
  One step of a window on the list of its events, and the events that a run over a whole
  sequence should leave: the last \<open>65536\<close> of those within the window of the last one.
\<close>

definition window_step :: "u64 \<Rightarrow> (u64 \<times> 'k) list \<Rightarrow> u64 \<times> 'k \<Rightarrow> (u64 \<times> 'k) list" where
  "window_step window es e =
     (let es = dropWhile (\<lambda>(t, _). t < saturating_sub (fst e) window) es;
          es = (if length es = MAX_EVENTS_PER_SOURCE then tl es else es)
      in es @ [e])"

definition last_n :: "nat \<Rightarrow> 'a list \<Rightarrow> 'a list" where
  "last_n n xs = drop (length xs - n) xs"

definition in_window :: "u64 \<Rightarrow> (u64 \<times> 'k) list \<Rightarrow> (u64 \<times> 'k) list" where
  "in_window window es =
     last_n MAX_EVENTS_PER_SOURCE
       (filter (\<lambda>(t, _). saturating_sub (fst (last es)) window \<le> t) es)"

lemma MAX_EVENTS_pos: "0 < MAX_EVENTS_PER_SOURCE"
  by (simp add: MAX_EVENTS_PER_SOURCE_def)

lemma saturating_sub_mono: "a \<le> b \<Longrightarrow> saturating_sub a c \<le> saturating_sub b c"
  by (simp add: word_le_nat_alt unat_saturating_sub)

lemma saturating_sub_le: "saturating_sub a c \<le> a"
  by (simp add: word_le_nat_alt unat_saturating_sub)

lemma dropWhile_less_filter:
  "sorted (map fst es) \<Longrightarrow> dropWhile (\<lambda>(t, _). t < c) es = filter (\<lambda>(t, _). c \<le> t) es"
proof (induction es)
  case (Cons e es)
  show ?case
  proof (cases "fst e < c")
    case True
    with Cons show ?thesis by (auto split: prod.splits)
  next
    case False
    with Cons.prems have "filter (\<lambda>(t, _). c \<le> t) es = es"
      by (intro filter_True) (auto simp: not_less intro: order.trans)
    with False show ?thesis by (auto split: prod.splits)
  qed
qed simp

lemma filter_drop_sorted:
  "sorted (map fst es) \<Longrightarrow>
   filter (\<lambda>(t, _). c \<le> t) (last_n m es) = last_n m (filter (\<lambda>(t, _). c \<le> t) es)"
proof (induction es)
  case Nil
  then show ?case by (simp add: last_n_def)
next
  case (Cons e es)
  show ?case
  proof (cases "fst e < c")
    case True
    with Cons show ?thesis
      by (cases "length es < m") (auto simp: last_n_def Suc_diff_le not_less split: prod.splits)
  next
    case False
    then have all: "\<forall>x \<in> set (e # es). c \<le> fst x"
      using Cons.prems by (auto simp: not_less intro: order.trans)
    then have "filter (\<lambda>(t, _). c \<le> t) (e # es) = e # es"
      by (intro filter_True) fastforce
    moreover have "filter (\<lambda>(t, _). c \<le> t) (last_n m (e # es)) = last_n m (e # es)"
      using all by (intro filter_True) (fastforce simp: last_n_def dest!: in_set_dropD)
    ultimately show ?thesis by simp
  qed
qed

lemma last_n_snoc:
  "0 < n \<Longrightarrow> last_n n (xs @ [x]) = (if length (last_n n xs) = n then tl (last_n n xs) else last_n n xs) @ [x]"
  by (auto simp: last_n_def Suc_diff_le tl_drop drop_Suc [symmetric] drop_tl)

lemma window_step_in_window:
  assumes "sorted (map fst (es @ [e]))"
  shows "window_step window (in_window window es) e = in_window window (es @ [e])"
proof (cases "es = []")
  case True
  then show ?thesis
    by (cases e) (simp add: window_step_def in_window_def last_n_def MAX_EVENTS_PER_SOURCE_def saturating_sub_le)
next
  case False
  let ?c = "saturating_sub (fst (last es)) window"
  let ?c' = "saturating_sub (fst e) window"
  have s: "sorted (map fst es)" and "fst (last es) \<le> fst e"
    using assms False by (auto simp: sorted_append)
  then have le: "?c \<le> ?c'" by (simp add: saturating_sub_mono)
  have "sorted (map fst (in_window window es))"
    using s by (auto simp: in_window_def last_n_def drop_map [symmetric] intro!: sorted_wrt_drop sorted_filter)
  then have "dropWhile (\<lambda>(t, _). t < ?c') (in_window window es) =
      filter (\<lambda>(t, _). ?c' \<le> t) (in_window window es)"
    by (rule dropWhile_less_filter)
  also have "\<dots> = last_n MAX_EVENTS_PER_SOURCE (filter (\<lambda>(t, _). ?c' \<le> t) (filter (\<lambda>(t, _). ?c \<le> t) es))"
    unfolding in_window_def using s by (intro filter_drop_sorted sorted_filter)
  also have "filter (\<lambda>(t, _). ?c' \<le> t) (filter (\<lambda>(t, _). ?c \<le> t) es) = filter (\<lambda>(t, _). ?c' \<le> t) es"
    using le by (auto simp: filter_filter intro!: filter_cong)
  finally have "window_step window (in_window window es) e =
      last_n MAX_EVENTS_PER_SOURCE (filter (\<lambda>(t, _). ?c' \<le> t) es @ [e])"
    by (simp add: window_step_def last_n_snoc MAX_EVENTS_pos)
  then show ?thesis
    by (simp add: in_window_def saturating_sub_le split: prod.splits)
qed

lemma window_step_bounded:
  "length es \<le> MAX_EVENTS_PER_SOURCE \<Longrightarrow> length (window_step window es e) \<le> MAX_EVENTS_PER_SOURCE"
proof -
  assume "length es \<le> MAX_EVENTS_PER_SOURCE"
  then have "length (dropWhile (\<lambda>(t, _). t < saturating_sub (fst e) window) es) \<le> MAX_EVENTS_PER_SOURCE"
    by (rule le_trans [OF length_dropWhile_le])
  then show ?thesis
    using MAX_EVENTS_pos by (auto simp: window_step_def Let_def)
qed

locale sliding_window =
  fixes new :: 'w and add :: "'w \<Rightarrow> u64 \<Rightarrow> 'k \<Rightarrow> u64 \<Rightarrow> 'w \<times> usize"
    and events :: "'w \<Rightarrow> (u64 \<times> 'k) list" and measured :: "(u64 \<times> 'k) list \<Rightarrow> nat"
    and inv :: "'w \<Rightarrow> bool"
  assumes inv_new: "inv new" and events_new: "events new = []"
    and events_bounded: "inv w \<Longrightarrow> length (events w) \<le> MAX_EVENTS_PER_SOURCE"
    and add: "inv w \<Longrightarrow> add w ts k window = (w', n) \<Longrightarrow>
      inv w' \<and> events w' = window_step window (events w) (ts, k) \<and> n = measured (events w')"
begin

definition run :: "u64 \<Rightarrow> (u64 \<times> 'k) list \<Rightarrow> 'w" where
  "run window es = foldl (\<lambda>w (ts, k). fst (add w ts k window)) new es"

lemma run_snoc: "run window (es @ [(ts, k)]) = fst (add (run window es) ts k window)"
  by (simp add: run_def)

lemma run_inv: "inv (run window es)"
proof (induction es rule: rev_induct)
  case (snoc e es)
  then show ?case by (cases e) (metis add prod.collapse run_snoc)
qed (simp add: run_def inv_new)

lemma run_in_order: "sorted (map fst es) \<Longrightarrow> events (run window es) = in_window window es"
proof (induction es rule: rev_induct)
  case Nil
  then show ?case by (simp add: run_def events_new in_window_def last_n_def)
next
  case (snoc e es)
  obtain ts k where e: "e = (ts, k)" by force
  from snoc have "events (run window es) = in_window window es" by (simp add: sorted_append)
  then show ?case
    using window_step_in_window [OF snoc.prems, of window]
      add [OF run_inv [of window es], of ts k window "run window (es @ [e])" "snd (add (run window es) ts k window)"]
    by (simp add: e run_snoc)
qed

lemma add_in_order:
  assumes "sorted (map fst (es @ [(ts, k)]))"
  shows "snd (add (run window es) ts k window) = measured (in_window window (es @ [(ts, k)]))"
  using add [OF run_inv [of window es], of ts k window "run window (es @ [(ts, k)])" "snd (add (run window es) ts k window)"]
    run_in_order [OF assms, of window]
  by (simp add: run_snoc)

end

section \<open>Both windows meet it\<close>

definition key_count :: "'k \<Rightarrow> (u64 \<times> 'k) list \<Rightarrow> nat" where
  "key_count k es = length (filter (\<lambda>(_, x). x = k) es)"

definition dw_inv :: "'k distinct_window \<Rightarrow> bool" where
  "dw_inv w \<longleftrightarrow>
     distinct (map fst (dw_counts w)) \<and> length (dw_events w) \<le> MAX_EVENTS_PER_SOURCE \<and>
     map_of (dw_counts w) =
       (\<lambda>k. if key_count k (dw_events w) = 0 then None else Some (of_nat (key_count k (dw_events w))))"

lemma key_count_simps [simp]:
  "key_count k [] = 0" "key_count k (e # es) = (if snd e = k then 1 else 0) + key_count k es"
  "key_count k (es @ fs) = key_count k es + key_count k fs"
  by (auto simp: key_count_def split: prod.splits)

lemma key_count_le: "key_count k es \<le> length es"
  by (simp add: key_count_def)

lemma key_count_eq_0: "key_count k es = 0 \<longleftrightarrow> k \<notin> snd ` set es"
  by (induction es) auto

lemma of_nat_u32_eq_0: "n \<le> MAX_EVENTS_PER_SOURCE \<Longrightarrow> (of_nat n :: u32) = 0 \<longleftrightarrow> n = 0"
  by (simp add: MAX_EVENTS_PER_SOURCE_def word_unat_eq_iff unat_of_nat)

lemma dw_inv_pop: "dw_inv w \<Longrightarrow> dw_inv (dw_pop_oldest w)"
proof (cases "dw_events w")
  case Nil
  then show "dw_inv w \<Longrightarrow> ?thesis" by (simp add: dw_pop_oldest_def)
next
  case (Cons e rest)
  obtain ts key where e: "e = (ts, key)" by force
  assume w: "dw_inv w"
  define n where "n = key_count key rest"
  have n: "n \<le> MAX_EVENTS_PER_SOURCE"
    using w Cons key_count_le [of key rest] by (simp add: dw_inv_def n_def)
  have m: "map_of (dw_counts w) key = Some (of_nat n + 1)"
    using w Cons e by (simp add: dw_inv_def n_def)
  show ?thesis
  proof (cases "n = 0")
    case True
    with w m Cons e show ?thesis
      by (auto simp: dw_inv_def dw_pop_oldest_def AList.distinct_delete AList.delete_conv' n_def fun_eq_iff)
  next
    case False
    then have "(of_nat n :: u32) \<noteq> 0" using n by (simp add: of_nat_u32_eq_0)
    with False w m Cons e show ?thesis
      by (auto simp: dw_inv_def dw_pop_oldest_def AList.distinct_update AList.update_conv' n_def fun_eq_iff)
  qed
qed

lemma dw_evict_events:
  "dw_events (dw_evict_before w cutoff) = dropWhile (\<lambda>(t, _). t < cutoff) (dw_events w)"
proof (induction w cutoff rule: dw_evict_before.induct)
  case (1 w cutoff)
  then show ?case
    by (subst dw_evict_before.simps) (auto split: list.splits)
qed

lemma dw_inv_evict: "dw_inv w \<Longrightarrow> dw_inv (dw_evict_before w cutoff)"
proof (induction w cutoff rule: dw_evict_before.induct)
  case (1 w cutoff)
  then show ?case
    by (subst dw_evict_before.simps) (auto simp: dw_inv_pop split: list.splits)
qed

lemma dw_length_counts: "dw_inv w \<Longrightarrow> length (dw_counts w) = card (snd ` set (dw_events w))"
proof -
  assume w: "dw_inv w"
  then have "dom (map_of (dw_counts w)) = snd ` set (dw_events w)"
    by (auto simp: dw_inv_def key_count_eq_0 dom_def split: if_splits)
  moreover have "length (dw_counts w) = card (fst ` set (dw_counts w))"
    using w distinct_card [of "map fst (dw_counts w)"] by (simp add: dw_inv_def)
  ultimately show ?thesis by (simp add: dom_map_of_conv_image_fst)
qed

lemma dw_add_step:
  assumes "dw_inv w" and "dw_add w ts key window = (w', n)"
  shows "dw_inv w' \<and> dw_events w' = window_step window (dw_events w) (ts, key) \<and>
    n = card (snd ` set (dw_events w'))"
proof -
  define w1 where "w1 = dw_evict_before w (saturating_sub ts window)"
  define w2 where "w2 = (if length (dw_events w1) = MAX_EVENTS_PER_SOURCE then dw_pop_oldest w1 else w1)"
  have w': "w' = w2\<lparr>dw_events := dw_events w2 @ [(ts, key)],
      dw_counts := AList.update key ((case map_of (dw_counts w2) key of None \<Rightarrow> 0 | Some n \<Rightarrow> n) + 1) (dw_counts w2)\<rparr>"
    and n: "n = length (dw_counts w')"
    using assms(2) by (auto simp: dw_add_def w1_def w2_def Let_def)
  have "dw_inv w1" using assms(1) by (simp add: w1_def dw_inv_evict)
  then have w2: "dw_inv w2" by (simp add: w2_def dw_inv_pop)
  have room: "length (dw_events w2) < MAX_EVENTS_PER_SOURCE"
    using \<open>dw_inv w1\<close> MAX_EVENTS_pos by (auto simp: w2_def dw_inv_def)
  have inv: "dw_inv w'"
    using w2 room by (auto simp: w' dw_inv_def AList.distinct_update AList.update_conv' fun_eq_iff split: if_splits)
  moreover have "dw_events w' = window_step window (dw_events w) (ts, key)"
    by (simp add: w' w2_def w1_def dw_evict_events window_step_def Let_def)
  ultimately show ?thesis using n dw_length_counts [OF inv] by simp
qed

definition unit_events :: "count_window \<Rightarrow> (u64 \<times> unit) list" where
  "unit_events w = map (\<lambda>t. (t, ())) w"

lemma cw_add_step:
  assumes "cw_add w ts window = (w', n)"
  shows "unit_events w' = window_step window (unit_events w) (ts, ()) \<and> n = length w'"
  using assms by (auto simp: cw_add_def Let_def unit_events_def window_step_def dropWhile_map comp_def map_tl)

interpretation distinct_win: sliding_window dw_new dw_add dw_events "\<lambda>es. card (snd ` set es)" dw_inv
  by unfold_locales (simp add: dw_new_def dw_inv_def fun_eq_iff, simp add: dw_new_def,
      simp add: dw_inv_def, erule (1) dw_add_step)

interpretation count_win: sliding_window cw_new "\<lambda>w ts _. cw_add w ts" unit_events "length"
    "\<lambda>w. length w \<le> MAX_EVENTS_PER_SOURCE"
proof (unfold_locales, goal_cases)
  case (4 w ts k window w' n)
  then show ?case
    using cw_add_step [OF 4(2)] window_step_bounded [of "unit_events w" window "(ts, ())"]
    by (metis (mono_tags, lifting) length_map old.unit.exhaust unit_events_def)
qed (auto simp: cw_new_def unit_events_def)

section \<open>Properties\<close>

text \<open>C18. The distinct window counts what it should: after events in time order, \<open>add\<close> returns the
  number of distinct keys among the last 65,536 events that are not older than the window.\<close>

theorem distinct_window_counts:
  assumes "sorted (map fst (es @ [(ts, k)]))"
  shows "snd (dw_add (foldl (\<lambda>w (t, x). fst (dw_add w t x window)) dw_new es) ts k window) =
    card (snd ` set (in_window window (es @ [(ts, k)])))"
  using distinct_win.add_in_order [OF assms, of window] by (simp add: distinct_win.run_def)

lemma distinct_window_counts_witness:
  "snd (dw_add (foldl (\<lambda>w (t, x). fst (dw_add w t x 10)) dw_new [(0, 1), (5, 2), (6, 2 :: nat)]) 12 3 10) = 2"
  using distinct_window_counts [of "[(0, 1), (5, 2), (6, 2 :: nat)]" 12 3 10]
  by (simp add: in_window_def last_n_def saturating_sub_def MAX_EVENTS_PER_SOURCE_def)

text \<open>In any order of time stamps, a window never holds more than 65,536 events, its \<open>u32\<close>
  counters hold exactly the multiplicity of each key (so they neither wrap nor go stale), and the
  events are those the step on the bare event list gives.\<close>

theorem distinct_window_invariant:
  "dw_inv (foldl (\<lambda>w (t, x). fst (dw_add w t x window)) dw_new es) \<and>
   dw_events (foldl (\<lambda>w (t, x). fst (dw_add w t x window)) dw_new es) = foldl (window_step window) [] es"
proof (induction es rule: rev_induct)
  case (snoc e es)
  obtain ts k where e: "e = (ts, k)" by force
  let ?w = "foldl (\<lambda>w (t, x). fst (dw_add w t x window)) dw_new es"
  from dw_add_step [of ?w ts k window "fst (dw_add ?w ts k window)" "snd (dw_add ?w ts k window)"] snoc
  show ?case by (simp add: e)
qed (simp add: dw_new_def dw_inv_def fun_eq_iff)

text \<open>The count window returns the number of events within the window, at most 65,536.\<close>

theorem count_window_counts:
  assumes "sorted (ts @ [t])"
  shows "snd (cw_add (foldl (\<lambda>w t. fst (cw_add w t window)) cw_new ts) t window) =
    min MAX_EVENTS_PER_SOURCE (length (filter (\<lambda>s. saturating_sub t window \<le> s) (ts @ [t])))"
proof -
  let ?es = "map (\<lambda>t. (t, ())) ts"
  have s: "sorted (map fst (?es @ [(t, ())]))" using assms by (simp add: comp_def)
  have "count_win.run window ?es = foldl (\<lambda>w t. fst (cw_add w t window)) cw_new ts"
    by (simp add: count_win.run_def foldl_map)
  with count_win.add_in_order [OF s, of window] show ?thesis
    by (simp add: in_window_def last_n_def filter_map comp_def saturating_sub_le)
qed

lemma count_window_counts_witness:
  "snd (cw_add (foldl (\<lambda>w t. fst (cw_add w t 10)) cw_new [0, 10]) 11 10) = 2"
  using count_window_counts [of "[0, 10]" 11 10]
  by (simp add: saturating_sub_def MAX_EVENTS_PER_SOURCE_def)

end
