(* ===== verification/Float64.thy ===== *)
theory Float64
  imports Prelude Complex_Main
begin

text \<open>
  The \<open>f64\<close> operations the program uses, on IEEE 754 binary64 values: a finite value is the
  rational it denotes, and \<open>+\<close>, \<open>*\<close>, \<open>/\<close> round the exact result to nearest, ties to even.  Zeros
  carry no sign (nothing in the program divides by a zero or prints one that could be negative)
  and there is one NaN.  \<open>log2\<close>, whose precision Rust leaves unspecified, is a parameter of the
  definitions that call it.
\<close>

datatype f64 = NaN | Inf bool | Fin rat  \<comment> \<open>\<open>Inf True\<close> is the positive infinity\<close>

section \<open>Rounding\<close>

text \<open>The exponent of a positive rational: \<open>2 powi e \<le> q < 2 powi (e + 1)\<close>.\<close>

fun bit_len :: "nat \<Rightarrow> nat" where
  "bit_len n = (if n = 0 then 0 else Suc (bit_len (n div 2)))"

declare bit_len.simps [simp del]

definition pow2 :: "int \<Rightarrow> rat" where
  "pow2 e = (if 0 \<le> e then 2 ^ nat e else 1 / 2 ^ nat (- e))"

definition exponent_of :: "rat \<Rightarrow> int" where
  "exponent_of q =
     (let (n, d) = quotient_of q; e = int (bit_len (nat n)) - int (bit_len (nat d))
      in if pow2 e \<le> q then e else e - 1)"

definition round_half_even :: "rat \<Rightarrow> int" where
  "round_half_even q =
     (let f = \<lfloor>q\<rfloor>; r = q - of_int f
      in if r < 1 / 2 then f else if 1 / 2 < r then f + 1 else if even f then f else f + 1)"

text \<open>53 bits of precision, exponents from \<open>-1022\<close> (below it the spacing stays \<open>2 ^ -1074\<close>).\<close>

definition spacing :: "rat \<Rightarrow> rat" where
  "spacing q = pow2 (max (exponent_of q) (- 1022) - 52)"

definition round_pos :: "rat \<Rightarrow> rat" where
  "round_pos q = of_int (round_half_even (q / spacing q)) * spacing q"

definition f64_round :: "rat \<Rightarrow> f64" where
  "f64_round q =
     (if q = 0 then Fin 0
      else let r = round_pos \<bar>q\<bar> in
        if r < pow2 1024 then Fin (if 0 < q then r else - r) else Inf (0 < q))"

section \<open>Operations\<close>

fun f64_neg :: "f64 \<Rightarrow> f64" where
  "f64_neg NaN = NaN"
| "f64_neg (Inf b) = Inf (\<not> b)"
| "f64_neg (Fin q) = Fin (- q)"

fun f64_add :: "f64 \<Rightarrow> f64 \<Rightarrow> f64" where
  "f64_add (Fin a) (Fin b) = f64_round (a + b)"
| "f64_add (Inf a) (Inf b) = (if a = b then Inf a else NaN)"
| "f64_add (Inf a) (Fin _) = Inf a"
| "f64_add (Fin _) (Inf b) = Inf b"
| "f64_add _ _ = NaN"

fun f64_mul :: "f64 \<Rightarrow> f64 \<Rightarrow> f64" where
  "f64_mul (Fin a) (Fin b) = f64_round (a * b)"
| "f64_mul (Inf a) (Inf b) = Inf (a = b)"
| "f64_mul (Inf a) (Fin b) = (if b = 0 then NaN else Inf (a = (0 < b)))"
| "f64_mul (Fin a) (Inf b) = (if a = 0 then NaN else Inf ((0 < a) = b))"
| "f64_mul _ _ = NaN"

fun f64_div :: "f64 \<Rightarrow> f64 \<Rightarrow> f64" where
  "f64_div (Fin a) (Fin b) =
     (if b = 0 then if a = 0 then NaN else Inf (0 < a) else f64_round (a / b))"
| "f64_div (Inf a) (Fin b) = Inf (a = (0 \<le> b))"
| "f64_div (Fin _) (Inf _) = Fin 0"
| "f64_div _ _ = NaN"

fun f64_less :: "f64 \<Rightarrow> f64 \<Rightarrow> bool" where
  "f64_less (Fin a) (Fin b) \<longleftrightarrow> a < b"
| "f64_less (Inf a) (Inf b) \<longleftrightarrow> \<not> a \<and> b"
| "f64_less (Inf a) (Fin _) \<longleftrightarrow> \<not> a"
| "f64_less (Fin _) (Inf b) \<longleftrightarrow> b"
| "f64_less _ _ \<longleftrightarrow> False"

fun f64_le :: "f64 \<Rightarrow> f64 \<Rightarrow> bool" where
  "f64_le (Fin a) (Fin b) \<longleftrightarrow> a \<le> b"
| "f64_le (Inf a) (Inf b) \<longleftrightarrow> \<not> a \<or> b"
| "f64_le (Inf a) (Fin _) \<longleftrightarrow> \<not> a"
| "f64_le (Fin _) (Inf b) \<longleftrightarrow> b"
| "f64_le _ _ \<longleftrightarrow> False"

fun is_finite :: "f64 \<Rightarrow> bool" where
  "is_finite (Fin _) = True"
| "is_finite _ = False"

text \<open>\<open>n as f64\<close>, \<open>f64::from(n)\<close>, and \<open>x as u64\<close>, which truncates and saturates.\<close>

definition f64_of_nat :: "nat \<Rightarrow> f64" where
  "f64_of_nat n = f64_round (of_nat n)"

fun f64_to_u64 :: "f64 \<Rightarrow> u64" where
  "f64_to_u64 NaN = 0"
| "f64_to_u64 (Inf b) = (if b then - 1 else 0)"
| "f64_to_u64 (Fin q) =
     (if q < 0 then 0 else if 2 ^ 64 \<le> \<lfloor>q\<rfloor> then - 1 else word_of_int \<lfloor>q\<rfloor>)"

text \<open>
  \<open>Display\<close>: the shortest decimal that reads back as the value, the one nearest to it where
  there are several, and without an exponent.  \<open>decimals\<close> tries the two neighbours with \<open>k\<close>
  digits after (for negative \<open>k\<close>: zeros before) the point.
\<close>

definition pow10 :: "int \<Rightarrow> rat" where
  "pow10 e = (if 0 \<le> e then 10 ^ nat e else 1 / 10 ^ nat (- e))"

definition decimals :: "rat \<Rightarrow> int \<Rightarrow> int list" where
  "decimals q k =
     (let lo = \<lfloor>q * pow10 k\<rfloor>; hi = lo + 1;
          near = (if q * pow10 k - of_int lo \<le> of_int hi - q * pow10 k then [lo, hi] else [hi, lo])
      in filter (\<lambda>m. f64_round (of_int m / pow10 k) = Fin q) near)"

fun shortest :: "nat \<Rightarrow> rat \<Rightarrow> int \<Rightarrow> int \<times> int" where
  "shortest 0 q k = (\<lfloor>q * pow10 k\<rfloor>, k)"
| "shortest (Suc fuel) q k = (case decimals q k of m # _ \<Rightarrow> (m, k) | [] \<Rightarrow> shortest fuel q (k + 1))"

definition show_decimal :: "int \<times> int \<Rightarrow> string" where
  "show_decimal = (\<lambda>(m, k).
     if k \<le> 0 then show_nat (nat m) @ (if m = 0 then '''' else replicate (nat (- k)) CHR ''0'')
     else
       let ds = show_nat (nat m);
           ds = replicate (Suc (nat k) - length ds) CHR ''0'' @ ds;
           n = length ds - nat k
       in take n ds @ CHR ''.'' # drop n ds)"

definition decimal_exponent :: "rat \<Rightarrow> int" where
  "decimal_exponent q = (\<lfloor>of_int (exponent_of q) * 30103 / 100000 :: rat\<rfloor>)"

fun show_f64 :: "f64 \<Rightarrow> string" where
  "show_f64 NaN = ''NaN''"
| "show_f64 (Inf b) = (if b then ''inf'' else ''-inf'')"
| "show_f64 (Fin q) =
     (if q = 0 then ''0''
      else (if q < 0 then ''-'' else '''') @
        show_decimal (shortest 20 \<bar>q\<bar> (- 1 - decimal_exponent \<bar>q\<bar>)))"

text \<open>
  \<open>Display\<close> with a precision, \<open>{:.n}\<close>: the value rounded to \<open>n\<close> decimals, ties to even.
\<close>

fun show_fixed :: "nat \<Rightarrow> f64 \<Rightarrow> string" where
  "show_fixed n NaN = ''NaN''"
| "show_fixed n (Inf b) = (if b then ''inf'' else ''-inf'')"
| "show_fixed n (Fin q) =
     (let ds = show_nat (nat (round_half_even (\<bar>q\<bar> * 10 ^ n)));
          ds = replicate (Suc n - length ds) CHR ''0'' @ ds;
          k = length ds - n
      in (if q < 0 then ''-'' else []) @ take k ds @ (if n = 0 then [] else CHR ''.'' # drop k ds))"

text \<open>\<open>f64::max\<close>, which prefers the operand that is a number.\<close>

definition f64_max :: "f64 \<Rightarrow> f64 \<Rightarrow> f64" where
  "f64_max a b = (if a = NaN then b else if b = NaN then a else if f64_less a b then b else a)"

section \<open>Integers below \<open>2 ^ 53\<close> are exact\<close>

lemma bit_len_bounds: "0 < n \<Longrightarrow> 2 ^ (bit_len n - 1) \<le> n \<and> n < 2 ^ bit_len n \<and> 0 < bit_len n"
proof (induction n rule: bit_len.induct)
  case (1 n)
  show ?case
  proof (cases "n = 1")
    case True
    have "bit_len 0 = 0" by (subst bit_len.simps) simp
    then have "bit_len n = 1" using True by (subst bit_len.simps) simp
    with True show ?thesis by simp
  next
    case False
    with 1 have IH: "2 ^ (bit_len (n div 2) - 1) \<le> n div 2" "n div 2 < 2 ^ bit_len (n div 2)"
      "0 < bit_len (n div 2)" by auto
    have b: "bit_len n = Suc (bit_len (n div 2))" using 1 by (subst bit_len.simps) simp
    have p: "(2::nat) ^ bit_len (n div 2) = 2 * 2 ^ (bit_len (n div 2) - 1)"
      using IH(3) by (cases "bit_len (n div 2)") simp_all
    show ?thesis using IH unfolding b by (simp add: p) linarith
  qed
qed

lemma bit_len_le: "0 < n \<Longrightarrow> n < 2 ^ k \<Longrightarrow> bit_len n \<le> k"
proof (rule ccontr)
  assume n: "0 < n" "n < 2 ^ k" and "\<not> bit_len n \<le> k"
  then have "k \<le> bit_len n - 1" by simp
  then have "(2::nat) ^ k \<le> 2 ^ (bit_len n - 1)" by (intro power_increasing) auto
  with bit_len_bounds [OF n(1)] n(2) show False by linarith
qed

lemma exponent_of_nat: "0 < n \<Longrightarrow> exponent_of (of_nat n) = int (bit_len n) - 1"
proof -
  assume n: "0 < n"
  have q: "quotient_of (of_nat n) = (int n, 1)"
    using quotient_of_int [of "int n"] by simp
  have "bit_len 0 = 0" by (subst bit_len.simps) simp
  then have one: "bit_len 1 = 1" by (subst bit_len.simps) simp
  have "pow2 (int (bit_len n) - 1) = of_nat (2 ^ (bit_len n - 1))"
    using bit_len_bounds [OF n] by (simp add: pow2_def nat_diff_distrib)
  also have "\<dots> \<le> of_nat n" using bit_len_bounds [OF n] by (simp only: of_nat_le_iff)
  finally show ?thesis using one by (simp add: exponent_of_def q)
qed

lemma f64_round_nat: "n < 2 ^ 53 \<Longrightarrow> f64_round (of_nat n) = Fin (of_nat n)"
proof (cases "n = 0")
  case True
  then show ?thesis by (simp add: f64_round_def)
next
  case False
  assume n: "n < 2 ^ 53"
  define s where "s = 53 - bit_len n"
  have b: "bit_len n \<le> 53" "0 < bit_len n"
    using False n bit_len_le [of n 53] bit_len_bounds [of n] by auto
  have "spacing (of_nat n) = pow2 (- int s)"
    using False b by (simp add: spacing_def exponent_of_nat s_def of_nat_diff max_def)
  also have "\<dots> = 1 / 2 ^ s" by (auto simp: pow2_def)
  finally have sp: "spacing (of_nat n) = 1 / 2 ^ s" .
  have "round_half_even (of_nat n * 2 ^ s) = int (n * 2 ^ s)"
  proof -
    have "of_nat n * 2 ^ s = (of_int (int (n * 2 ^ s)) :: rat)" by simp
    then show ?thesis unfolding round_half_even_def by (simp only: floor_of_int) simp
  qed
  then have r: "round_pos (of_nat n) = of_nat n"
    by (simp add: round_pos_def sp)
  have "(of_nat n :: rat) < of_nat (2 ^ 53)" using n by (simp only: of_nat_less_iff)
  also have "\<dots> \<le> pow2 1024" by (simp add: pow2_def)
  finally show ?thesis using False r by (simp add: f64_round_def)
qed

lemma f64_to_u64_nat: "n < 2 ^ 64 \<Longrightarrow> f64_to_u64 (Fin (of_nat n)) = of_nat n"
  using floor_of_nat [of n, where 'a = rat] by (simp add: not_le)

text \<open>A whole number of seconds becomes that many microseconds.\<close>

lemma micros_of_secs:
  "n * 1000000 < 2 ^ 53 \<Longrightarrow> f64_to_u64 (f64_mul (Fin (of_nat n)) (Fin 1000000)) = of_nat (n * 1000000)"
  using f64_round_nat [of "n * 1000000"] f64_to_u64_nat [of "n * 1000000"]
  by (simp del: f64_to_u64.simps)

end
