(* ===== verification/Rule_Loader.thy ===== *)
theory Rule_Loader
  imports Net_Types Float64
begin

text \<open>
  \<open>core/src/alert.rs\<close> and \<open>core/src/rules/loader.rs\<close>: severities, alerts, rule specifications, and
  the loading and validation of a rules file.  A \<open>String\<close> is the list of its UTF-8 bytes, so
  \<open>length\<close> is \<open>str::len\<close>.

  The YAML parser (\<open>serde_yaml::from_str\<close>) is the parameter \<open>yaml\<close>: it gives the file as
  written, with \<open>None\<close> for a field that is absent, or the text of its error.  The serde defaults of
  the source are \<open>with_defaults\<close>.  Reading the file is the parameter \<open>read_to_string\<close>.
\<close>

section \<open>Alerts\<close>

datatype severity = Low | Medium | High | Critical

fun severity_as_u32 :: "severity \<Rightarrow> u32" where
  "severity_as_u32 Low = 1"
| "severity_as_u32 Medium = 2"
| "severity_as_u32 High = 3"
| "severity_as_u32 Critical = 4"

datatype alert_source = SourceRule | SourceAnomaly

record alert =
  al_ts_us :: u64
  al_source :: alert_source
  al_severity :: severity
  al_rule_id :: string
  al_message :: string
  al_src :: "ip_addr option"
  al_score :: f64

section \<open>Rule specifications\<close>

definition SUPPORTED_VERSION :: u32 where "SUPPORTED_VERSION = 1"

definition DEFAULT_COOLDOWN_SECS :: f64 where "DEFAULT_COOLDOWN_SECS = Fin 60"

definition DEFAULT_MIN_LABEL_LEN :: usize where "DEFAULT_MIN_LABEL_LEN = 30"

definition DEFAULT_MIN_ENTROPY :: f64 where "DEFAULT_MIN_ENTROPY = Fin (7 / 2)"

definition MAX_RULE_ID_LEN :: usize where "MAX_RULE_ID_LEN = 63"

datatype rule_kind = PortScan | HostSweep | DnsTunnel | PacketRate

record rule_spec =
  rs_id :: string
  rs_kind :: rule_kind
  rs_severity :: severity
  rs_description :: string
  rs_window_secs :: f64
  rs_threshold :: u32
  rs_cooldown_secs :: f64
  rs_enabled :: bool
  rs_min_label_len :: usize
  rs_min_entropy :: f64

text \<open>A rule as it stands in the file; the optional fields may be missing.\<close>

record raw_rule =
  raw_id :: string
  raw_kind :: rule_kind
  raw_severity :: severity
  raw_description :: "string option"
  raw_window_secs :: f64
  raw_threshold :: u32
  raw_cooldown_secs :: "f64 option"
  raw_enabled :: "bool option"
  raw_min_label_len :: "usize option"
  raw_min_entropy :: "f64 option"

fun unwrap_or :: "'a option \<Rightarrow> 'a \<Rightarrow> 'a" where
  "unwrap_or (Some x) d = x"
| "unwrap_or None d = d"

definition with_defaults :: "raw_rule \<Rightarrow> rule_spec" where
  "with_defaults r =
     \<lparr>rs_id = raw_id r, rs_kind = raw_kind r, rs_severity = raw_severity r,
      rs_description = unwrap_or (raw_description r) '''',
      rs_window_secs = raw_window_secs r, rs_threshold = raw_threshold r,
      rs_cooldown_secs = unwrap_or (raw_cooldown_secs r) DEFAULT_COOLDOWN_SECS,
      rs_enabled = unwrap_or (raw_enabled r) True,
      rs_min_label_len = unwrap_or (raw_min_label_len r) DEFAULT_MIN_LABEL_LEN,
      rs_min_entropy = unwrap_or (raw_min_entropy r) DEFAULT_MIN_ENTROPY\<rparr>"

record rule_file =
  rf_version :: u32
  rf_rules :: "raw_rule list"

section \<open>Loading\<close>

datatype rule_error =
  RuleIo string
| RuleSyntax string
| RuleInvalid (re_rule: string) (re_reason: string)
| RuleVersion u32

fun show_rule_error :: "rule_error \<Rightarrow> string" where
  "show_rule_error (RuleIo e) = ''cannot read rules: '' @ e"
| "show_rule_error (RuleSyntax e) = ''rules yaml: '' @ e"
| "show_rule_error (RuleInvalid rule reason) = ''rule '' @ [CHR 0x27] @ rule @ [CHR 0x27] @ '': '' @ reason"
| "show_rule_error (RuleVersion v) =
     ''rules version '' @ show_nat (unat v) @ '' not supported (expected '' @
     show_nat (unat SUPPORTED_VERSION) @ '')''"

definition invalid :: "rule_spec \<Rightarrow> string \<Rightarrow> rule_error" where
  "invalid rule reason = RuleInvalid (rs_id rule) reason"

definition rule_validate :: "rule_spec \<Rightarrow> (rule_error, unit) result" where
  "rule_validate rule =
     (if rs_id rule = [] \<or> length (rs_id rule) > MAX_RULE_ID_LEN
      then Err (invalid rule ''id must be 1-63 characters'')
      else if \<not> (is_finite (rs_window_secs rule) \<and> f64_less (Fin 0) (rs_window_secs rule))
      then Err (invalid rule ''window_secs must be a positive number'')
      else if \<not> (is_finite (rs_cooldown_secs rule) \<and> f64_le (Fin 0) (rs_cooldown_secs rule))
      then Err (invalid rule ''cooldown_secs must be zero or positive'')
      else if rs_threshold rule = 0
      then Err (invalid rule ''threshold must be at least 1'')
      else if rs_kind rule = DnsTunnel \<and>
        \<not> (is_finite (rs_min_entropy rule) \<and> f64_le (Fin 0) (rs_min_entropy rule))
      then Err (invalid rule ''min_entropy must be zero or positive'')
      else Ok ())"

text \<open>The loop of \<open>parse\<close>, with the identifiers seen so far.\<close>

fun check_rules :: "string set \<Rightarrow> rule_spec list \<Rightarrow> (rule_error, unit) result" where
  "check_rules seen [] = Ok ()"
| "check_rules seen (rule # rules) =
     and_then (rule_validate rule) (\<lambda>_.
       if rs_id rule \<in> seen then Err (invalid rule ''duplicate id'')
       else check_rules (insert (rs_id rule) seen) rules)"

definition rules_parse ::
  "(string \<Rightarrow> (string, rule_file) result) \<Rightarrow> string \<Rightarrow> (rule_error, rule_spec list) result" where
  "rules_parse yaml text =
     and_then (map_err RuleSyntax (yaml text)) (\<lambda>file.
       if rf_version file \<noteq> SUPPORTED_VERSION then Err (RuleVersion (rf_version file))
       else
         let rules = List.map with_defaults (rf_rules file)
         in and_then (check_rules {} rules) (\<lambda>_. Ok rules))"

definition rules_load ::
  "('path \<Rightarrow> (string, string) result) \<Rightarrow> (string \<Rightarrow> (string, rule_file) result) \<Rightarrow> 'path \<Rightarrow>
   (rule_error, rule_spec list) result" where
  "rules_load read_to_string yaml path =
     and_then (map_err RuleIo (read_to_string path)) (\<lambda>text. rules_parse yaml text)"

section \<open>What a loaded rule satisfies\<close>

definition rule_valid :: "rule_spec \<Rightarrow> bool" where
  "rule_valid r \<longleftrightarrow>
     0 < length (rs_id r) \<and> length (rs_id r) \<le> MAX_RULE_ID_LEN \<and>
     (\<exists>w. rs_window_secs r = Fin w \<and> 0 < w) \<and> (\<exists>c. rs_cooldown_secs r = Fin c \<and> 0 \<le> c) \<and>
     0 < rs_threshold r \<and>
     (rs_kind r = DnsTunnel \<longrightarrow> (\<exists>m. rs_min_entropy r = Fin m \<and> 0 \<le> m))"

lemma finite_cases: "is_finite x \<and> P x \<longleftrightarrow> (\<exists>q. x = Fin q \<and> P (Fin q))"
  by (cases x) auto

lemma rule_validate_Ok: "rule_validate r = Ok () \<longleftrightarrow> rule_valid r"
  unfolding rule_validate_def rule_valid_def finite_cases by (auto simp: word_neq_0_conv)

lemma rule_validate_not_panic [panic_free]: "rule_validate r \<noteq> Panic"
  by (simp add: rule_validate_def)

lemma rule_validate_Err: "rule_validate r = Err e \<Longrightarrow> re_rule e = rs_id r \<and> e = RuleInvalid (rs_id r) (re_reason e)"
  by (auto simp: rule_validate_def invalid_def split: if_splits)

lemma check_rules_Ok:
  "check_rules seen rs = Ok () \<longleftrightarrow>
   (\<forall>r \<in> set rs. rule_valid r) \<and> distinct (List.map rs_id rs) \<and> rs_id ` set rs \<inter> seen = {}"
  by (induction rs arbitrary: seen) (auto simp: and_then_iffs rule_validate_Ok)

lemma check_rules_not_panic [panic_free]: "check_rules seen rs \<noteq> Panic"
  by (induction rs arbitrary: seen) (auto simp: and_then_iffs panic_free)

text \<open>The first rule that is wrong is the one reported.\<close>

lemma check_rules_Err:
  "check_rules seen rs = Err e \<Longrightarrow>
   \<exists>good r bad. rs = good @ r # bad \<and> (\<forall>g \<in> set good. rule_valid g) \<and>
     distinct (List.map rs_id good) \<and> rs_id ` set good \<inter> seen = {} \<and>
     (if rule_valid r then rs_id r \<in> rs_id ` set good \<union> seen \<and> e = invalid r ''duplicate id''
      else rule_validate r = Err e)"
proof (induction rs arbitrary: seen)
  case (Cons r rs)
  show ?case
  proof (cases "rule_valid r \<and> rs_id r \<notin> seen")
    case True
    then have "rule_validate r = Ok ()" by (simp add: rule_validate_Ok)
    with True Cons.prems have "check_rules (insert (rs_id r) seen) rs = Err e" by simp
    from Cons.IH [OF this] obtain good s bad where g: "rs = good @ s # bad" "\<forall>g \<in> set good. rule_valid g"
      "distinct (List.map rs_id good)" "rs_id ` set good \<inter> insert (rs_id r) seen = {}"
      "if rule_valid s then rs_id s \<in> rs_id ` set good \<union> insert (rs_id r) seen \<and> e = invalid s ''duplicate id''
       else rule_validate s = Err e"
      by blast
    show ?thesis
      using g True by (intro exI [of _ "r # good"] exI [of _ s] exI [of _ bad]) (auto split: if_splits)
  next
    case False
    then show ?thesis
      using Cons.prems rule_validate_Ok [of r]
      by (intro exI [of _ "[]"] exI [of _ r] exI [of _ rs])
        (auto simp: and_then_iffs split: if_splits)
  qed
qed simp

section \<open>Properties\<close>

text \<open>C21. A rules file is accepted exactly when the YAML parses, its version is 1, every rule
  (with the defaults filled in) is valid and no two rules share an identifier; the result is then
  the rules of the file in order.  Loading never panics.\<close>

theorem rules_parse_accepts:
  "(rules_parse yaml text = Ok rs \<longleftrightarrow>
    (\<exists>file. yaml text = Ok file \<and> rf_version file = SUPPORTED_VERSION \<and>
       rs = List.map with_defaults (rf_rules file) \<and> list_all rule_valid rs \<and>
       distinct (List.map rs_id rs))) \<and>
   (rules_parse yaml text = Panic \<longleftrightarrow> yaml text = Panic)"
  by (auto simp: rules_parse_def and_then_iffs check_rules_Ok check_rules_not_panic Let_def list_all_iff
      split: if_splits)

text \<open>C22. An invalid rules file is refused for its first wrong rule: the error names the identifier
  of the first rule that is invalid or repeats an earlier one, and the reason is that rule's own.\<close>

theorem rules_parse_first_error:
  assumes "rules_parse yaml text = Err (RuleInvalid name reason)"
  shows "\<exists>file good r bad. yaml text = Ok file \<and>
    List.map with_defaults (rf_rules file) = good @ r # bad \<and> list_all rule_valid good \<and>
    distinct (List.map rs_id good) \<and> rs_id r = name \<and>
    (if rule_valid r then name \<in> rs_id ` set good \<and> reason = ''duplicate id''
     else rule_validate r = Err (RuleInvalid name reason))"
proof -
  obtain f where f: "yaml text = Ok f"
    and err: "check_rules {} (List.map with_defaults (rf_rules f)) = Err (RuleInvalid name reason)"
    using assms by (auto simp: rules_parse_def and_then_iffs Let_def split: if_splits)
  from check_rules_Err [OF err, unfolded Un_empty_right] obtain good r bad where
    g: "List.map with_defaults (rf_rules f) = good @ r # bad" "\<forall>g \<in> set good. rule_valid g"
      "distinct (List.map rs_id good)"
      "if rule_valid r then rs_id r \<in> rs_id ` set good \<and> RuleInvalid name reason = invalid r ''duplicate id''
       else rule_validate r = Err (RuleInvalid name reason)"
    by blast
  moreover from g(4) have "rs_id r = name"
    by (auto simp: invalid_def dest!: rule_validate_Err split: if_splits)
  ultimately show ?thesis
    using f by (intro exI [of _ f] exI [of _ good] exI [of _ r] exI [of _ bad])
      (auto simp: list_all_iff invalid_def split: if_splits)
qed

definition sample_raw :: "string \<Rightarrow> rule_kind \<Rightarrow> u32 \<Rightarrow> raw_rule" where
  "sample_raw name kind n =
     \<lparr>raw_id = name, raw_kind = kind, raw_severity = High, raw_description = None,
      raw_window_secs = Fin 10, raw_threshold = n, raw_cooldown_secs = None, raw_enabled = None,
      raw_min_label_len = None, raw_min_entropy = None\<rparr>"

lemma rules_parse_first_error_witness:
  "\<exists>good r bad.
     List.map with_defaults [sample_raw ''a'' PortScan 5, sample_raw ''a'' HostSweep 0] = good @ r # bad \<and>
     list_all rule_valid good \<and> rs_id r = ''a'' \<and> \<not> rule_valid r"
proof -
  let ?rs = "[sample_raw ''a'' PortScan 5, sample_raw ''a'' HostSweep 0]"
  let ?yaml = "\<lambda>_ :: string. Ok \<lparr>rf_version = 1, rf_rules = ?rs\<rparr> :: (string, rule_file) result"
  have "rules_parse ?yaml '''' = Err (RuleInvalid ''a'' ''threshold must be at least 1'')"
    by (simp add: rules_parse_def SUPPORTED_VERSION_def sample_raw_def with_defaults_def rule_validate_def
        MAX_RULE_ID_LEN_def DEFAULT_COOLDOWN_SECS_def invalid_def)
  from rules_parse_first_error [OF this] show ?thesis
    by (auto split: if_splits)
qed

end
