(* ===== verification/Rule_Engine.thy ===== *)
theory Rule_Engine
  imports Packet Lru_Cache Window Rule_Loader
begin

text \<open>
  \<open>core/src/rules/engine.rs\<close> and \<open>core/src/rules/mod.rs\<close>: a compiled rule keeps, per source
  address, a window and the time it last fired; the rule engine evaluates every enabled rule on
  a packet.  The per-source store is an \<open>LruCache\<close>, used through \<open>lru_api\<close>, and \<open>log2\<close> is a
  parameter (see \<open>Float64\<close>).
\<close>

definition MAX_TRACKED_SOURCES :: usize where "MAX_TRACKED_SOURCES = 10000"

definition MICROS_PER_SEC :: f64 where "MICROS_PER_SEC = Fin 1000000"

definition LABEL_SEPARATOR :: char where "LABEL_SEPARATOR = CHR ''.''"

datatype tracker =
  TrackPorts "u16 distinct_window"
| TrackHosts "ip_addr distinct_window"
| TrackCount count_window

record source_state =
  ss_tracker :: tracker
  ss_last_fired_us :: "u64 option"

record 'c compiled_rule =
  cr_spec :: rule_spec
  cr_window_us :: u64
  cr_cooldown_us :: u64
  cr_sources :: 'c

datatype event = EPort u16 | EHost ip_addr | ETick

fun new_tracker :: "rule_kind \<Rightarrow> tracker" where
  "new_tracker PortScan = TrackPorts dw_new"
| "new_tracker HostSweep = TrackHosts dw_new"
| "new_tracker DnsTunnel = TrackCount cw_new"
| "new_tracker PacketRate = TrackCount cw_new"

definition compiled_rule_new ::
  "('c, ip_addr, source_state) lru_api \<Rightarrow> rule_spec \<Rightarrow> 'c compiled_rule" where
  "compiled_rule_new L spec =
     \<lparr>cr_spec = spec,
      cr_window_us = f64_to_u64 (f64_mul (rs_window_secs spec) MICROS_PER_SEC),
      cr_cooldown_us = f64_to_u64 (f64_mul (rs_cooldown_secs spec) MICROS_PER_SEC),
      cr_sources = lru_new L MAX_TRACKED_SOURCES\<rparr>"

section \<open>Entropy of a label\<close>

definition byte_freq :: "string \<Rightarrow> u32 list" where
  "byte_freq text =
     foldl (\<lambda>freq b. freq[of_char b := freq ! of_char b + 1]) (replicate 256 0) text"

definition shannon_entropy :: "(f64 \<Rightarrow> f64) \<Rightarrow> string \<Rightarrow> f64" where
  "shannon_entropy log2 text =
     (if text = [] then Fin 0
      else
        let len = f64_of_nat (length text)
        in foldl f64_add (Fin 0)
             (map (\<lambda>n. let p = f64_div (f64_of_nat (unat n)) len in f64_mul (f64_neg p) (log2 p))
               (filter (\<lambda>n. n > 0) (byte_freq text))))"

definition is_tunnel_like :: "(f64 \<Rightarrow> f64) \<Rightarrow> rule_spec \<Rightarrow> packet \<Rightarrow> bool" where
  "is_tunnel_like log2 spec packet =
     (case pk_app packet of
        AppDns info \<Rightarrow>
          if is_response info then False
          else (case question info of
              None \<Rightarrow> False
            | Some q \<Rightarrow>
                list_ex (\<lambda>label. length label \<ge> rs_min_label_len spec \<and>
                           f64_le (rs_min_entropy spec) (shannon_entropy log2 label))
                  (split_on LABEL_SEPARATOR (q_name q)))
      | _ \<Rightarrow> False)"

section \<open>Evaluation\<close>

text \<open>The \<open>match kind\<close> of \<open>observe\<close>; \<open>None\<close> is its \<open>return None\<close>.\<close>

definition event_of :: "(f64 \<Rightarrow> f64) \<Rightarrow> rule_spec \<Rightarrow> packet \<Rightarrow> ip_addr \<Rightarrow> event option" where
  "event_of log2 spec packet dst =
     (case rs_kind spec of
        PortScan \<Rightarrow>
          (case pk_transport packet of
             TransportTcp h \<Rightarrow> if is_syn_only h then Some (EPort (tcp_dst_port h)) else None
           | _ \<Rightarrow> None)
      | HostSweep \<Rightarrow> Some (EHost dst)
      | PacketRate \<Rightarrow> Some ETick
      | DnsTunnel \<Rightarrow> if \<not> is_tunnel_like log2 spec packet then None else Some ETick)"

fun tracker_add :: "tracker \<Rightarrow> u64 \<Rightarrow> event \<Rightarrow> u64 \<Rightarrow> (tracker \<times> usize) option" where
  "tracker_add (TrackPorts w) ts (EPort port) window = Some (apfst TrackPorts (dw_add w ts port window))"
| "tracker_add (TrackHosts w) ts (EHost host) window = Some (apfst TrackHosts (dw_add w ts host window))"
| "tracker_add (TrackCount w) ts ETick window = Some (apfst TrackCount (cw_add w ts window))"
| "tracker_add _ _ _ _ = None"

definition fresh_state :: "rule_kind \<Rightarrow> source_state" where
  "fresh_state kind = \<lparr>ss_tracker = new_tracker kind, ss_last_fired_us = None\<rparr>"

definition rule_observe ::
  "(f64 \<Rightarrow> f64) \<Rightarrow> ('c, ip_addr, source_state) lru_api \<Rightarrow> 'c compiled_rule \<Rightarrow> packet \<Rightarrow>
   ip_addr \<Rightarrow> ip_addr \<Rightarrow> 'c compiled_rule \<times> usize option" where
  "rule_observe log2 L rule packet src dst =
     (case event_of log2 (cr_spec rule) packet dst of
        None \<Rightarrow> (rule, None)
      | Some event \<Rightarrow>
          let (state, put) =
                lru_get_or_insert_mut L (cr_sources rule) src (fresh_state (rs_kind (cr_spec rule)))
          in case tracker_add (ss_tracker state) (pk_ts_us packet) event (cr_window_us rule) of
               None \<Rightarrow> (rule\<lparr>cr_sources := put state\<rparr>, None)
             | Some (tracker, observed) \<Rightarrow>
                 (rule\<lparr>cr_sources := put (state\<lparr>ss_tracker := tracker\<rparr>)\<rparr>, Some observed))"

fun kind_what :: "rule_kind \<Rightarrow> string" where
  "kind_what PortScan = ''distinct ports probed''"
| "kind_what HostSweep = ''distinct hosts contacted''"
| "kind_what DnsTunnel = ''high-entropy dns queries''"
| "kind_what PacketRate = ''packets''"

definition rule_alert :: "rule_spec \<Rightarrow> u64 \<Rightarrow> ip_addr \<Rightarrow> usize \<Rightarrow> alert" where
  "rule_alert spec ts src observed =
     \<lparr>al_ts_us = ts, al_source = SourceRule, al_severity = rs_severity spec, al_rule_id = rs_id spec,
      al_message = show_ip src @ '': '' @ show_nat observed @ '' '' @ kind_what (rs_kind spec) @
        '' in '' @ show_f64 (rs_window_secs spec) @ ''s'',
      al_src = Some src,
      al_score = f64_div (f64_of_nat observed) (f64_of_nat (unat (rs_threshold spec)))\<rparr>"

definition cooling :: "u64 option \<Rightarrow> u64 \<Rightarrow> u64 \<Rightarrow> bool" where
  "cooling fired cooldown ts = (case fired of None \<Rightarrow> False | Some l \<Rightarrow> ts < saturating_add l cooldown)"

definition rule_evaluate ::
  "(f64 \<Rightarrow> f64) \<Rightarrow> ('c, ip_addr, source_state) lru_api \<Rightarrow> 'c compiled_rule \<Rightarrow> packet \<Rightarrow>
   'c compiled_rule \<times> alert option" where
  "rule_evaluate log2 L rule packet =
     (case pk_ip packet of
        None \<Rightarrow> (rule, None)
      | Some ip \<Rightarrow>
          (case rule_observe log2 L rule packet (ip_src ip) (ip_dst ip) of
             (rule, None) \<Rightarrow> (rule, None)
           | (rule, Some observed) \<Rightarrow>
               if observed < unat (rs_threshold (cr_spec rule)) then (rule, None)
               else (case lru_get_mut L (cr_sources rule) (ip_src ip) of
                   None \<Rightarrow> (rule, None)
                 | Some (state, put) \<Rightarrow>
                     if cooling (ss_last_fired_us state) (cr_cooldown_us rule) (pk_ts_us packet)
                     then (rule\<lparr>cr_sources := put state\<rparr>, None)
                     else
                       (rule\<lparr>cr_sources := put (state\<lparr>ss_last_fired_us := Some (pk_ts_us packet)\<rparr>)\<rparr>,
                        Some (rule_alert (cr_spec rule) (pk_ts_us packet) (ip_src ip) observed)))))"

section \<open>The rule engine\<close>

type_synonym 'c rule_engine = "'c compiled_rule list"

definition rules_from_specs ::
  "('c, ip_addr, source_state) lru_api \<Rightarrow> rule_spec list \<Rightarrow> 'c rule_engine" where
  "rules_from_specs L specs = map (compiled_rule_new L) (filter rs_enabled specs)"

definition rules_from_yaml ::
  "('c, ip_addr, source_state) lru_api \<Rightarrow> (string \<Rightarrow> (string, rule_file) result) \<Rightarrow> string \<Rightarrow>
   (rule_error, 'c rule_engine) result" where
  "rules_from_yaml L yaml text = and_then (rules_parse yaml text) (\<lambda>specs. Ok (rules_from_specs L specs))"

definition rule_engine_load ::
  "('c, ip_addr, source_state) lru_api \<Rightarrow> ('path \<Rightarrow> (string, string) result) \<Rightarrow>
   (string \<Rightarrow> (string, rule_file) result) \<Rightarrow> 'path \<Rightarrow> (rule_error, 'c rule_engine) result" where
  "rule_engine_load L read_to_string yaml path =
     and_then (rules_load read_to_string yaml path) (\<lambda>specs. Ok (rules_from_specs L specs))"

definition rule_ids :: "'c rule_engine \<Rightarrow> string list" where
  "rule_ids rules = map (\<lambda>r. rs_id (cr_spec r)) rules"

text \<open>Every rule sees the packet, in order; the alerts are appended to \<open>out\<close>.\<close>

definition rules_evaluate ::
  "(f64 \<Rightarrow> f64) \<Rightarrow> ('c, ip_addr, source_state) lru_api \<Rightarrow> 'c rule_engine \<Rightarrow> packet \<Rightarrow> alert list \<Rightarrow>
   'c rule_engine \<times> alert list" where
  "rules_evaluate log2 L rules packet out =
     (let results = map (\<lambda>rule. rule_evaluate log2 L rule packet) rules
      in (map fst results, out @ List.map_filter snd results))"

section \<open>One source at a time\<close>

text \<open>What a packet does to the state of its source, and the alert it raises.\<close>

definition source_step ::
  "(f64 \<Rightarrow> f64) \<Rightarrow> rule_spec \<Rightarrow> packet \<Rightarrow> ip_header \<Rightarrow> source_state option \<Rightarrow>
   source_state option \<times> alert option" where
  "source_step log2 spec packet ip st =
     (case event_of log2 spec packet (ip_dst ip) of
        None \<Rightarrow> (st, None)
      | Some event \<Rightarrow>
          let state = unwrap_or st (fresh_state (rs_kind spec));
              ts = pk_ts_us packet;
              window = f64_to_u64 (f64_mul (rs_window_secs spec) MICROS_PER_SEC);
              cooldown = f64_to_u64 (f64_mul (rs_cooldown_secs spec) MICROS_PER_SEC)
          in case tracker_add (ss_tracker state) ts event window of
               None \<Rightarrow> (Some state, None)
             | Some (tracker, observed) \<Rightarrow>
                 let state = state\<lparr>ss_tracker := tracker\<rparr> in
                 if observed < unat (rs_threshold spec) \<or> cooling (ss_last_fired_us state) cooldown ts
                 then (Some state, None)
                 else (Some (state\<lparr>ss_last_fired_us := Some ts\<rparr>),
                       Some (rule_alert spec ts (ip_src ip) observed)))"

definition compiled :: "'c compiled_rule \<Rightarrow> rule_spec \<Rightarrow> bool" where
  "compiled rule spec \<longleftrightarrow>
     cr_spec rule = spec \<and>
     cr_window_us rule = f64_to_u64 (f64_mul (rs_window_secs spec) MICROS_PER_SEC) \<and>
     cr_cooldown_us rule = f64_to_u64 (f64_mul (rs_cooldown_secs spec) MICROS_PER_SEC)"

locale source_cache = lru api cap valid
  for api :: "('c, ip_addr, source_state) lru_api" and cap :: "'c \<Rightarrow> nat" and valid :: "'c \<Rightarrow> bool"
begin

abbreviation srcs :: "'c compiled_rule \<Rightarrow> (ip_addr \<times> source_state) list" where
  "srcs rule \<equiv> lru_iter api (cr_sources rule)"

lemma lookup_get_or_insert:
  assumes "valid c" and "lru_get_or_insert_mut api c k v0 = (v, put)"
    and "k \<in> fst ` set (lru_iter api c) \<or> length (lru_iter api c) < cap c"
  shows "v = unwrap_or (map_of (lru_iter api c) k) v0 \<and>
    (\<forall>v'. valid (put v') \<and> cap (put v') = cap c \<and>
      map_of (lru_iter api (put v')) = (map_of (lru_iter api c))(k \<mapsto> v'))"
  using get_or_insert_mut [OF assms(1,2)] assms(3)
  by (cases "map_of (lru_iter api c) k") (auto simp: add_front_def fun_eq_iff)

lemma lookup_get_mut:
  assumes "valid c" and "map_of (lru_iter api c) k = Some v"
  shows "\<exists>put. lru_get_mut api c k = Some (v, put) \<and>
    (\<forall>v'. valid (put v') \<and> cap (put v') = cap c \<and>
      map_of (lru_iter api (put v')) = (map_of (lru_iter api c))(k \<mapsto> v'))"
proof -
  have "k \<in> fst ` set (lru_iter api c)"
    using assms(2) by (metis domI dom_map_of_conv_image_fst)
  then obtain v1 put where p: "lru_get_mut api c k = Some (v1, put)"
    using get_mut_None [OF assms(1), of k] by auto
  from get_mut_Some [OF assms(1) p] assms(2) p show ?thesis by auto
qed

lemma evaluate_no_event:
  "pk_ip packet = Some ip \<Longrightarrow> event_of log2 (cr_spec rule) packet (ip_dst ip) = None \<Longrightarrow>
   rule_evaluate log2 api rule packet = (rule, None)"
  by (simp add: rule_evaluate_def rule_observe_def)

text \<open>
  While there is room for the source, evaluation is \<open>source_step\<close> on the entry of the source
  and leaves every other source alone.
\<close>

lemma evaluate_source:
  assumes v: "valid (cr_sources rule)" and spec: "compiled rule spec"
    and ip: "pk_ip packet = Some ip"
    and room: "ip_src ip \<in> fst ` set (srcs rule) \<or> length (srcs rule) < cap (cr_sources rule)"
    and ev: "rule_evaluate log2 api rule packet = (rule', out)"
  shows "valid (cr_sources rule') \<and> cap (cr_sources rule') = cap (cr_sources rule) \<and> compiled rule' spec \<and>
    map_of (srcs rule') =
      (map_of (srcs rule))(ip_src ip := fst (source_step log2 spec packet ip (map_of (srcs rule) (ip_src ip)))) \<and>
    out = snd (source_step log2 spec packet ip (map_of (srcs rule) (ip_src ip)))"
proof (cases "event_of log2 spec packet (ip_dst ip)")
  case None
  with evaluate_no_event [OF ip] ev v spec show ?thesis
    by (auto simp: compiled_def source_step_def)
next
  case (Some event)
  let ?src = "ip_src ip" and ?ts = "pk_ts_us packet"
  obtain state put where gi:
    "lru_get_or_insert_mut api (cr_sources rule) ?src (fresh_state (rs_kind spec)) = (state, put)" by force
  from lookup_get_or_insert [OF v gi room]
  have state: "state = unwrap_or (map_of (srcs rule) ?src) (fresh_state (rs_kind spec))"
    and put: "\<And>s. valid (put s) \<and> cap (put s) = cap (cr_sources rule) \<and>
      map_of (lru_iter api (put s)) = (map_of (srcs rule))(?src \<mapsto> s)" by auto
  show ?thesis
  proof (cases "tracker_add (ss_tracker state) ?ts event (cr_window_us rule)")
    case None
    with ev ip spec Some gi have "rule' = rule\<lparr>cr_sources := put state\<rparr>" "out = None"
      by (auto simp: rule_evaluate_def rule_observe_def compiled_def)
    with put state None Some spec show ?thesis
      by (auto simp: source_step_def compiled_def Let_def)
  next
    case (Some p)
    obtain tracker n where p: "p = (tracker, n)" by force
    let ?st = "state\<lparr>ss_tracker := tracker\<rparr>"
    have obs: "rule_observe log2 api rule packet ?src (ip_dst ip) = (rule\<lparr>cr_sources := put ?st\<rparr>, Some n)"
      using \<open>event_of log2 spec packet (ip_dst ip) = Some event\<close> spec gi Some p
      by (simp add: rule_observe_def compiled_def)
    have vp: "valid (put ?st)" and mp: "map_of (lru_iter api (put ?st)) ?src = Some ?st"
      using put by auto
    obtain put2 where gm: "lru_get_mut api (put ?st) ?src = Some (?st, put2)"
      and put2: "\<And>s. valid (put2 s) \<and> cap (put2 s) = cap (put ?st) \<and>
        map_of (lru_iter api (put2 s)) = (map_of (lru_iter api (put ?st)))(?src \<mapsto> s)"
      using lookup_get_mut [OF vp mp] by blast
    note facts = obs gm ip ev \<open>event_of log2 spec packet (ip_dst ip) = Some event\<close> Some p state
    show ?thesis
    proof (cases "n < unat (rs_threshold spec)")
      case True
      with facts spec have "rule' = rule\<lparr>cr_sources := put ?st\<rparr>" "out = None"
        by (auto simp: rule_evaluate_def compiled_def)
      with True facts put spec show ?thesis by (auto simp: source_step_def compiled_def Let_def)
    next
      case False
      define st2 where "st2 = (if cooling (ss_last_fired_us ?st) (cr_cooldown_us rule) ?ts then ?st
        else ?st\<lparr>ss_last_fired_us := Some ?ts\<rparr>)"
      from False facts spec have "rule' = rule\<lparr>cr_sources := put2 st2\<rparr>"
        and out: "out = (if cooling (ss_last_fired_us ?st) (cr_cooldown_us rule) ?ts then None
          else Some (rule_alert spec ?ts ?src n))"
        by (auto simp: rule_evaluate_def compiled_def st2_def)
      with put put2 [of st2] spec
      have "valid (cr_sources rule') \<and> cap (cr_sources rule') = cap (cr_sources rule) \<and>
        compiled rule' spec \<and> map_of (srcs rule') = (map_of (srcs rule))(?src \<mapsto> st2)"
        by (auto simp: compiled_def)
      moreover have "source_step log2 spec packet ip (map_of (srcs rule) ?src) = (Some st2, out)"
        using False facts spec by (auto simp: source_step_def compiled_def Let_def st2_def out)
      ultimately show ?thesis by simp
    qed
  qed
qed

end

section \<open>The declarative rule\<close>

text \<open>
  The specification of a rule forgets caches and counters: per source it keeps the whole history
  of events and the time of the last alert.  A packet raises an alert when the events of its
  source within the window measure up to the threshold and the cooldown is over.
\<close>

definition event_measure :: "rule_kind \<Rightarrow> (u64 \<times> event) list \<Rightarrow> nat" where
  "event_measure kind es =
     (if kind = PortScan \<or> kind = HostSweep then card (snd ` set es) else length es)"

record rule_history =
  rh_events :: "ip_addr \<Rightarrow> (u64 \<times> event) list"
  rh_fired :: "ip_addr \<Rightarrow> u64 option"

definition history_new :: rule_history where
  "history_new = \<lparr>rh_events = (\<lambda>_. []), rh_fired = (\<lambda>_. None)\<rparr>"

definition spec_step ::
  "(f64 \<Rightarrow> f64) \<Rightarrow> rule_spec \<Rightarrow> rule_history \<Rightarrow> packet \<Rightarrow> rule_history \<times> alert option" where
  "spec_step log2 spec h packet =
     (case pk_ip packet of
        None \<Rightarrow> (h, None)
      | Some ip \<Rightarrow>
          (case event_of log2 spec packet (ip_dst ip) of
             None \<Rightarrow> (h, None)
           | Some event \<Rightarrow>
               let src = ip_src ip; ts = pk_ts_us packet;
                   window = f64_to_u64 (f64_mul (rs_window_secs spec) MICROS_PER_SEC);
                   cooldown = f64_to_u64 (f64_mul (rs_cooldown_secs spec) MICROS_PER_SEC);
                   es = rh_events h src @ [(ts, event)];
                   observed = event_measure (rs_kind spec) (in_window window es);
                   h = h\<lparr>rh_events := (rh_events h)(src := es)\<rparr>
               in if observed \<ge> unat (rs_threshold spec) \<and> \<not> cooling (rh_fired h src) cooldown ts
                  then (h\<lparr>rh_fired := (rh_fired h)(src \<mapsto> ts)\<rparr>, Some (rule_alert spec ts src observed))
                  else (h, None)))"

text \<open>Running a step function over packets, with the alerts in order.\<close>

fun run_steps :: "('s \<Rightarrow> 'p \<Rightarrow> 's \<times> 'a option) \<Rightarrow> 's \<Rightarrow> 'p list \<Rightarrow> 's \<times> 'a list" where
  "run_steps step s [] = (s, [])"
| "run_steps step s (p # ps) =
     (let (s, out) = step s p; (s, outs) = run_steps step s ps
      in (s, (case out of None \<Rightarrow> outs | Some a \<Rightarrow> a # outs)))"

section \<open>A tracker holds the window of the history\<close>

definition keyed :: "('k \<Rightarrow> event) \<Rightarrow> (u64 \<times> 'k) list \<Rightarrow> (u64 \<times> event) list" where
  "keyed f es = map (\<lambda>(t, k). (t, f k)) es"

fun tracker_holds :: "rule_kind \<Rightarrow> tracker \<Rightarrow> (u64 \<times> event) list \<Rightarrow> bool" where
  "tracker_holds kind (TrackPorts w) es \<longleftrightarrow> kind = PortScan \<and> dw_inv w \<and> keyed EPort (dw_events w) = es"
| "tracker_holds kind (TrackHosts w) es \<longleftrightarrow> kind = HostSweep \<and> dw_inv w \<and> keyed EHost (dw_events w) = es"
| "tracker_holds kind (TrackCount w) es \<longleftrightarrow>
     (kind = DnsTunnel \<or> kind = PacketRate) \<and> map (\<lambda>t. (t, ETick)) w = es"

lemma keyed_window_step: "keyed f (window_step W es (ts, k)) = window_step W (keyed f es) (ts, f k)"
  by (auto simp: keyed_def window_step_def Let_def dropWhile_map comp_def map_tl case_prod_unfold)

lemma keyed_card: "inj f \<Longrightarrow> card (snd ` set (keyed f es)) = card (snd ` set es)"
proof -
  assume "inj f"
  have "snd ` set (keyed f es) = f ` snd ` set es"
    by (force simp: keyed_def image_iff)
  with \<open>inj f\<close> show ?thesis by (simp add: card_image inj_on_subset)
qed

lemma inj_events: "inj EPort" "inj EHost"
  by (auto intro: injI)

lemma tracker_holds_new: "tracker_holds kind (new_tracker kind) []"
  by (cases kind) (auto simp: keyed_def dw_new_def dw_inv_def cw_new_def fun_eq_iff)

lemma tracker_add_holds:
  assumes "tracker_holds (rs_kind spec) tr es" and "event_of log2 spec packet dst = Some ev"
  obtains tr' where
    "tracker_add tr ts ev W = Some (tr', event_measure (rs_kind spec) (window_step W es (ts, ev)))"
    "tracker_holds (rs_kind spec) tr' (window_step W es (ts, ev))"
proof (cases tr)
  case (TrackPorts w)
  then obtain port where ev: "ev = EPort port" and k: "rs_kind spec = PortScan"
    using assms by (auto simp: event_of_def split: transport.splits if_splits)
  obtain w' n where a: "dw_add w ts port W = (w', n)" by force
  from dw_add_step [OF _ a] assms(1) TrackPorts k ev
  have "dw_inv w'" and "keyed EPort (dw_events w') = window_step W es (ts, ev)"
    and "n = card (snd ` set (dw_events w'))" by (auto simp: keyed_window_step)
  with a TrackPorts k ev keyed_card [OF inj_events(1), of "dw_events w'"] show thesis
    by (intro that [of "TrackPorts w'"]) (auto simp: event_measure_def)
next
  case (TrackHosts w)
  then obtain host where ev: "ev = EHost host" and k: "rs_kind spec = HostSweep"
    using assms by (auto simp: event_of_def)
  obtain w' n where a: "dw_add w ts host W = (w', n)" by force
  from dw_add_step [OF _ a] assms(1) TrackHosts k ev
  have "dw_inv w'" and "keyed EHost (dw_events w') = window_step W es (ts, ev)"
    and "n = card (snd ` set (dw_events w'))" by (auto simp: keyed_window_step)
  with a TrackHosts k ev keyed_card [OF inj_events(2), of "dw_events w'"] show thesis
    by (intro that [of "TrackHosts w'"]) (auto simp: event_measure_def)
next
  case (TrackCount w)
  then have ev: "ev = ETick" and k: "rs_kind spec = DnsTunnel \<or> rs_kind spec = PacketRate"
    using assms by (auto simp: event_of_def split: if_splits)
  obtain w' n where a: "cw_add w ts W = (w', n)" by force
  have eq: "map (\<lambda>t. (t, ETick)) v = keyed (\<lambda>_. ETick) (unit_events v)" for v
    by (simp add: keyed_def unit_events_def comp_def)
  from cw_add_step [OF a] assms(1) TrackCount ev
  have h: "map (\<lambda>t. (t, ETick)) w' = window_step W es (ts, ev)" and n: "n = length w'"
    by (auto simp: eq keyed_window_step)
  from h have "length (window_step W es (ts, ev)) = length w'" by (metis length_map)
  with h n a TrackCount k ev show thesis
    by (intro that [of "TrackCount w'"]) (auto simp: event_measure_def)
qed

section \<open>The rule implements it\<close>

text \<open>The state of one source against its history.\<close>

definition source_holds :: "rule_spec \<Rightarrow> source_state option \<Rightarrow> (u64 \<times> event) list \<Rightarrow> u64 option \<Rightarrow> bool" where
  "source_holds spec st es fired \<longleftrightarrow>
     (case st of
        None \<Rightarrow> es = [] \<and> fired = None
      | Some s \<Rightarrow>
          es \<noteq> [] \<and> ss_last_fired_us s = fired \<and>
          tracker_holds (rs_kind spec) (ss_tracker s)
            (in_window (f64_to_u64 (f64_mul (rs_window_secs spec) MICROS_PER_SEC)) es))"

lemma in_window_Nil: "in_window W [] = []"
  by (simp add: in_window_def last_n_def)

lemma source_step_holds:
  assumes h: "source_holds spec st (rh_events h (ip_src ip)) (rh_fired h (ip_src ip))"
    and ip: "pk_ip packet = Some ip"
    and ord: "sorted (map fst (rh_events h (ip_src ip) @ [(pk_ts_us packet, ETick)]))"
    and step: "spec_step log2 spec h packet = (h', out)"
  shows "snd (source_step log2 spec packet ip st) = out \<and>
    source_holds spec (fst (source_step log2 spec packet ip st)) (rh_events h' (ip_src ip)) (rh_fired h' (ip_src ip))"
proof (cases "event_of log2 spec packet (ip_dst ip)")
  case None
  with h ip step show ?thesis by (auto simp: spec_step_def source_step_def)
next
  case (Some ev)
  let ?W = "f64_to_u64 (f64_mul (rs_window_secs spec) MICROS_PER_SEC)"
  let ?src = "ip_src ip" and ?ts = "pk_ts_us packet"
  let ?es = "rh_events h ?src"
  define s where "s = unwrap_or st (fresh_state (rs_kind spec))"
  have s: "tracker_holds (rs_kind spec) (ss_tracker s) (in_window ?W ?es)" "ss_last_fired_us s = rh_fired h ?src"
    using h by (auto simp: source_holds_def s_def fresh_state_def tracker_holds_new in_window_Nil split: option.splits)
  obtain tr where tr: "tracker_add (ss_tracker s) ?ts ev ?W =
      Some (tr, event_measure (rs_kind spec) (window_step ?W (in_window ?W ?es) (?ts, ev)))"
    "tracker_holds (rs_kind spec) tr (window_step ?W (in_window ?W ?es) (?ts, ev))"
    using tracker_add_holds [OF s(1) Some] by blast
  have w: "window_step ?W (in_window ?W ?es) (?ts, ev) = in_window ?W (?es @ [(?ts, ev)])"
    using ord by (intro window_step_in_window) simp
  from step ip Some tr s w show ?thesis
    by (auto simp: spec_step_def source_step_def Let_def s_def [symmetric] source_holds_def not_less
        split: if_splits)
qed

definition packet_sources :: "packet list \<Rightarrow> ip_addr set" where
  "packet_sources ps = {ip_src ip | ip. Some ip \<in> pk_ip ` set ps}"

lemma packet_sources_Nil [simp]: "packet_sources [] = {}"
  by (simp add: packet_sources_def)

lemma packet_sources_Cons:
  "packet_sources (p # ps) = (case pk_ip p of None \<Rightarrow> {} | Some ip \<Rightarrow> {ip_src ip}) \<union> packet_sources ps"
  by (auto simp: packet_sources_def split: option.splits)

lemma finite_packet_sources: "finite (packet_sources ps)"
proof -
  have "packet_sources ps \<subseteq> ip_src ` (\<Union>p \<in> set ps. set_option (pk_ip p))"
    by (force simp: packet_sources_def)
  then show ?thesis by (rule finite_subset) auto
qed

definition in_time_order :: "packet list \<Rightarrow> bool" where
  "in_time_order ps \<longleftrightarrow> sorted (map pk_ts_us ps)"

lemma spec_step_other:
  "spec_step log2 spec h p = (h', out) \<Longrightarrow> (case pk_ip p of None \<Rightarrow> True | Some ip \<Rightarrow> s \<noteq> ip_src ip) \<Longrightarrow>
   rh_events h' s = rh_events h s \<and> rh_fired h' s = rh_fired h s"
  by (auto simp: spec_step_def Let_def split: option.splits if_splits)

lemma spec_step_events:
  "spec_step log2 spec h p = (h', out) \<Longrightarrow> e \<in> set (rh_events h' s) \<Longrightarrow>
   e \<in> set (rh_events h s) \<or> fst e = pk_ts_us p"
  by (auto simp: spec_step_def Let_def split: option.splits if_splits)

lemma spec_step_sorted:
  "spec_step log2 spec h p = (h', out) \<Longrightarrow> sorted (map fst (rh_events h s)) \<Longrightarrow>
   \<forall>e \<in> set (rh_events h s). fst e \<le> pk_ts_us p \<Longrightarrow> sorted (map fst (rh_events h' s))"
  by (auto simp: spec_step_def Let_def sorted_append split: option.splits if_splits)

text \<open>Times of the history up to \<open>now\<close>, in order.\<close>

definition history_before :: "rule_history \<Rightarrow> u64 \<Rightarrow> bool" where
  "history_before h now \<longleftrightarrow>
     (\<forall>s. sorted (map fst (rh_events h s)) \<and> (\<forall>e \<in> set (rh_events h s). fst e \<le> now))"

lemma spec_step_before:
  "spec_step log2 spec h p = (h', out) \<Longrightarrow> history_before h (pk_ts_us p) \<Longrightarrow> history_before h' (pk_ts_us p)"
  unfolding history_before_def using spec_step_sorted spec_step_events by (metis order.refl)

context source_cache
begin

definition rule_holds :: "'c compiled_rule \<Rightarrow> rule_spec \<Rightarrow> rule_history \<Rightarrow> bool" where
  "rule_holds rule spec h \<longleftrightarrow>
     valid (cr_sources rule) \<and> compiled rule spec \<and>
     (\<forall>s. source_holds spec (map_of (srcs rule) s) (rh_events h s) (rh_fired h s))"

definition room_for :: "'c compiled_rule \<Rightarrow> ip_addr set \<Rightarrow> bool" where
  "room_for rule S \<longleftrightarrow> finite S \<and> card (fst ` set (srcs rule) \<union> S) \<le> cap (cr_sources rule)"

lemma room_for_source:
  assumes "valid (cr_sources rule)" and "room_for rule S" and "s \<in> S"
  shows "s \<in> fst ` set (srcs rule) \<or> length (srcs rule) < cap (cr_sources rule)"
proof (rule disjCI)
  assume "\<not> length (srcs rule) < cap (cr_sources rule)"
  then have full: "cap (cr_sources rule) \<le> card (fst ` set (srcs rule))"
    using distinct_card [OF distinct_keys [OF assms(1)]] by simp
  have "fst ` set (srcs rule) \<union> S = fst ` set (srcs rule)"
    using assms(2) full by (intro card_seteq [symmetric]) (auto simp: room_for_def)
  with assms(3) show "s \<in> fst ` set (srcs rule)" by blast
qed

lemma evaluate_holds:
  assumes h: "rule_holds rule spec h" and before: "history_before h (pk_ts_us packet)"
    and room: "room_for rule S" "packet_sources [packet] \<subseteq> S"
    and step: "spec_step log2 spec h packet = (h', out')"
    and ev: "rule_evaluate log2 api rule packet = (rule', out)"
  shows "out = out' \<and> rule_holds rule' spec h' \<and> room_for rule' S"
proof (cases "pk_ip packet")
  case None
  with assms show ?thesis by (auto simp: rule_evaluate_def spec_step_def)
next
  case (Some ip)
  let ?src = "ip_src ip"
  have v: "valid (cr_sources rule)" and c: "compiled rule spec"
    and sh: "\<And>s. source_holds spec (map_of (srcs rule) s) (rh_events h s) (rh_fired h s)"
    using h by (auto simp: rule_holds_def)
  have src: "?src \<in> S" using room(2) Some by (simp add: packet_sources_Cons)
  from evaluate_source [OF v c Some room_for_source [OF v room(1) src] ev]
  have e: "valid (cr_sources rule')" "cap (cr_sources rule') = cap (cr_sources rule)" "compiled rule' spec"
    and m: "map_of (srcs rule') = (map_of (srcs rule))
      (?src := fst (source_step log2 spec packet ip (map_of (srcs rule) ?src)))"
    and out: "out = snd (source_step log2 spec packet ip (map_of (srcs rule) ?src))" by auto
  have ord: "sorted (map fst (rh_events h ?src @ [(pk_ts_us packet, ETick)]))"
    using before by (auto simp: history_before_def sorted_append)
  from source_step_holds [OF sh [of ?src] Some ord step]
  have o: "out = out'" and sh': "source_holds spec (map_of (srcs rule') ?src) (rh_events h' ?src) (rh_fired h' ?src)"
    by (auto simp: m out)
  have "source_holds spec (map_of (srcs rule') s) (rh_events h' s) (rh_fired h' s)" for s
    using sh' sh [of s] spec_step_other [OF step, of s] Some by (cases "s = ?src") (auto simp: m)
  moreover have "fst ` set (srcs rule') \<subseteq> insert ?src (fst ` set (srcs rule))"
    unfolding dom_map_of_conv_image_fst [symmetric] m by (auto simp: dom_def)
  then have "card (fst ` set (srcs rule') \<union> S) \<le> card (fst ` set (srcs rule) \<union> S)"
    using room(1) src by (intro card_mono) (auto simp: room_for_def)
  ultimately show ?thesis
    using o e room(1) by (auto simp: rule_holds_def room_for_def)
qed

lemma run_holds:
  assumes "rule_holds rule spec h" and "room_for rule S" and "packet_sources ps \<subseteq> S"
    and "in_time_order ps" and "\<forall>p \<in> set ps. history_before h (pk_ts_us p)"
  shows "snd (run_steps (rule_evaluate log2 api) rule ps) = snd (run_steps (spec_step log2 spec) h ps)"
  using assms
proof (induction ps arbitrary: rule h)
  case (Cons p ps)
  obtain rule' out where ev: "rule_evaluate log2 api rule p = (rule', out)" by force
  obtain h' out' where st: "spec_step log2 spec h p = (h', out')" by force
  have b: "history_before h (pk_ts_us p)" and S: "packet_sources [p] \<subseteq> S" "packet_sources ps \<subseteq> S"
    using Cons.prems by (auto simp: packet_sources_Cons)
  from evaluate_holds [OF Cons.prems(1) b Cons.prems(2) S(1) st ev]
  have o: "out = out'" and r: "rule_holds rule' spec h'" "room_for rule' S" by auto
  have "history_before h' (pk_ts_us q)" if "q \<in> set ps" for q
  proof -
    have "pk_ts_us p \<le> pk_ts_us q" using that Cons.prems(4) by (auto simp: in_time_order_def)
    with spec_step_before [OF st b] show ?thesis by (auto simp: history_before_def intro: order.trans)
  qed
  then have "snd (run_steps (rule_evaluate log2 api) rule' ps) = snd (run_steps (spec_step log2 spec) h' ps)"
    using Cons.prems(4) r S by (intro Cons.IH) (auto simp: in_time_order_def)
  with o ev st show ?case by (auto simp: Let_def split: prod.splits)
qed simp

lemma new_rule_holds:
  "rule_holds (compiled_rule_new api spec) spec history_new \<and>
   srcs (compiled_rule_new api spec) = [] \<and> cap (cr_sources (compiled_rule_new api spec)) = MAX_TRACKED_SOURCES"
  using new [of MAX_TRACKED_SOURCES]
  by (simp add: rule_holds_def compiled_rule_new_def compiled_def history_new_def source_holds_def
      MAX_TRACKED_SOURCES_def)

lemma rule_refines_spec:
  assumes "card (packet_sources ps) \<le> MAX_TRACKED_SOURCES" and "in_time_order ps"
  shows "snd (run_steps (rule_evaluate log2 api) (compiled_rule_new api spec) ps) =
    snd (run_steps (spec_step log2 spec) history_new ps)"
  using assms new_rule_holds [of spec]
  by (intro run_holds [where S = "packet_sources ps"])
    (auto simp: room_for_def finite_packet_sources history_before_def history_new_def)

end

interpretation list_sources: source_cache list_lru_api ll_cap ll_valid
  by unfold_locales

section \<open>The cooldown\<close>

definition fired_of :: "source_state option \<Rightarrow> u64 option" where
  "fired_of st = (case st of None \<Rightarrow> None | Some s \<Rightarrow> ss_last_fired_us s)"

lemma source_step_fired:
  assumes "source_step log2 spec p ip st = (st', out)"
  shows "(case out of
      None \<Rightarrow> fired_of st' = fired_of st
    | Some a \<Rightarrow> al_src a = Some (ip_src ip) \<and> al_ts_us a = pk_ts_us p \<and> fired_of st' = Some (pk_ts_us p) \<and>
        \<not> cooling (fired_of st) (f64_to_u64 (f64_mul (rs_cooldown_secs spec) MICROS_PER_SEC)) (pk_ts_us p))"
  using assms
  by (cases st)
    (auto simp: source_step_def Let_def fired_of_def fresh_state_def rule_alert_def
      split: option.splits if_splits)

lemma saturating_add_ge: "(a :: u64) \<le> saturating_add a b"
  by (simp add: word_le_nat_alt unat_saturating_add) (use unat_less [of a] in simp)

definition spaced :: "u64 \<Rightarrow> alert \<Rightarrow> alert \<Rightarrow> bool" where
  "spaced cooldown a b \<longleftrightarrow> al_src a = al_src b \<longrightarrow> saturating_add (al_ts_us a) cooldown \<le> al_ts_us b"

context source_cache
begin

definition alerts_after_fired :: "'c compiled_rule \<Rightarrow> u64 \<Rightarrow> alert list \<Rightarrow> bool" where
  "alerts_after_fired rule cooldown out \<longleftrightarrow>
     (\<forall>b \<in> set out. \<exists>s. al_src b = Some s \<and>
        \<not> cooling (fired_of (map_of (srcs rule) s)) cooldown (al_ts_us b))"

lemma evaluate_room:
  assumes v: "valid (cr_sources rule)" and room: "room_for rule S" and src: "ip_src ip \<in> S"
    and m: "map_of (srcs rule') = (map_of (srcs rule))(ip_src ip := st)"
    and c: "cap (cr_sources rule') = cap (cr_sources rule)"
  shows "room_for rule' S"
proof -
  have "fst ` set (srcs rule') \<subseteq> insert (ip_src ip) (fst ` set (srcs rule))"
    unfolding dom_map_of_conv_image_fst [symmetric] m by (auto simp: dom_def)
  then have "card (fst ` set (srcs rule') \<union> S) \<le> card (fst ` set (srcs rule) \<union> S)"
    using room src by (intro card_mono) (auto simp: room_for_def)
  with room c show ?thesis by (simp add: room_for_def)
qed

lemma run_spaced:
  assumes "valid (cr_sources rule)" and "compiled rule spec" and "room_for rule S" and "packet_sources ps \<subseteq> S"
  defines "cd \<equiv> f64_to_u64 (f64_mul (rs_cooldown_secs spec) MICROS_PER_SEC)"
  shows "alerts_after_fired rule cd (snd (run_steps (rule_evaluate log2 api) rule ps)) \<and>
    sorted_wrt (spaced cd) (snd (run_steps (rule_evaluate log2 api) rule ps))"
  using assms(1-4)
proof (induction ps arbitrary: rule)
  case (Cons p ps)
  obtain rule' out where ev: "rule_evaluate log2 api rule p = (rule', out)" by force
  let ?outs = "snd (run_steps (rule_evaluate log2 api) rule' ps)"
  have run: "snd (run_steps (rule_evaluate log2 api) rule (p # ps)) =
      (case out of None \<Rightarrow> ?outs | Some a \<Rightarrow> a # ?outs)"
    using ev by (simp add: split_beta split: option.splits)
  show ?case
  proof (cases "pk_ip p")
    case None
    then have "rule' = rule" "out = None" using ev by (auto simp: rule_evaluate_def)
    with Cons None show ?thesis unfolding run by (simp add: packet_sources_Cons)
  next
    case (Some ip)
    let ?src = "ip_src ip"
    have src: "?src \<in> S" using Cons.prems(4) Some by (simp add: packet_sources_Cons)
    obtain st' where st: "source_step log2 spec p ip (map_of (srcs rule) ?src) = (st', out)"
      and e: "valid (cr_sources rule')" "cap (cr_sources rule') = cap (cr_sources rule)" "compiled rule' spec"
      and m: "map_of (srcs rule') = (map_of (srcs rule))(?src := st')"
      using evaluate_source [OF Cons.prems(1,2) Some room_for_source [OF Cons.prems(1,3) src] ev]
      by (metis prod.collapse)
    have IH: "alerts_after_fired rule' cd ?outs" "sorted_wrt (spaced cd) ?outs"
      using Cons.IH [OF e(1,3) evaluate_room [OF Cons.prems(1,3) src m e(2)]] Cons.prems(4)
      by (auto simp: packet_sources_Cons)
    show ?thesis
    proof (cases out)
      case None
      with source_step_fired [OF st] have "fired_of (map_of (srcs rule') s) = fired_of (map_of (srcs rule) s)" for s
        by (simp add: m)
      with IH None show ?thesis unfolding run by (simp add: alerts_after_fired_def)
    next
      case (Some a)
      with source_step_fired [OF st] have a: "al_src a = Some ?src" "al_ts_us a = pk_ts_us p"
        "fired_of (map_of (srcs rule') ?src) = Some (pk_ts_us p)"
        "\<not> cooling (fired_of (map_of (srcs rule) ?src)) cd (pk_ts_us p)" by (auto simp: m cd_def)
      have later: "saturating_add (pk_ts_us p) cd \<le> al_ts_us b" if "b \<in> set ?outs" "al_src b = Some ?src" for b
        using IH(1) that a(3) by (force simp: alerts_after_fired_def cooling_def)
      have still: "\<not> cooling (fired_of (map_of (srcs rule) s)) cd (al_ts_us b)"
        if b: "b \<in> set ?outs" "al_src b = Some s" for b s
      proof (cases "s = ?src")
        case True
        with later [of b] b saturating_add_ge [of "pk_ts_us p" cd] a(4) show ?thesis
          by (auto simp: cooling_def split: option.splits)
      next
        case False
        with IH(1) b show ?thesis by (force simp: alerts_after_fired_def m)
      qed
      have "alerts_after_fired rule cd (a # ?outs)"
        using IH(1) still a by (force simp: alerts_after_fired_def)
      moreover have "sorted_wrt (spaced cd) (a # ?outs)"
        using IH(2) later a by (auto simp: spaced_def)
      ultimately show ?thesis unfolding run by (simp add: Some)
    qed
  qed
qed (simp add: alerts_after_fired_def)

lemma new_rule_spaced:
  assumes "card (packet_sources ps) \<le> MAX_TRACKED_SOURCES"
  shows "sorted_wrt (spaced (f64_to_u64 (f64_mul (rs_cooldown_secs spec) MICROS_PER_SEC)))
    (snd (run_steps (rule_evaluate log2 api) (compiled_rule_new api spec) ps))"
  using run_spaced [of "compiled_rule_new api spec" spec "packet_sources ps" ps log2] new_rule_holds [of spec] assms
  by (simp add: rule_holds_def room_for_def finite_packet_sources)

end

section \<open>Alerts and entropy on their own\<close>

lemma rule_evaluate_alert:
  "rule_evaluate log2 L rule p = (rule', Some a) \<Longrightarrow>
   \<exists>ip n. pk_ip p = Some ip \<and> unat (rs_threshold (cr_spec rule)) \<le> n \<and>
     a = rule_alert (cr_spec rule) (pk_ts_us p) (ip_src ip) n"
  by (auto simp: rule_evaluate_def rule_observe_def Let_def not_less split: option.splits prod.splits if_splits)

lemma rule_evaluate_spec: "cr_spec (fst (rule_evaluate log2 L rule p)) = cr_spec rule"
  by (auto simp: rule_evaluate_def rule_observe_def Let_def split: option.splits prod.splits)

lemma byte_freq_count:
  "i < 256 \<Longrightarrow> byte_freq str ! i = of_nat (length (filter (\<lambda>c. of_char c = i) str)) \<and> length (byte_freq str) = 256"
proof (induction str rule: rev_induct)
  case (snoc c cs)
  have "of_char c < (256 :: nat)" by simp
  with snoc show ?case by (auto simp: byte_freq_def nth_list_update)
qed (simp add: byte_freq_def)

section \<open>The bundled rules\<close>

text \<open>
  \<open>rules/default.yaml\<close>, which \<open>builtin\<close> includes as text and parses with \<open>expect\<close>.
\<close>

definition default_rule ::
  "string \<Rightarrow> rule_kind \<Rightarrow> severity \<Rightarrow> string \<Rightarrow> rat \<Rightarrow> u32 \<Rightarrow> rat \<Rightarrow> raw_rule" where
  "default_rule name kind severity description window threshold cooldown =
     \<lparr>raw_id = name, raw_kind = kind, raw_severity = severity, raw_description = Some description,
      raw_window_secs = Fin window, raw_threshold = threshold, raw_cooldown_secs = Some (Fin cooldown),
      raw_enabled = None, raw_min_label_len = None, raw_min_entropy = None\<rparr>"

definition default_rule_file :: rule_file where
  "default_rule_file =
     \<lparr>rf_version = 1,
      rf_rules =
        [default_rule ''port-scan'' PortScan High
           ''one source sends bare SYNs to many distinct ports'' 10 100 15,
         default_rule ''host-sweep'' HostSweep Medium
           ''one source talks to many distinct hosts'' 30 64 30,
         (default_rule ''dns-tunnel'' DnsTunnel Critical
           ''long high-entropy dns labels, typical for data exfiltration'' 30 20 15)
           \<lparr>raw_min_label_len := Some 30, raw_min_entropy := Some (Fin (7 / 2))\<rparr>,
         default_rule ''packet-flood'' PacketRate Medium
           ''one source exceeds a packet budget'' 1 5000 30]\<rparr>"

definition rules_builtin ::
  "('c, ip_addr, source_state) lru_api \<Rightarrow> (string \<Rightarrow> (string, rule_file) result) \<Rightarrow> string \<Rightarrow>
   (unit, 'c rule_engine) result" where
  "rules_builtin L yaml DEFAULT_RULES_YAML =
     (case rules_from_yaml L yaml DEFAULT_RULES_YAML of Ok rules \<Rightarrow> Ok rules | _ \<Rightarrow> Panic)"

lemma default_rules_valid:
  "rules_parse (\<lambda>_. Ok default_rule_file) yaml_text = Ok (map with_defaults (rf_rules default_rule_file))"
  by (simp add: rules_parse_def default_rule_file_def default_rule_def SUPPORTED_VERSION_def with_defaults_def
      rule_validate_def MAX_RULE_ID_LEN_def Let_def)

section \<open>Properties\<close>

text \<open>C3. A rule does what it declares: on packets in time order from at most 10,000 sources, a
  freshly compiled rule raises exactly the alerts of the specification that keeps every source's
  whole history, counts the events of the packet's source within the window (distinct ports or
  hosts for scans and sweeps; at most the last 65,536) and fires when the count reaches the
  threshold and the source is not in its cooldown.\<close>

theorem rule_meets_specification:
  assumes "source_cache L cap valid" and "card (packet_sources ps) \<le> MAX_TRACKED_SOURCES"
    and "in_time_order ps"
  shows "snd (run_steps (rule_evaluate log2 L) (compiled_rule_new L spec) ps) =
    snd (run_steps (spec_step log2 spec) history_new ps)"
  by (rule source_cache.rule_refines_spec [OF assms])

definition sample_packet :: "u64 \<Rightarrow> u8 \<Rightarrow> u8 \<Rightarrow> packet" where
  "sample_packet ts src dst =
     \<lparr>pk_ts_us = ts, pk_wire_len = 60, pk_ethertype = Some 0x0800,
      pk_ip = Some \<lparr>ip_src = V4 [10, 0, 0, src], ip_dst = V4 [10, 0, 0, dst], ip_proto = 6, ip_ttl = 64,
        more_fragments = False, fragment_offset = 0\<rparr>,
      pk_transport = TransportNone, pk_app = AppNone\<rparr>"

definition sweep_rule :: rule_spec where
  "sweep_rule =
     \<lparr>rs_id = ''sweep'', rs_kind = HostSweep, rs_severity = Medium, rs_description = [],
      rs_window_secs = Fin 30, rs_threshold = 2, rs_cooldown_secs = Fin 15, rs_enabled = True,
      rs_min_label_len = 30, rs_min_entropy = Fin 3\<rparr>"

lemma sample_sources: "packet_sources [sample_packet t1 s d1, sample_packet t2 s d2, sample_packet t3 s d3] = {V4 [10, 0, 0, s]}"
  by (auto simp: packet_sources_Cons sample_packet_def)

lemma sweep_rule_times:
  "f64_to_u64 (f64_mul (rs_window_secs sweep_rule) MICROS_PER_SEC) = 30000000"
  "f64_to_u64 (f64_mul (rs_cooldown_secs sweep_rule) MICROS_PER_SEC) = 15000000"
proof -
  have "f64_to_u64 (f64_mul (Fin 30) (Fin 1000000)) = 30000000"
    using micros_of_secs [of 30] by (simp del: f64_mul.simps f64_to_u64.simps)
  moreover have "f64_to_u64 (f64_mul (Fin 15) (Fin 1000000)) = 15000000"
    using micros_of_secs [of 15] by (simp del: f64_mul.simps f64_to_u64.simps)
  ultimately show
    "f64_to_u64 (f64_mul (rs_window_secs sweep_rule) MICROS_PER_SEC) = 30000000"
    "f64_to_u64 (f64_mul (rs_cooldown_secs sweep_rule) MICROS_PER_SEC) = 15000000"
    by (simp_all only: sweep_rule_def MICROS_PER_SEC_def rule_spec.select_convs)
qed

lemma sample_step:
  "spec_step log2 sweep_rule h (sample_packet ts s d) =
     (let src = V4 [10, 0, 0, s];
          es = rh_events h src @ [(ts, EHost (V4 [10, 0, 0, d]))];
          observed = event_measure HostSweep (in_window 30000000 es);
          h = h\<lparr>rh_events := (rh_events h)(src := es)\<rparr>
      in if observed \<ge> 2 \<and> \<not> cooling (rh_fired h src) 15000000 ts
         then (h\<lparr>rh_fired := (rh_fired h)(src \<mapsto> ts)\<rparr>, Some (rule_alert sweep_rule ts src observed))
         else (h, None))"
  unfolding spec_step_def sweep_rule_times by (simp add: sample_packet_def event_of_def sweep_rule_def)

lemma rule_alert_ts: "al_ts_us (rule_alert spec ts src n) = ts"
  by (simp add: rule_alert_def)

lemma rule_meets_specification_witness:
  "map al_ts_us (snd (run_steps (rule_evaluate (\<lambda>x. x) list_lru_api) (compiled_rule_new list_lru_api sweep_rule)
     [sample_packet 1 7 1, sample_packet 2 7 2, sample_packet 3 7 3])) = [2]"
proof -
  let ?ps = "[sample_packet 1 7 1, sample_packet 2 7 2, sample_packet 3 7 3]"
  have few: "card (packet_sources ?ps) \<le> MAX_TRACKED_SOURCES"
    unfolding sample_sources by (simp add: MAX_TRACKED_SOURCES_def)
  have ord: "in_time_order ?ps" by (simp add: in_time_order_def sample_packet_def)
  show ?thesis
    unfolding rule_meets_specification [OF list_sources.source_cache_axioms few ord]
    by (simp add: sample_step Let_def history_new_def event_measure_def in_window_def last_n_def
        MAX_EVENTS_PER_SOURCE_def saturating_sub_def saturating_add_def cooling_def rule_alert_ts)
qed



text \<open>Evaluating the rules appends to the alerts it is given at most one alert per rule, and
  each is the alert of one of the rules for the packet's source and time, with at least that
  rule's threshold observed.  The specifications of the rules never change, and a packet without
  an IP header changes nothing.\<close>

theorem rules_evaluate_alerts:
  "(\<exists>new. snd (rules_evaluate log2 L rules p out) = out @ new \<and> length new \<le> length rules \<and>
     list_all (\<lambda>a. \<exists>rule ip n. rule \<in> set rules \<and> pk_ip p = Some ip \<and>
       unat (rs_threshold (cr_spec rule)) \<le> n \<and>
       a = rule_alert (cr_spec rule) (pk_ts_us p) (ip_src ip) n) new) \<and>
   map cr_spec (fst (rules_evaluate log2 L rules p out)) = map cr_spec rules \<and>
   (pk_ip p = None \<longrightarrow> rules_evaluate log2 L rules p out = (rules, out))"
proof (intro conjI exI [of _ "List.map_filter snd (map (\<lambda>rule. rule_evaluate log2 L rule p) rules)"] impI)
  show "list_all (\<lambda>a. \<exists>rule ip n. rule \<in> set rules \<and> pk_ip p = Some ip \<and>
       unat (rs_threshold (cr_spec rule)) \<le> n \<and>
       a = rule_alert (cr_spec rule) (pk_ts_us p) (ip_src ip) n)
     (List.map_filter snd (map (\<lambda>rule. rule_evaluate log2 L rule p) rules))"
    unfolding list_all_iff List.map_filter_def
    using rule_evaluate_alert by (fastforce simp: prod_eq_iff)
  show "length (List.map_filter snd (map (\<lambda>rule. rule_evaluate log2 L rule p) rules)) \<le> length rules"
    using length_filter_le by (fastforce simp: List.map_filter_def intro: order.trans)
  show "rules_evaluate log2 L rules p out = (rules, out)" if "pk_ip p = None"
    using that by (simp add: rules_evaluate_def rule_evaluate_def List.map_filter_def comp_def)
qed (simp_all add: rules_evaluate_def rule_evaluate_spec comp_def)

lemma rules_evaluate_alerts_witness:
  "snd (rules_evaluate (\<lambda>x. x) list_lru_api (rules_from_specs list_lru_api [sweep_rule])
     (sample_packet 1 7 1\<lparr>pk_ip := None\<rparr>) []) = []"
  using rules_evaluate_alerts [of "\<lambda>x. x" list_lru_api "rules_from_specs list_lru_api [sweep_rule]"
      "sample_packet 1 7 1\<lparr>pk_ip := None\<rparr>" "[]"]
  by simp

text \<open>The bundled rules load: where the YAML parser reads \<open>rules/default.yaml\<close> as the file it
  is, \<open>builtin\<close> does not panic and compiles its four rules, in order.\<close>

theorem builtin_rules_load:
  assumes "yaml DEFAULT_RULES_YAML = Ok default_rule_file"
  shows "\<exists>rules. rules_builtin L yaml DEFAULT_RULES_YAML = Ok rules \<and>
    rule_ids rules = [''port-scan'', ''host-sweep'', ''dns-tunnel'', ''packet-flood''] \<and>
    map (\<lambda>r. unat (cr_window_us r)) rules = [10000000, 30000000, 30000000, 1000000]"
proof -
  have "rules_parse yaml DEFAULT_RULES_YAML = rules_parse (\<lambda>_. Ok default_rule_file) DEFAULT_RULES_YAML"
    using assms by (simp add: rules_parse_def)
  then have "rules_builtin L yaml DEFAULT_RULES_YAML =
      Ok (rules_from_specs L (map with_defaults (rf_rules default_rule_file)))"
    by (simp add: rules_builtin_def rules_from_yaml_def default_rules_valid)
  then show ?thesis
    using micros_of_secs [of 10] micros_of_secs [of 30] micros_of_secs [of 1]
    by (simp add: rules_from_specs_def default_rule_file_def default_rule_def with_defaults_def rule_ids_def
        compiled_rule_new_def MICROS_PER_SEC_def del: f64_mul.simps f64_to_u64.simps)
qed

lemma builtin_rules_load_witness:
  "\<exists>rules. rules_builtin list_lru_api (\<lambda>_. Ok default_rule_file) [] = Ok rules \<and> length rules = 4"
  using builtin_rules_load [of "\<lambda>_. Ok default_rule_file" "[]" list_lru_api]
  by (auto simp: rule_ids_def dest!: arg_cong [where f = length])

text \<open>The frequency table of \<open>shannon_entropy\<close> counts every byte of the label (modulo
  \<open>2 ^ 32\<close>), and splitting a name into labels loses nothing: joining them with dots gives it back.\<close>

theorem entropy_input_exact:
  "map (\<lambda>i. byte_freq label ! i) [0..<256] =
     map (\<lambda>i. of_nat (length (filter (\<lambda>c. of_char c = i) label))) [0..<256] \<and>
   join_with LABEL_SEPARATOR (split_on LABEL_SEPARATOR label) = label"
  using byte_freq_count [of _ label] split_on_join [of LABEL_SEPARATOR label] by simp

end
