(* ===== verification/Engine.thy ===== *)
theory Engine
  imports Flow Rule_Engine
begin

text \<open>
  \<open>core/src/engine.rs\<close>: the engine that a captured frame goes through.  \<open>process\<close> counts the
  frame, advances the clock (which expires idle flows about once a second), parses it, counts what
  was found, updates the flow table and evaluates the rules.  \<open>LF\<close> and \<open>LR\<close> are the caches of the
  flow table and of the rules.
\<close>

definition DEFAULT_MAX_FLOWS :: usize where "DEFAULT_MAX_FLOWS = 100000"
definition DEFAULT_FLOW_IDLE_TIMEOUT_US :: u64 where "DEFAULT_FLOW_IDLE_TIMEOUT_US = 120000000"
definition DEFAULT_TOP_N :: usize where "DEFAULT_TOP_N = 10"
definition EXPIRY_INTERVAL_US :: u64 where "EXPIRY_INTERVAL_US = 1000000"

record engine_config =
  ec_link :: link_type
  ec_max_flows :: usize
  ec_flow_idle_timeout_us :: u64
  ec_top_n :: usize

definition engine_config_default :: engine_config where
  "engine_config_default =
     \<lparr>ec_link = LinkEthernet, ec_max_flows = DEFAULT_MAX_FLOWS,
      ec_flow_idle_timeout_us = DEFAULT_FLOW_IDLE_TIMEOUT_US, ec_top_n = DEFAULT_TOP_N\<rparr>"

record counters =
  ct_packets :: u64
  ct_bytes :: u64
  ct_ipv4 :: u64
  ct_ipv6 :: u64
  ct_tcp :: u64
  ct_udp :: u64
  ct_icmp :: u64
  ct_other_l4 :: u64
  ct_non_ip :: u64
  ct_fragments :: u64
  ct_dns :: u64
  ct_dns_errors :: u64
  ct_parse_errors :: u64

definition counters_default :: counters where
  "counters_default =
     \<lparr>ct_packets = 0, ct_bytes = 0, ct_ipv4 = 0, ct_ipv6 = 0, ct_tcp = 0, ct_udp = 0, ct_icmp = 0,
      ct_other_l4 = 0, ct_non_ip = 0, ct_fragments = 0, ct_dns = 0, ct_dns_errors = 0,
      ct_parse_errors = 0\<rparr>"

record snapshot =
  sn_counters :: counters
  sn_active_flows :: usize
  sn_evicted_flows :: u64
  sn_expired_flows :: u64
  sn_last_ts_us :: u64
  sn_top_flows :: "(flow_key \<times> flow_stats) list"

record ('f, 'r) engine =
  en_config :: engine_config
  en_flows :: "'f flow_table"
  en_counters :: counters
  en_last_ts_us :: u64
  en_next_expiry_us :: u64
  en_rules :: "'r rule_engine option"
  en_alerts :: "alert list"

definition engine_new :: "('f, flow_key, flow_stats) lru_api \<Rightarrow> engine_config \<Rightarrow> ('f, 'r) engine" where
  "engine_new LF config =
     \<lparr>en_config = config,
      en_flows = flow_table_new LF (ec_max_flows config) (ec_flow_idle_timeout_us config),
      en_counters = counters_default, en_last_ts_us = 0, en_next_expiry_us = 0,
      en_rules = None, en_alerts = []\<rparr>"

definition engine_set_rules :: "('f, 'r) engine \<Rightarrow> 'r rule_engine option \<Rightarrow> ('f, 'r) engine" where
  "engine_set_rules e rules = e\<lparr>en_rules := rules\<rparr>"

definition engine_with_rules :: "('f, 'r) engine \<Rightarrow> 'r rule_engine \<Rightarrow> ('f, 'r) engine" where
  "engine_with_rules e rules = e\<lparr>en_rules := Some rules\<rparr>"

definition drain_alerts :: "('f, 'r) engine \<Rightarrow> ('f, 'r) engine \<times> alert list" where
  "drain_alerts e = (e\<lparr>en_alerts := []\<rparr>, en_alerts e)"

definition advance_clock ::
  "('f, flow_key, flow_stats) lru_api \<Rightarrow> ('f, 'r) engine \<Rightarrow> u64 \<Rightarrow> ('f, 'r) engine" where
  "advance_clock LF e ts =
     (let e = e\<lparr>en_last_ts_us := max (en_last_ts_us e) ts\<rparr> in
      if en_last_ts_us e \<ge> en_next_expiry_us e
      then e\<lparr>en_flows := fst (flow_expire LF (en_flows e) (en_last_ts_us e)),
             en_next_expiry_us := en_last_ts_us e + EXPIRY_INTERVAL_US\<rparr>
      else e)"

definition count_transport :: "transport \<Rightarrow> counters \<Rightarrow> counters" where
  "count_transport tr c =
     (case tr of
        TransportTcp _ \<Rightarrow> c\<lparr>ct_tcp := ct_tcp c + 1\<rparr>
      | TransportUdp _ \<Rightarrow> c\<lparr>ct_udp := ct_udp c + 1\<rparr>
      | TransportIcmp _ \<Rightarrow> c\<lparr>ct_icmp := ct_icmp c + 1\<rparr>
      | TransportOther _ \<Rightarrow> c\<lparr>ct_other_l4 := ct_other_l4 c + 1\<rparr>
      | TransportNone \<Rightarrow> c
      | LaterFragment \<Rightarrow> c)"

definition count_app :: "app \<Rightarrow> counters \<Rightarrow> counters" where
  "count_app a c =
     (case a of
        AppDns _ \<Rightarrow> c\<lparr>ct_dns := ct_dns c + 1\<rparr>
      | AppDnsError _ \<Rightarrow> c\<lparr>ct_dns_errors := ct_dns_errors c + 1\<rparr>
      | AppNone \<Rightarrow> c)"

definition count_packet :: "packet \<Rightarrow> counters \<Rightarrow> counters" where
  "count_packet p c =
     (case pk_ip p of
        None \<Rightarrow> c\<lparr>ct_non_ip := ct_non_ip c + 1\<rparr>
      | Some ip \<Rightarrow>
          let c = (if is_ipv4 (ip_src ip) then c\<lparr>ct_ipv4 := ct_ipv4 c + 1\<rparr>
                   else c\<lparr>ct_ipv6 := ct_ipv6 c + 1\<rparr>);
              c = (if is_fragment ip then c\<lparr>ct_fragments := ct_fragments c + 1\<rparr> else c)
          in count_app (pk_app p) (count_transport (pk_transport p) c))"

definition flow_update_of :: "packet \<Rightarrow> ip_header \<Rightarrow> flow_update" where
  "flow_update_of p ip =
     (let (sport, dport) = ports (pk_transport p);
          flags = (case pk_transport p of TransportTcp h \<Rightarrow> tcp_flags h | _ \<Rightarrow> 0);
          (key, direction) =
            canonical (Endpoint (ip_src ip) sport) (Endpoint (ip_dst ip) dport) (ip_proto ip)
      in \<lparr>fu_key = key, fu_direction = direction, fu_ts_us = pk_ts_us p, fu_bytes = pk_wire_len p,
          fu_tcp_flags = flags\<rparr>)"

definition track_flow ::
  "('f, flow_key, flow_stats) lru_api \<Rightarrow> 'f flow_table \<Rightarrow> packet \<Rightarrow> 'f flow_table" where
  "track_flow LF table p =
     (case pk_ip p of
        None \<Rightarrow> table
      | Some ip \<Rightarrow>
          if pk_transport p = LaterFragment then table
          else fst (flow_table_update LF table (flow_update_of p ip)))"

definition engine_process ::
  "(f64 \<Rightarrow> f64) \<Rightarrow> ('f, flow_key, flow_stats) lru_api \<Rightarrow> ('r, ip_addr, source_state) lru_api \<Rightarrow>
   ('f, 'r) engine \<Rightarrow> frame \<Rightarrow> ('f, 'r) engine \<times> (parse_error, packet) result" where
  "engine_process log2 LF LR e frame =
     (let c = en_counters e;
          e = e\<lparr>en_counters := c\<lparr>ct_packets := ct_packets c + 1,
                ct_bytes := ct_bytes c + ucast (fr_wire_len frame)\<rparr>\<rparr>;
          e = advance_clock LF e (fr_ts_us frame)
      in case parse (ec_link (en_config e)) frame of
           Err err \<Rightarrow>
             (e\<lparr>en_counters := (en_counters e)\<lparr>ct_parse_errors := ct_parse_errors (en_counters e) + 1\<rparr>\<rparr>,
              Err err)
         | Panic \<Rightarrow> (e, Panic)
         | Ok packet \<Rightarrow>
             let e = e\<lparr>en_counters := count_packet packet (en_counters e),
                       en_flows := track_flow LF (en_flows e) packet\<rparr>;
                 e = (case en_rules e of
                        None \<Rightarrow> e
                      | Some rules \<Rightarrow>
                          let (rules, alerts) = rules_evaluate log2 LR rules packet (en_alerts e)
                          in e\<lparr>en_rules := Some rules, en_alerts := alerts\<rparr>)
             in (e, Ok packet))"

definition engine_snapshot :: "('f, flow_key, flow_stats) lru_api \<Rightarrow> ('f, 'r) engine \<Rightarrow> snapshot" where
  "engine_snapshot LF e =
     \<lparr>sn_counters = en_counters e,
      sn_active_flows = flow_len LF (en_flows e),
      sn_evicted_flows = evicted (en_flows e),
      sn_expired_flows = expired (en_flows e),
      sn_last_ts_us = en_last_ts_us e,
      sn_top_flows = top_by_bytes LF (en_flows e) (ec_top_n (en_config e))\<rparr>"

definition engine_run ::
  "(f64 \<Rightarrow> f64) \<Rightarrow> ('f, flow_key, flow_stats) lru_api \<Rightarrow> ('r, ip_addr, source_state) lru_api \<Rightarrow>
   ('f, 'r) engine \<Rightarrow> frame list \<Rightarrow> ('f, 'r) engine" where
  "engine_run log2 LF LR e frames = foldl (\<lambda>e f. fst (engine_process log2 LF LR e f)) e frames"

section \<open>What one frame changes\<close>

lemma advance_clock_frame:
  "en_config (advance_clock LF e ts) = en_config e" "en_counters (advance_clock LF e ts) = en_counters e"
  "en_rules (advance_clock LF e ts) = en_rules e" "en_alerts (advance_clock LF e ts) = en_alerts e"
  "en_last_ts_us (advance_clock LF e ts) = max (en_last_ts_us e) ts"
  by (simp_all add: advance_clock_def Let_def)

lemma engine_process_result: "snd (engine_process log2 LF LR e f) = parse (ec_link (en_config e)) f"
  by (simp add: engine_process_def Let_def advance_clock_frame split: result.splits)

lemma engine_process_config: "en_config (fst (engine_process log2 LF LR e f)) = en_config e"
  by (simp add: engine_process_def Let_def advance_clock_frame split: result.splits option.splits prod.splits)

lemma engine_process_clock: "en_last_ts_us (fst (engine_process log2 LF LR e f)) = max (en_last_ts_us e) (fr_ts_us f)"
  by (simp add: engine_process_def Let_def advance_clock_frame split: result.splits option.splits prod.splits)

definition clocked :: "('f, flow_key, flow_stats) lru_api \<Rightarrow> ('f, 'r) engine \<Rightarrow> u64 \<Rightarrow> 'f flow_table" where
  "clocked LF e ts = en_flows (advance_clock LF e ts)"

lemma advance_clock_counters:
  "advance_clock LF (e\<lparr>en_counters := c\<rparr>) ts = (advance_clock LF e ts)\<lparr>en_counters := c\<rparr>"
  by (simp add: advance_clock_def Let_def)

lemma engine_process_flows:
  "en_flows (fst (engine_process log2 LF LR e f)) =
     (case parse (ec_link (en_config e)) f of
        Ok p \<Rightarrow> track_flow LF (clocked LF e (fr_ts_us f)) p
      | _ \<Rightarrow> clocked LF e (fr_ts_us f))"
  by (simp add: engine_process_def Let_def advance_clock_frame advance_clock_counters clocked_def
      split: result.splits option.splits prod.splits)

lemma engine_process_next_expiry:
  "en_next_expiry_us (fst (engine_process log2 LF LR e f)) = en_next_expiry_us (advance_clock LF e (fr_ts_us f))"
  by (simp add: engine_process_def Let_def advance_clock_frame advance_clock_counters
      split: result.splits option.splits prod.splits)

definition count_frame :: "link_type \<Rightarrow> counters \<Rightarrow> frame \<Rightarrow> counters" where
  "count_frame link c f =
     (let c = c\<lparr>ct_packets := ct_packets c + 1, ct_bytes := ct_bytes c + ucast (fr_wire_len f)\<rparr> in
      case parse link f of
        Ok p \<Rightarrow> count_packet p c
      | Err _ \<Rightarrow> c\<lparr>ct_parse_errors := ct_parse_errors c + 1\<rparr>
      | Panic \<Rightarrow> c)"

lemma engine_process_counters:
  "en_counters (fst (engine_process log2 LF LR e f)) = count_frame (ec_link (en_config e)) (en_counters e) f"
  by (simp add: engine_process_def Let_def advance_clock_frame count_frame_def
      split: result.splits option.splits prod.splits)

lemma engine_run_snoc:
  "engine_run log2 LF LR e (fs @ [f]) = fst (engine_process log2 LF LR (engine_run log2 LF LR e fs) f)"
  by (simp add: engine_run_def)

lemma engine_run_config: "en_config (engine_run log2 LF LR e fs) = en_config e"
  by (induction fs rule: rev_induct) (simp_all add: engine_run_snoc engine_process_config, simp add: engine_run_def)

lemma engine_run_counters:
  "en_counters (engine_run log2 LF LR e fs) = foldl (count_frame (ec_link (en_config e))) (en_counters e) fs"
  by (induction fs rule: rev_induct)
    (simp_all add: engine_run_snoc engine_process_counters engine_run_config, simp add: engine_run_def)

section \<open>The counters are counts\<close>

definition count_if :: "('a \<Rightarrow> bool) \<Rightarrow> 'a list \<Rightarrow> u64" where
  "count_if P xs = of_nat (length (filter P xs))"

lemma count_if_simps [simp]:
  "count_if P [] = 0" "count_if P (xs @ [x]) = count_if P xs + (if P x then 1 else 0)"
  by (simp_all add: count_if_def)

fun ok_packets :: "('e, 'a) result list \<Rightarrow> 'a list" where
  "ok_packets [] = []"
| "ok_packets (Ok p # rs) = p # ok_packets rs"
| "ok_packets (Err e # rs) = ok_packets rs"
| "ok_packets (Panic # rs) = ok_packets rs"

lemma ok_packets_append: "ok_packets (xs @ ys) = ok_packets xs @ ok_packets ys"
  by (induction xs rule: ok_packets.induct) auto

fun is_Err :: "('e, 'a) result \<Rightarrow> bool" where
  "is_Err (Err _) = True"
| "is_Err _ = False"

fun ip_version :: "packet \<Rightarrow> nat" where
  "ip_version p = (case pk_ip p of None \<Rightarrow> 0 | Some ip \<Rightarrow> if is_ipv4 (ip_src ip) then 4 else 6)"

definition count_transport_if :: "(transport \<Rightarrow> bool) \<Rightarrow> packet list \<Rightarrow> u64" where
  "count_transport_if P ps = count_if (\<lambda>p. P (pk_transport p)) ps"

text \<open>The counters that a list of frames should leave.\<close>

definition counters_of :: "link_type \<Rightarrow> frame list \<Rightarrow> counters" where
  "counters_of link fs =
     (let rs = map (parse link) fs; ps = ok_packets rs in
      \<lparr>ct_packets = of_nat (length fs),
       ct_bytes = sum_list (map (\<lambda>f. ucast (fr_wire_len f)) fs),
       ct_ipv4 = count_if (\<lambda>p. ip_version p = 4) ps,
       ct_ipv6 = count_if (\<lambda>p. ip_version p = 6) ps,
       ct_tcp = count_transport_if (\<lambda>t. \<exists>h. t = TransportTcp h) ps,
       ct_udp = count_transport_if (\<lambda>t. \<exists>h. t = TransportUdp h) ps,
       ct_icmp = count_transport_if (\<lambda>t. \<exists>h. t = TransportIcmp h) ps,
       ct_other_l4 = count_transport_if (\<lambda>t. \<exists>n. t = TransportOther n) ps,
       ct_non_ip = count_if (\<lambda>p. ip_version p = 0) ps,
       ct_fragments = count_if (\<lambda>p. \<exists>ip. pk_ip p = Some ip \<and> is_fragment ip) ps,
       ct_dns = count_if (\<lambda>p. \<exists>d. pk_app p = AppDns d) ps,
       ct_dns_errors = count_if (\<lambda>p. \<exists>d. pk_app p = AppDnsError d) ps,
       ct_parse_errors = count_if is_Err rs\<rparr>)"

lemma no_ip_wf: "packet_wf p \<Longrightarrow> pk_ip p = None \<Longrightarrow> pk_transport p = TransportNone \<and> pk_app p = AppNone"
  by (simp add: packet_wf_def)

lemma ip_transport: "packet_wf p \<Longrightarrow> pk_ip p = Some ip \<Longrightarrow> pk_transport p \<noteq> TransportNone"
  by (auto simp: packet_wf_def split: transport.splits)

lemma counters_of_snoc: "counters_of link (fs @ [f]) = count_frame link (counters_of link fs) f"
proof (cases "parse link f")
  case (Ok p)
  then have wf: "packet_wf p" using parse_wf by blast
  show ?thesis
  proof (cases "pk_ip p")
    case None
    with Ok no_ip_wf [OF wf None] show ?thesis
      by (simp add: counters_of_def count_frame_def Let_def ok_packets_append count_transport_if_def
          count_packet_def)
  next
    case (Some ip)
    with Ok show ?thesis
      by (cases "pk_transport p"; cases "pk_app p")
        (simp_all add: counters_of_def count_frame_def Let_def ok_packets_append count_transport_if_def
          count_packet_def count_transport_def count_app_def)
  qed
qed (simp_all add: counters_of_def count_frame_def Let_def ok_packets_append count_transport_if_def parse_not_panic)

lemma engine_counters:
  "en_counters (engine_run log2 LF LR (engine_new LF config) fs) = counters_of (ec_link config) fs"
proof (induction fs rule: rev_induct)
  case Nil
  then show ?case
    by (simp add: engine_run_def engine_new_def counters_of_def counters_default_def Let_def count_transport_if_def)
next
  case (snoc f fs)
  then show ?case
    by (simp add: engine_run_snoc engine_process_counters engine_run_config counters_of_snoc)
      (simp add: engine_new_def)
qed

lemma count_if_split:
  "(\<And>x. x \<in> set xs \<Longrightarrow> (P x \<longleftrightarrow> Q x \<or> R x) \<and> \<not> (Q x \<and> R x)) \<Longrightarrow> count_if P xs = count_if Q xs + count_if R xs"
  by (induction xs rule: rev_induct) (auto)

lemma length_ok_packets:
  "Panic \<notin> set rs \<Longrightarrow> of_nat (length rs) = count_if is_Err rs + of_nat (length (ok_packets rs))"
  by (induction rs rule: ok_packets.induct) (auto simp: count_if_def)

lemma set_ok_packets: "p \<in> set (ok_packets rs) \<longleftrightarrow> Ok p \<in> set rs"
  by (induction rs rule: ok_packets.induct) auto

lemma counters_partition:
  "ct_packets (counters_of link fs) =
     ct_parse_errors (counters_of link fs) + ct_non_ip (counters_of link fs) +
     ct_ipv4 (counters_of link fs) + ct_ipv6 (counters_of link fs)"
proof -
  let ?rs = "map (parse link) fs"
  let ?ps = "ok_packets ?rs"
  have "count_if (\<lambda>_. True) ?ps = count_if (\<lambda>p. ip_version p = 0) ?ps + count_if (\<lambda>p. ip_version p \<noteq> 0) ?ps"
    by (rule count_if_split) auto
  moreover have "count_if (\<lambda>p. ip_version p \<noteq> 0) ?ps =
      count_if (\<lambda>p. ip_version p = 4) ?ps + count_if (\<lambda>p. ip_version p = 6) ?ps"
    by (rule count_if_split) (auto split: option.splits)
  moreover have "Panic \<notin> set ?rs" using parse_not_panic by (auto simp: image_iff) metis
  then have "of_nat (length fs) = count_if is_Err ?rs + of_nat (length ?ps)"
    using length_ok_packets [of ?rs] by simp
  ultimately show ?thesis
    by (simp add: counters_of_def Let_def count_if_def [of "\<lambda>_. True"])
qed

section \<open>The flow table inside the engine\<close>

context flow_cache
begin

definition table_ok :: "usize \<Rightarrow> u64 \<Rightarrow> 'c flow_table \<Rightarrow> bool" where
  "table_ok n timeout t \<longleftrightarrow>
     valid (flows t) \<and> cap (flows t) = n \<and> entries_ok api t \<and> idle_timeout_us t = timeout"

lemma table_ok_new: "0 < n \<Longrightarrow> table_ok n timeout (flow_table_new api n timeout)"
  using new_ok [of n timeout] new [of n] by (simp add: table_ok_def flow_table_new_def)

lemma table_ok_expire: "table_ok n timeout t \<Longrightarrow> table_ok n timeout (fst (flow_expire api t now))"
proof -
  assume t: "table_ok n timeout t"
  obtain t' r where x: "flow_expire api t now = (t', r)" by force
  from t expire_exact [OF _ x] expire_ok [OF _ _ x] show ?thesis by (simp add: table_ok_def x)
qed

lemma table_ok_update: "table_ok n timeout t \<Longrightarrow> table_ok n timeout (fst (flow_table_update api t u))"
  using update_frame [of t u "fst (flow_table_update api t u)" "snd (flow_table_update api t u)"]
    update_ok [of t u "fst (flow_table_update api t u)" "snd (flow_table_update api t u)"]
  by (simp add: table_ok_def)

lemma table_ok_clocked: "table_ok n timeout (en_flows e) \<Longrightarrow> table_ok n timeout (clocked api e ts)"
  by (simp add: clocked_def advance_clock_def Let_def table_ok_expire)

lemma table_ok_track: "table_ok n timeout t \<Longrightarrow> table_ok n timeout (track_flow api t p)"
  by (simp add: track_flow_def table_ok_update split: option.splits)

lemma table_ok_process:
  "table_ok n timeout (en_flows e) \<Longrightarrow> table_ok n timeout (en_flows (fst (engine_process log2 api LR e f)))"
  by (simp add: engine_process_flows table_ok_clocked table_ok_track split: result.splits)

lemma table_ok_run:
  assumes "0 < ec_max_flows config"
  shows "table_ok (ec_max_flows config) (ec_flow_idle_timeout_us config)
    (en_flows (engine_run log2 api LR (engine_new api config) fs))"
proof (induction fs rule: rev_induct)
  case Nil
  then show ?case using table_ok_new [OF assms] by (simp add: engine_run_def engine_new_def)
qed (simp add: engine_run_snoc table_ok_process)

text \<open>
  How stale a flow can be when frames come in time order: the table is in order of the last
  packet, and every flow had a packet less than the timeout before the last expiry pass, which was
  less than a second ago.
\<close>

definition table_fresh :: "u64 \<Rightarrow> ('c, 'r) engine \<Rightarrow> bool" where
  "table_fresh timeout e \<longleftrightarrow>
     recency (entries_of (en_flows e)) \<and>
     (\<forall>x \<in> set (entries_of (en_flows e)). last_seen_us (snd x) \<le> en_last_ts_us e) \<and>
     (entries_of (en_flows e) = [] \<and> en_next_expiry_us e = 0 \<or>
      (\<exists>t0. unat (en_next_expiry_us e) = unat t0 + 1000000 \<and> t0 \<le> en_last_ts_us e \<and>
         en_last_ts_us e < en_next_expiry_us e \<and>
         (\<forall>x \<in> set (entries_of (en_flows e)). unat t0 < unat (last_seen_us (snd x)) + unat timeout)))"

lemma advance_fresh:
  assumes ok: "table_ok n timeout (en_flows e)" and fresh: "table_fresh timeout e"
    and ts: "en_last_ts_us e \<le> ts" and small: "unat ts + unat timeout + 1000000 < 2 ^ 64"
  shows "table_fresh timeout (advance_clock api e ts)" and "0 < en_next_expiry_us (advance_clock api e ts)"
proof -
  let ?es = "entries_of (en_flows e)"
  have now: "max (en_last_ts_us e) ts = ts" using ts by (simp add: max_def)
  have le: "\<forall>x \<in> set ?es. last_seen_us (snd x) \<le> ts"
    using fresh ts by (auto simp: table_fresh_def intro: order.trans)
  show "table_fresh timeout (advance_clock api e ts)"
  proof (cases "en_next_expiry_us e \<le> ts")
    case False
    then have "advance_clock api e ts = e\<lparr>en_last_ts_us := ts\<rparr>"
      by (simp add: advance_clock_def Let_def now)
    with fresh le ts False show ?thesis
      by (auto simp: table_fresh_def not_le intro: order.trans)
  next
    case True
    obtain t' r where x: "flow_expire api (en_flows e) ts = (t', r)" by force
    have small': "\<forall>e' \<in> set ?es. unat (last_seen_us (snd e')) + unat (idle_timeout_us (en_flows e)) < 2 ^ 64"
      using le small ok by (auto simp: table_ok_def word_le_nat_alt)
    have es': "entries_of t' = filter (\<lambda>x. \<not> idle_at timeout ts x) ?es"
      using expire_in_order [OF _ _ small' x] ok fresh by (simp add: table_ok_def table_fresh_def)
    have later: "unat (ts + EXPIRY_INTERVAL_US) = unat ts + 1000000"
      using small by (simp add: EXPIRY_INTERVAL_US_def unat_word_ariths)
    from True have "advance_clock api e ts =
        e\<lparr>en_last_ts_us := ts, en_flows := t', en_next_expiry_us := ts + EXPIRY_INTERVAL_US\<rparr>"
      by (simp add: advance_clock_def Let_def now x)
    moreover have "recency (filter (\<lambda>x. \<not> idle_at timeout ts x) ?es)"
      using fresh by (simp add: table_fresh_def recency_def sorted_wrt_filter)
    ultimately show ?thesis
      using le later by (auto simp: table_fresh_def es' idle_at_def word_less_nat_alt)
  qed
  have "unat (ts + EXPIRY_INTERVAL_US) = unat ts + 1000000"
    using small by (simp add: EXPIRY_INTERVAL_US_def unat_word_ariths)
  then have "0 < ts + EXPIRY_INTERVAL_US" by (simp add: word_less_nat_alt)
  then show "0 < en_next_expiry_us (advance_clock api e ts)"
    by (auto simp: advance_clock_def Let_def now not_le word_less_nat_alt)
qed

lemma track_fresh:
  assumes ok: "table_ok n timeout (en_flows e)" and fresh: "table_fresh timeout e"
    and ts: "pk_ts_us p = en_last_ts_us e" and started: "0 < en_next_expiry_us e" and pos: "0 < timeout"
    and small: "unat (en_last_ts_us e) + unat timeout + 1000000 < 2 ^ 64"
  shows "table_fresh timeout (e\<lparr>en_flows := track_flow api (en_flows e) p\<rparr>)"
proof (cases "pk_ip p = None \<or> pk_transport p = LaterFragment")
  case True
  then have "track_flow api (en_flows e) p = en_flows e"
    by (auto simp: track_flow_def split: option.splits)
  with fresh show ?thesis by (simp add: table_fresh_def)
next
  case False
  then obtain ip where "pk_ip p = Some ip" by auto
  define u where "u = flow_update_of p ip"
  have u_ts: "fu_ts_us u = en_last_ts_us e" using ts by (simp add: u_def flow_update_of_def Let_def split: prod.splits)
  obtain t' s where x: "flow_table_update api (en_flows e) u = (t', s)" by force
  have t': "track_flow api (en_flows e) p = t'"
    using False \<open>pk_ip p = Some ip\<close> x by (simp add: track_flow_def u_def)
  let ?es = "entries_of (en_flows e)"
  have v: "valid (flows (en_flows e))" and r: "recency ?es"
    and le: "\<forall>y \<in> set ?es. last_seen_us (snd y) \<le> fu_ts_us u"
    using ok fresh u_ts by (auto simp: table_ok_def table_fresh_def)
  from update_recency [OF v r le x] have r': "recency (entries_of t')" and s: "last_seen_us s = en_last_ts_us e"
    and le': "\<forall>y \<in> set (entries_of t'). last_seen_us (snd y) \<le> en_last_ts_us e" by (auto simp: u_ts)
  have sub: "set (entries_of t') \<subseteq> insert (fu_key u, s) (set ?es)"
    using update_miss [OF v _ x] update_hit [OF v _ x]
    by (cases "map_of ?es (fu_key u)") (auto simp: set_touch add_front_def dest: in_set_butlastD)
  obtain t0 where t0: "unat (en_next_expiry_us e) = unat t0 + 1000000" "t0 \<le> en_last_ts_us e"
    "en_last_ts_us e < en_next_expiry_us e"
    "\<forall>y \<in> set ?es. unat t0 < unat (last_seen_us (snd y)) + unat timeout"
    using fresh started by (auto simp: table_fresh_def)
  have "unat t0 < unat (en_last_ts_us e) + unat timeout"
    using t0(2) pos by (simp add: word_le_nat_alt word_less_nat_alt)
  then have "\<forall>y \<in> set (entries_of t'). unat t0 < unat (last_seen_us (snd y)) + unat timeout"
    using sub t0(4) s by fastforce
  with r' le' t0 show ?thesis by (auto simp: table_fresh_def t')
qed

lemma process_fresh:
  assumes ok: "table_ok n timeout (en_flows e)" and fresh: "table_fresh timeout e"
    and ts: "en_last_ts_us e \<le> fr_ts_us f" and pos: "0 < timeout"
    and small: "unat (fr_ts_us f) + unat timeout + 1000000 < 2 ^ 64"
  shows "table_fresh timeout (fst (engine_process log2 api LR e f))"
proof -
  let ?e = "advance_clock api e (fr_ts_us f)"
  let ?e' = "fst (engine_process log2 api LR e f)"
  have now: "en_last_ts_us ?e = fr_ts_us f" using ts by (simp add: advance_clock_frame max_def)
  have ok': "table_ok n timeout (en_flows ?e)" using table_ok_clocked [OF ok] by (simp add: clocked_def)
  have same: "en_last_ts_us ?e' = en_last_ts_us ?e" "en_next_expiry_us ?e' = en_next_expiry_us ?e"
    by (simp_all add: engine_process_clock engine_process_next_expiry advance_clock_frame)
  have fr: "table_fresh timeout ?e" and st: "0 < en_next_expiry_us ?e"
    using advance_fresh [OF ok fresh ts small] by auto
  show ?thesis
  proof (cases "parse (ec_link (en_config e)) f")
    case (Ok p)
    then have "pk_ts_us p = en_last_ts_us ?e" using parse_wf now by auto
    from track_fresh [OF ok' fr this st pos] small now have
      "table_fresh timeout (?e\<lparr>en_flows := track_flow api (en_flows ?e) p\<rparr>)" by simp
    with same Ok show ?thesis
      by (simp add: table_fresh_def engine_process_flows clocked_def)
  qed (use fr same in \<open>simp_all add: table_fresh_def engine_process_flows clocked_def\<close>)
qed

lemma run_fresh:
  assumes n: "0 < ec_max_flows config" and pos: "0 < ec_flow_idle_timeout_us config"
    and ord: "sorted (map fr_ts_us fs)"
    and small: "list_all (\<lambda>f. unat (fr_ts_us f) + unat (ec_flow_idle_timeout_us config) + 1000000 < 2 ^ 64) fs"
  shows "table_fresh (ec_flow_idle_timeout_us config) (engine_run log2 api LR (engine_new api config) fs) \<and>
    (fs \<noteq> [] \<longrightarrow> en_last_ts_us (engine_run log2 api LR (engine_new api config) fs) = fr_ts_us (last fs))"
  using ord small
proof (induction fs rule: rev_induct)
  case Nil
  then show ?case
    using new [OF n] by (simp add: engine_run_def engine_new_def table_fresh_def flow_table_new_def recency_def)
next
  case (snoc f fs)
  let ?e = "engine_run log2 api LR (engine_new api config) fs"
  have IH: "table_fresh (ec_flow_idle_timeout_us config) ?e" "fs \<noteq> [] \<Longrightarrow> en_last_ts_us ?e = fr_ts_us (last fs)"
    using snoc by (auto simp: sorted_append)
  have ts: "en_last_ts_us ?e \<le> fr_ts_us f"
    using IH(2) snoc.prems(1) by (cases "fs = []") (auto simp: sorted_append engine_run_def engine_new_def)
  have small: "unat (fr_ts_us f) + unat (ec_flow_idle_timeout_us config) + 1000000 < 2 ^ 64"
    using snoc.prems(2) by simp
  from process_fresh [OF table_ok_run [OF n] IH(1) ts pos small] ts show ?case
    by (simp add: engine_run_snoc engine_process_clock max_def)
qed

end

section \<open>Alerts that wait in the engine\<close>

definition with_alerts :: "('f, 'r) engine \<Rightarrow> alert list \<Rightarrow> ('f, 'r) engine" where
  "with_alerts e as = e\<lparr>en_alerts := as\<rparr>"

lemma with_alerts_simps [simp]:
  "en_alerts (with_alerts e as) = as" "with_alerts (with_alerts e as) bs = with_alerts e bs"
  "with_alerts e (en_alerts e) = e" "en_config (with_alerts e as) = en_config e"
  "en_flows (with_alerts e as) = en_flows e" "en_counters (with_alerts e as) = en_counters e"
  "en_last_ts_us (with_alerts e as) = en_last_ts_us e" "en_rules (with_alerts e as) = en_rules e"
  by (simp_all add: with_alerts_def)

text \<open>The alerts that wait do not influence the engine; new ones are appended.\<close>

lemma engine_process_alerts:
  "fst (engine_process log2 LF LR (with_alerts e as) f) =
     (let e' = fst (engine_process log2 LF LR (with_alerts e []) f) in with_alerts e' (as @ en_alerts e'))"
proof -
  have clock: "advance_clock LF (e\<lparr>en_alerts := as, en_counters := c\<rparr>) ts =
      (advance_clock LF (e\<lparr>en_alerts := [], en_counters := c\<rparr>) ts)\<lparr>en_alerts := as\<rparr>" for c ts
    by (simp add: advance_clock_def Let_def)
  show ?thesis
    by (cases "parse (ec_link (en_config e)) f"; cases "en_rules e")
      (simp_all add: engine_process_def with_alerts_def clock advance_clock_frame Let_def rules_evaluate_def)
qed

lemma engine_run_alerts:
  "engine_run log2 LF LR (with_alerts e as) fs =
     (let e' = engine_run log2 LF LR (with_alerts e []) fs in with_alerts e' (as @ en_alerts e'))"
proof (induction fs arbitrary: e as)
  case (Cons f fs)
  let ?p = "\<lambda>e. fst (engine_process log2 LF LR e f)"
  have run: "engine_run log2 LF LR e (f # fs) = engine_run log2 LF LR (?p e) fs" for e
    by (simp add: engine_run_def)
  let ?e' = "?p (with_alerts e [])"
  have "engine_run log2 LF LR (with_alerts e as) (f # fs) =
      engine_run log2 LF LR (with_alerts ?e' (as @ en_alerts ?e')) fs"
    unfolding run engine_process_alerts [of _ _ _ e as] by (simp add: Let_def)
  also have "\<dots> = (let r = engine_run log2 LF LR (with_alerts ?e' []) fs in
      with_alerts r ((as @ en_alerts ?e') @ en_alerts r))" by (rule Cons.IH)
  finally have l: "engine_run log2 LF LR (with_alerts e as) (f # fs) =
      (let r = engine_run log2 LF LR (with_alerts ?e' []) fs in
       with_alerts r ((as @ en_alerts ?e') @ en_alerts r))" .
  have "engine_run log2 LF LR (with_alerts e []) (f # fs) = engine_run log2 LF LR (with_alerts ?e' (en_alerts ?e')) fs"
    unfolding run by simp
  also have "\<dots> = (let r = engine_run log2 LF LR (with_alerts ?e' []) fs in
      with_alerts r (en_alerts ?e' @ en_alerts r))" by (rule Cons.IH)
  finally show ?case unfolding l by (simp add: Let_def)
qed (simp add: engine_run_def Let_def)

section \<open>Properties\<close>

text \<open>Processing a frame never panics, whatever the frame, the rules and the state: it returns
  what \<open>packet::parse\<close> returns, an error included, and the clock becomes the later of itself and
  the frame's time.\<close>

theorem engine_process_total:
  "snd (engine_process log2 LF LR e f) = parse (ec_link (en_config e)) f \<and>
   snd (engine_process log2 LF LR e f) \<noteq> Panic \<and>
   en_last_ts_us (fst (engine_process log2 LF LR e f)) = max (en_last_ts_us e) (fr_ts_us f)"
  by (simp add: engine_process_result engine_process_clock parse_not_panic)

text \<open>C4. The counters are counts: after any frames, each counter of a new engine is the number
  (modulo \<open>2 ^ 64\<close>) of frames, octets, parsed packets of its kind, or parse errors, and every
  frame is counted exactly once as a parse error, as not IP, as IPv4 or as IPv6.\<close>

theorem engine_counters_exact:
  "en_counters (engine_run log2 LF LR (engine_new LF config) fs) = counters_of (ec_link config) fs \<and>
   (let c = en_counters (engine_run log2 LF LR (engine_new LF config) fs)
    in ct_packets c = ct_parse_errors c + ct_non_ip c + ct_ipv4 c + ct_ipv6 c)"
  using counters_partition [of "ec_link config" fs] by (simp add: engine_counters Let_def)

text \<open>Memory is bounded and the table stays well formed: after any frames the flow table of an
  engine holds at most \<open>max_flows\<close> flows, each with \<open>first_seen_us \<le> last_seen_us\<close>, and the
  snapshot reports the number of them and the \<open>top_n\<close> largest.\<close>

theorem engine_bounded:
  assumes "flow_cache LF cap valid" and "0 < ec_max_flows config"
  shows "let e = engine_run log2 LF LR (engine_new LF config) fs; s = engine_snapshot LF e in
    sn_active_flows s = length (flow_iter LF (en_flows e)) \<and>
    sn_active_flows s \<le> ec_max_flows config \<and> entries_ok LF (en_flows e) \<and>
    length (sn_top_flows s) = min (ec_top_n config) (sn_active_flows s)"
proof -
  let ?e = "engine_run log2 LF LR (engine_new LF config) fs"
  have l: "lru LF cap valid" by (rule flow_cache.axioms [OF assms(1)])
  have ok: "valid (flows (en_flows ?e))" "cap (flows (en_flows ?e)) = ec_max_flows config" "entries_ok LF (en_flows ?e)"
    using flow_cache.table_ok_run [OF assms, of log2 LR fs] by (auto simp: flow_cache.table_ok_def [OF assms(1)])
  have c: "en_config ?e = config" by (simp add: engine_run_config engine_new_def)
  show ?thesis
    using lru.within_cap [OF l ok(1)] lru.len [OF l ok(1)] ok
      flow_cache.top_by_bytes_greatest [OF assms(1) ok(1), of "ec_top_n config"]
    by (simp add: engine_snapshot_def flow_len_def flow_iter_def c Let_def)
qed

definition sample_config :: engine_config where
  "sample_config = \<lparr>ec_link = LinkRaw, ec_max_flows = 4, ec_flow_idle_timeout_us = 5000000, ec_top_n = 2\<rparr>"

abbreviation sample_engine :: "((flow_key, flow_stats) list_lru, (ip_addr, source_state) list_lru) engine" where
  "sample_engine \<equiv> engine_new list_lru_api sample_config"

lemma engine_bounded_witness:
  "flow_len list_lru_api (en_flows (engine_run (\<lambda>x. x) list_lru_api list_lru_api sample_engine
     [\<lparr>fr_ts_us = 7, fr_wire_len = 0, fr_data = []\<rparr>])) \<le> 4"
  using engine_bounded [OF list_flows.flow_cache_axioms, of sample_config "\<lambda>x. x" list_lru_api
      "[\<lparr>fr_ts_us = 7, fr_wire_len = 0, fr_data = []\<rparr>]"]
  by (simp add: Let_def engine_snapshot_def sample_config_def)

text \<open>C12. Idle flows go: when frames come in time order (and no time plus the timeout and a second
  overflows), after every frame each flow in the table had a packet less than the idle timeout
  plus one second before the clock.\<close>

theorem idle_flows_expire:
  assumes "flow_cache LF cap valid" and "0 < ec_max_flows config" and "0 < ec_flow_idle_timeout_us config"
    and "sorted (map fr_ts_us fs)"
    and "list_all (\<lambda>f. unat (fr_ts_us f) + unat (ec_flow_idle_timeout_us config) + 1000000 < 2 ^ 64) fs"
  shows "list_all (\<lambda>(k, s). unat (en_last_ts_us (engine_run log2 LF LR (engine_new LF config) fs)) <
      unat (last_seen_us s) + unat (ec_flow_idle_timeout_us config) + 1000000)
    (flow_iter LF (en_flows (engine_run log2 LF LR (engine_new LF config) fs)))"
  using flow_cache.run_fresh [OF assms, of log2 LR]
  by (fastforce simp: flow_cache.table_fresh_def [OF assms(1)] flow_iter_def list_all_iff word_less_nat_alt)

lemma idle_flows_expire_witness:
  "list_all (\<lambda>(k, s). unat (en_last_ts_us (engine_run (\<lambda>x. x) list_lru_api list_lru_api sample_engine
       [\<lparr>fr_ts_us = 7, fr_wire_len = 0, fr_data = []\<rparr>, \<lparr>fr_ts_us = 9, fr_wire_len = 0, fr_data = []\<rparr>])) <
      6000000 + unat (last_seen_us s))
    (flow_iter list_lru_api (en_flows (engine_run (\<lambda>x. x) list_lru_api list_lru_api sample_engine
       [\<lparr>fr_ts_us = 7, fr_wire_len = 0, fr_data = []\<rparr>, \<lparr>fr_ts_us = 9, fr_wire_len = 0, fr_data = []\<rparr>])))"
  using idle_flows_expire [OF list_flows.flow_cache_axioms, of sample_config
      "[\<lparr>fr_ts_us = 7, fr_wire_len = 0, fr_data = []\<rparr>, \<lparr>fr_ts_us = 9, fr_wire_len = 0, fr_data = []\<rparr>]"
      "\<lambda>x. x" list_lru_api]
  by (simp add: sample_config_def)


end
