(* ===== verification/Pcap.thy ===== *)
theory Pcap
  imports Net_Types
begin

text \<open>
  \<open>core/src/pcap.rs\<close>: reading and writing capture files.  A reader \<open>R: Read\<close> is the list of what
  its next \<open>read\<close> calls give (octets, an interruption, an error), ending in end of file; a writer
  \<open>W: Write\<close> is a sink with the octets it holds and the room it has left.
\<close>

section \<open>Input and output\<close>

datatype io_error = UnexpectedEof | InvalidInput string | OtherIo string

datatype read_event = Chunk bytes | Interrupted | ReadError io_error

type_synonym reader = "read_event list"

datatype read_result = ReadOk bytes | ReadInterrupted | ReadErr io_error

text \<open>One call \<open>read(&mut buf)\<close> with room for \<open>n\<close> octets.\<close>

fun read_once :: "reader \<Rightarrow> usize \<Rightarrow> reader \<times> read_result" where
  "read_once [] n = ([], ReadOk [])"
| "read_once (Chunk bs # r) n =
     (if length bs \<le> n then (r, ReadOk bs) else (Chunk (drop n bs) # r, ReadOk (take n bs)))"
| "read_once (Interrupted # r) n = (r, ReadInterrupted)"
| "read_once (ReadError e # r) n = (r, ReadErr e)"

fun reader_size :: "reader \<Rightarrow> nat" where
  "reader_size [] = 0"
| "reader_size (Chunk bs # r) = Suc (length bs) + reader_size r"
| "reader_size (_ # r) = Suc (reader_size r)"

lemma read_once_progress:
  "0 < n \<Longrightarrow> read_once r n = (r', ReadOk bs) \<Longrightarrow> bs \<noteq> [] \<Longrightarrow> reader_size r' < reader_size r"
  "read_once r n = (r', ReadInterrupted) \<Longrightarrow> reader_size r' < reader_size r"
  by (cases "(r, n)" rule: read_once.cases; auto split: if_splits)+

lemma read_once_less:
  "(r', ReadOk bs) = read_once r (n - m) \<Longrightarrow> \<not> n \<le> m \<Longrightarrow> bs \<noteq> [] \<Longrightarrow> reader_size r' < reader_size r"
  "(r', ReadInterrupted) = read_once r k \<Longrightarrow> reader_size r' < reader_size r"
  using read_once_progress(1) [of "n - m" r r' bs] read_once_progress(2) [of r k r'] by simp_all

lemma read_once_length: "read_once r n = (r', ReadOk bs) \<Longrightarrow> length bs \<le> n"
  by (cases "(r, n)" rule: read_once.cases) (auto split: if_splits)

text \<open>\<open>Read::read_exact\<close>: fill the whole buffer of \<open>n\<close> octets; \<open>acc\<close> is what is filled so far.\<close>

function read_exact :: "reader \<Rightarrow> usize \<Rightarrow> bytes \<Rightarrow> reader \<times> (io_error, bytes) result" where
  "read_exact r n acc =
     (if length acc \<ge> n then (r, Ok acc)
      else case read_once r (n - length acc) of
          (r', ReadOk bs) \<Rightarrow> if bs = [] then (r', Err UnexpectedEof) else read_exact r' n (acc @ bs)
        | (r', ReadInterrupted) \<Rightarrow> read_exact r' n acc
        | (r', ReadErr e) \<Rightarrow> (r', Err e))"
  by pat_completeness auto
termination
  by (relation "measure (\<lambda>(r, n, acc). reader_size r)") (auto dest: read_once_less)

declare read_exact.simps [simp del]

datatype read_outcome = Full bytes | Partial | Eof

function read_full_or_eof :: "reader \<Rightarrow> usize \<Rightarrow> bytes \<Rightarrow> reader \<times> (io_error, read_outcome) result" where
  "read_full_or_eof r n acc =
     (if length acc \<ge> n then (r, Ok (Full acc))
      else case read_once r (n - length acc) of
          (r', ReadOk bs) \<Rightarrow>
            if bs = [] \<and> acc = [] then (r', Ok Eof)
            else if bs = [] then (r', Ok Partial)
            else read_full_or_eof r' n (acc @ bs)
        | (r', ReadInterrupted) \<Rightarrow> read_full_or_eof r' n acc
        | (r', ReadErr e) \<Rightarrow> (r', Err e))"
  by pat_completeness auto
termination
  by (relation "measure (\<lambda>(r, n, acc). reader_size r)") (auto dest: read_once_less)

declare read_full_or_eof.simps [simp del]

record sink =
  sk_written :: bytes
  sk_room :: "usize option"  \<comment> \<open>\<open>None\<close>: no limit\<close>

definition write_all :: "sink \<Rightarrow> bytes \<Rightarrow> sink \<times> (io_error, unit) result" where
  "write_all s bs =
     (case sk_room s of
        None \<Rightarrow> (s\<lparr>sk_written := sk_written s @ bs\<rparr>, Ok ())
      | Some room \<Rightarrow>
          if length bs \<le> room
          then (s\<lparr>sk_written := sk_written s @ bs, sk_room := Some (room - length bs)\<rparr>, Ok ())
          else (s\<lparr>sk_written := sk_written s @ take room bs, sk_room := Some 0\<rparr>,
                Err (OtherIo ''failed to write whole buffer'')))"

section \<open>Constants and errors\<close>

definition MAGIC_MICROS :: u32 where "MAGIC_MICROS = 0xA1B2C3D4"
definition MAGIC_NANOS :: u32 where "MAGIC_NANOS = 0xA1B23C4D"
definition GLOBAL_HEADER_LEN :: usize where "GLOBAL_HEADER_LEN = 24"
definition RECORD_HEADER_LEN :: usize where "RECORD_HEADER_LEN = 16"
definition VERSION_MAJOR :: u16 where "VERSION_MAJOR = 2"
definition VERSION_MINOR :: u16 where "VERSION_MINOR = 4"
definition MAX_RECORD_LEN :: u32 where "MAX_RECORD_LEN = 262144"
definition PCAP_MICROS_PER_SEC :: u64 where "PCAP_MICROS_PER_SEC = 1000000"
definition NANOS_PER_MICRO :: u64 where "NANOS_PER_MICRO = 1000"

lemmas pcap_consts = MAGIC_MICROS_def MAGIC_NANOS_def GLOBAL_HEADER_LEN_def RECORD_HEADER_LEN_def
  VERSION_MAJOR_def VERSION_MINOR_def MAX_RECORD_LEN_def PCAP_MICROS_PER_SEC_def NANOS_PER_MICRO_def

datatype pcap_error =
  PcapIo io_error
| BadMagic u32
| UnsupportedLinkType u32
| RecordTooLarge u32
| TruncatedRecord

definition pad_left :: "char \<Rightarrow> nat \<Rightarrow> string \<Rightarrow> string" where
  "pad_left c n s = replicate (n - length s) c @ s"

text \<open>\<open>Display\<close>; the text of an \<open>io::Error\<close> is the operating system's and stays a parameter.\<close>

fun show_pcap_error :: "(io_error \<Rightarrow> string) \<Rightarrow> pcap_error \<Rightarrow> string" where
  "show_pcap_error show_io (PcapIo e) = ''pcap io: '' @ show_io e"
| "show_pcap_error show_io (BadMagic m) =
     ''not a pcap file (magic 0x'' @ pad_left CHR ''0'' 8 (show_hex (unat m)) @ '')''"
| "show_pcap_error show_io (UnsupportedLinkType t) = ''unsupported link type '' @ show_nat (unat t)"
| "show_pcap_error show_io (RecordTooLarge n) =
     ''record of '' @ show_nat (unat n) @ '' bytes exceeds limit''"
| "show_pcap_error show_io TruncatedRecord = ''file ends in the middle of a record''"

section \<open>Reading\<close>

record record_header =
  rh_ts_us :: u64
  rh_cap_len :: u32
  rh_wire_len :: u32

record pcap_reader =
  pr_inner :: reader
  pr_link :: link_type
  pr_swapped :: bool
  pr_nanos :: bool

definition read_u32 :: "bytes \<Rightarrow> bool \<Rightarrow> u32" where
  "read_u32 bs swapped = (let raw = from_le (take 4 bs) in if swapped then swap_bytes32 raw else raw)"

definition pcap_reader_new :: "reader \<Rightarrow> (pcap_error, pcap_reader) result" where
  "pcap_reader_new inner =
     (case read_exact inner GLOBAL_HEADER_LEN [] of
        (inner, Err e) \<Rightarrow> Err (PcapIo e)
      | (inner, Panic) \<Rightarrow> Panic
      | (inner, Ok header) \<Rightarrow>
          let raw_magic = from_le (take 4 header) :: u32 in
          and_then
            (if raw_magic = MAGIC_MICROS then Ok (False, False)
             else if raw_magic = MAGIC_NANOS then Ok (False, True)
             else if swap_bytes32 raw_magic = MAGIC_MICROS then Ok (True, False)
             else if swap_bytes32 raw_magic = MAGIC_NANOS then Ok (True, True)
             else Err (BadMagic raw_magic))
            (\<lambda>(swapped, nanos).
              let raw_link = read_u32 (take 4 (drop 20 header)) swapped in
              and_then (ok_or (link_from_raw raw_link) (UnsupportedLinkType raw_link)) (\<lambda>link.
                Ok \<lparr>pr_inner = inner, pr_link = link, pr_swapped = swapped, pr_nanos = nanos\<rparr>)))"

definition pcap_next_record ::
  "pcap_reader \<Rightarrow> pcap_reader \<times> (pcap_error, (record_header \<times> bytes) option) result" where
  "pcap_next_record p =
     (case read_full_or_eof (pr_inner p) RECORD_HEADER_LEN [] of
        (inner, Err e) \<Rightarrow> (p\<lparr>pr_inner := inner\<rparr>, Err (PcapIo e))
      | (inner, Panic) \<Rightarrow> (p\<lparr>pr_inner := inner\<rparr>, Panic)
      | (inner, Ok Eof) \<Rightarrow> (p\<lparr>pr_inner := inner\<rparr>, Ok None)
      | (inner, Ok Partial) \<Rightarrow> (p\<lparr>pr_inner := inner\<rparr>, Err TruncatedRecord)
      | (inner, Ok (Full header)) \<Rightarrow>
          let sec = ucast (read_u32 (take 4 header) (pr_swapped p)) :: u64;
              frac = ucast (read_u32 (take 4 (drop 4 header)) (pr_swapped p)) :: u64;
              cap_len = read_u32 (take 4 (drop 8 header)) (pr_swapped p);
              wire_len = read_u32 (take 4 (drop 12 header)) (pr_swapped p)
          in if cap_len > MAX_RECORD_LEN then (p\<lparr>pr_inner := inner\<rparr>, Err (RecordTooLarge cap_len))
             else (case read_exact inner (unat cap_len) [] of
                 (inner, Err e) \<Rightarrow>
                   (p\<lparr>pr_inner := inner\<rparr>, Err (if e = UnexpectedEof then TruncatedRecord else PcapIo e))
               | (inner, Panic) \<Rightarrow> (p\<lparr>pr_inner := inner\<rparr>, Panic)
               | (inner, Ok buf) \<Rightarrow>
                   let micros = (if pr_nanos p then frac div NANOS_PER_MICRO else frac) in
                   (p\<lparr>pr_inner := inner\<rparr>,
                    Ok (Some (\<lparr>rh_ts_us = sec * PCAP_MICROS_PER_SEC + micros, rh_cap_len = cap_len,
                               rh_wire_len = wire_len\<rparr>, buf)))))"

section \<open>Writing\<close>

definition pcap_writer_new :: "sink \<Rightarrow> link_type \<Rightarrow> u32 \<Rightarrow> sink \<times> (io_error, unit) result" where
  "pcap_writer_new inner link snaplen =
     write_all inner
       (to_le 4 MAGIC_MICROS @ to_le 2 VERSION_MAJOR @ to_le 2 VERSION_MINOR @ to_le 4 (0 :: u32) @
        to_le 4 (0 :: u32) @ to_le 4 snaplen @ to_le 4 (link_as_u32 link))"

fun write_each :: "sink \<Rightarrow> bytes list \<Rightarrow> sink \<times> (io_error, unit) result" where
  "write_each s [] = (s, Ok ())"
| "write_each s (bs # rest) =
     (case write_all s bs of
        (s, Ok _) \<Rightarrow> write_each s rest
      | (s, Err e) \<Rightarrow> (s, Err e)
      | (s, Panic) \<Rightarrow> (s, Panic))"

definition pcap_write_record :: "sink \<Rightarrow> u64 \<Rightarrow> bytes \<Rightarrow> sink \<times> (io_error, unit) result" where
  "pcap_write_record s ts data =
     (case try_from_usize (length data) :: u32 option of
        None \<Rightarrow> (s, Err (InvalidInput ''record too large''))
      | Some len \<Rightarrow>
          (case try_from_usize (unat (ts div PCAP_MICROS_PER_SEC)) :: u32 option of
             None \<Rightarrow> (s, Err (InvalidInput ''timestamp past 2106''))
           | Some sec \<Rightarrow>
               let usec = ucast (ts mod PCAP_MICROS_PER_SEC) :: u32
               in write_each s [to_le 4 sec, to_le 4 usec, to_le 4 len, to_le 4 len, data]))"

section \<open>Reads see only the octets\<close>

text \<open>
  A reader that delivers its octets in any pieces, with interruptions anywhere but no error, is
  \<open>clean\<close>; how it cuts them makes no difference to what is read.
\<close>

fun clean :: "reader \<Rightarrow> bool" where
  "clean [] \<longleftrightarrow> True"
| "clean (Chunk bs # r) \<longleftrightarrow> bs \<noteq> [] \<and> clean r"
| "clean (Interrupted # r) \<longleftrightarrow> clean r"
| "clean (ReadError e # r) \<longleftrightarrow> False"

fun contents :: "reader \<Rightarrow> bytes" where
  "contents [] = []"
| "contents (Chunk bs # r) = bs @ contents r"
| "contents (_ # r) = contents r"

lemma read_once_clean:
  assumes "clean r" and "0 < n" and "read_once r n = (r', out)"
  obtains bs where "out = ReadOk bs" "clean r'" "contents r = bs @ contents r'" "length bs \<le> n"
      "bs = [] \<longleftrightarrow> contents r = []"
    | "out = ReadInterrupted" "clean r'" "contents r' = contents r"
  using assms by (cases "(r, n)" rule: read_once.cases) (auto split: if_splits)

lemma read_exact_clean:
  "clean r \<Longrightarrow> length acc \<le> n \<Longrightarrow>
   (if n \<le> length acc + length (contents r)
    then \<exists>r'. read_exact r n acc = (r', Ok (acc @ take (n - length acc) (contents r))) \<and> clean r' \<and>
      contents r' = drop (n - length acc) (contents r)
    else \<exists>r'. read_exact r n acc = (r', Err UnexpectedEof) \<and> clean r' \<and> contents r' = [])"
proof (induction r n acc rule: read_exact.induct)
  case (1 r n acc)
  show ?case
  proof (cases "n \<le> length acc")
    case True
    with 1(3,4) show ?thesis by (subst read_exact.simps) auto
  next
    case False
    obtain r' out where once: "read_once r (n - length acc) = (r', out)" by force
    from False have "0 < n - length acc" by simp
    from read_once_clean [OF \<open>clean r\<close> this once] show ?thesis
    proof cases
      case (1 bs)
      show ?thesis
      proof (cases "bs = []")
        case True
        with 1 once False show ?thesis by (subst (1 2) read_exact.simps) auto
      next
        case ne: False
        have step: "read_exact r n acc = read_exact r' n (acc @ bs)"
          using False once 1 ne by (subst read_exact.simps) simp
        have "length (acc @ bs) \<le> n" using 1 False by simp
        from "1.IH"(1) [OF False once [symmetric] 1(1) ne 1(2) this] show ?thesis
          unfolding step using 1(3,4) by (auto split: if_splits)
      qed
    next
      case 2
      have step: "read_exact r n acc = read_exact r' n acc"
        using False once 2 by (subst read_exact.simps) simp
      from "1.IH"(2) [OF False once [symmetric] 2(1,2) "1.prems"(2)] show ?thesis
        unfolding step using 2(3) by (auto split: if_splits)
    qed
  qed
qed

lemma read_full_clean:
  "clean r \<Longrightarrow> length acc \<le> n \<Longrightarrow> 0 < n \<Longrightarrow>
   (if n \<le> length acc + length (contents r)
    then \<exists>r'. read_full_or_eof r n acc = (r', Ok (Full (acc @ take (n - length acc) (contents r)))) \<and> clean r' \<and>
      contents r' = drop (n - length acc) (contents r)
    else \<exists>r'. read_full_or_eof r n acc = (r', Ok (if acc = [] \<and> contents r = [] then Eof else Partial)) \<and>
      clean r' \<and> contents r' = [])"
proof (induction r n acc rule: read_full_or_eof.induct)
  case (1 r n acc)
  show ?case
  proof (cases "n \<le> length acc")
    case True
    with 1(3,4,5) show ?thesis by (subst read_full_or_eof.simps) auto
  next
    case False
    obtain r' out where once: "read_once r (n - length acc) = (r', out)" by force
    from False have "0 < n - length acc" by simp
    from read_once_clean [OF \<open>clean r\<close> this once] show ?thesis
    proof cases
      case (1 bs)
      show ?thesis
      proof (cases "bs = []")
        case True
        with 1 once False show ?thesis by (subst (1 2) read_full_or_eof.simps) auto
      next
        case ne: False
        have step: "read_full_or_eof r n acc = read_full_or_eof r' n (acc @ bs)"
          using False once 1 ne by (subst read_full_or_eof.simps) simp
        have "length (acc @ bs) \<le> n" using 1 False by simp
        from "1.IH"(1) [OF False once [symmetric] 1(1) _ _ 1(2) this] ne "1.prems"(3) show ?thesis
          unfolding step using 1(3,4) by (auto split: if_splits)
      qed
    next
      case 2
      have step: "read_full_or_eof r n acc = read_full_or_eof r' n acc"
        using False once 2 by (subst read_full_or_eof.simps) simp
      from "1.IH"(2) [OF False once [symmetric] 2(1,2) "1.prems"(2,3)] show ?thesis
        unfolding step using 2(3) by (auto split: if_splits)
    qed
  qed
qed

text \<open>Neither loop panics, on any reader.\<close>

lemma read_exact_not_panic [panic_free]: "snd (read_exact r n acc) \<noteq> Panic"
proof (induction r n acc rule: read_exact.induct)
  case (1 r n acc)
  then show ?case by (subst read_exact.simps) (auto split: prod.splits read_result.splits)
qed

lemma read_full_not_panic [panic_free]: "snd (read_full_or_eof r n acc) \<noteq> Panic"
proof (induction r n acc rule: read_full_or_eof.induct)
  case (1 r n acc)
  then show ?case by (subst read_full_or_eof.simps) (auto split: prod.splits read_result.splits)
qed

lemma read_exact_size: "reader_size (fst (read_exact r n acc)) \<le> reader_size r"
proof (induction r n acc rule: read_exact.induct)
  case (1 r n acc)
  have le: "reader_size r' \<le> reader_size r" if "read_once r m = (r', out)" for r' out m
    using that by (cases "(r, m)" rule: read_once.cases) (auto split: if_splits)
  obtain r1 out where once: "read_once r (n - length acc) = (r1, out)" by force
  show ?case
  proof (cases "n \<le> length acc")
    case False
    show ?thesis
    proof (cases out)
      case (ReadOk bs)
      with 1(1) [OF False once [symmetric] ReadOk] le [OF once] once False show ?thesis
        by (subst read_exact.simps) auto
    next
      case ReadInterrupted
      with 1(2) [OF False once [symmetric] ReadInterrupted] le [OF once] once False show ?thesis
        by (subst read_exact.simps) simp
    next
      case (ReadErr e)
      with le [OF once] once False show ?thesis by (subst read_exact.simps) simp
    qed
  qed (simp add: read_exact.simps [of r])
qed

lemma read_full_size:
  "read_full_or_eof r n acc = (r', Ok (Full bs)) \<Longrightarrow> length acc < n \<Longrightarrow> reader_size r' < reader_size r"
proof (induction r n acc rule: read_full_or_eof.induct)
  case (1 r n acc)
  have full: "reader_size r2 \<le> reader_size r1"
    if "read_full_or_eof r1 n acc1 = (r2, Ok (Full bs))" "length acc1 < n \<Longrightarrow> reader_size r2 < reader_size r1"
    for r1 r2 acc1
    using that by (cases "length acc1 < n") (auto simp: read_full_or_eof.simps [of r1] split: if_splits)
  obtain r1 out where once: "read_once r (n - length acc) = (r1, out)" by force
  from 1(4) have m: "0 < n - length acc" "\<not> n \<le> length acc" by auto
  show ?case
  proof (cases out)
    case (ReadOk cs)
    with 1(3) once m have ne: "cs \<noteq> []" and rec: "read_full_or_eof r1 n (acc @ cs) = (r', Ok (Full bs))"
      by (auto simp: read_full_or_eof.simps [of r] split: if_splits)
    from read_once_progress(1) [OF m(1) once [unfolded ReadOk] ne] full [OF rec]
      "1.IH"(1) [OF m(2) once [symmetric] ReadOk _ _ rec] ne show ?thesis by auto
  next
    case ReadInterrupted
    with 1(3) once m have rec: "read_full_or_eof r1 n acc = (r', Ok (Full bs))"
      by (auto simp: read_full_or_eof.simps [of r] split: if_splits)
    from read_once_progress(2) [OF once [unfolded ReadInterrupted]]
      "1.IH"(2) [OF m(2) once [symmetric] ReadInterrupted rec 1(4)] show ?thesis by simp
  next
    case (ReadErr e)
    with 1(3) once m show ?thesis by (auto simp: read_full_or_eof.simps [of r] split: if_splits)
  qed
qed

section \<open>Files as octets\<close>

text \<open>The layout of a capture file, in either byte order and with either resolution.\<close>

definition encode_u32 :: "bool \<Rightarrow> u32 \<Rightarrow> bytes" where
  "encode_u32 swapped w = (if swapped then to_be 4 w else to_le 4 w)"

definition magic_of :: "bool \<Rightarrow> u32" where
  "magic_of nanos = (if nanos then MAGIC_NANOS else MAGIC_MICROS)"

definition file_header :: "bool \<Rightarrow> bool \<Rightarrow> bytes \<Rightarrow> u32 \<Rightarrow> bytes" where
  "file_header swapped nanos middle raw_link =
     encode_u32 swapped (magic_of nanos) @ middle @ encode_u32 swapped raw_link"

definition record_bytes :: "bool \<Rightarrow> u32 \<Rightarrow> u32 \<Rightarrow> u32 \<Rightarrow> bytes \<Rightarrow> bytes" where
  "record_bytes swapped sec frac wire data =
     encode_u32 swapped sec @ encode_u32 swapped frac @ encode_u32 swapped (of_nat (length data)) @
     encode_u32 swapped wire @ data"

definition record_time :: "bool \<Rightarrow> u32 \<Rightarrow> u32 \<Rightarrow> u64" where
  "record_time nanos sec frac =
     ucast sec * PCAP_MICROS_PER_SEC + (if nanos then ucast frac div NANOS_PER_MICRO else ucast frac)"

lemma length_encode_u32 [simp]: "length (encode_u32 s w) = 4"
  by (simp add: encode_u32_def)

lemma encode_u32_nonempty [simp]: "encode_u32 s w \<noteq> []"
  by (metis length_0_conv length_encode_u32 zero_neq_numeral)

lemma read_u32_encode [simp]: "read_u32 (encode_u32 s w) s = w"
  by (auto simp: read_u32_def encode_u32_def Let_def from_le_to_le swap_bytes32_def to_le_from_le from_be_to_be)

lemma swap_encode: "from_le (encode_u32 s w) = (if s then swap_bytes32 w else w)"
  by (auto simp: encode_u32_def from_le_to_le swap_bytes32_def to_be_def from_be_def)

lemma to_le_4: "to_le 4 w = [ucast w, ucast (drop_bit 8 w), ucast (drop_bit 8 (drop_bit 8 w)),
    ucast (drop_bit 8 (drop_bit 8 (drop_bit 8 w)))]"
proof -
  have "(4 :: nat) = Suc (Suc (Suc (Suc 0)))" by simp
  then show ?thesis by (simp only: to_le.simps)
qed

lemma swap_magics:
  "swap_bytes32 MAGIC_MICROS = 0xD4C3B2A1" "swap_bytes32 MAGIC_NANOS = 0x4D3CB2A1"
  by (simp_all add: swap_bytes32_def pcap_consts from_be_def to_le_4)

lemma magic_distinct:
  "MAGIC_NANOS \<noteq> MAGIC_MICROS" "swap_bytes32 MAGIC_MICROS \<noteq> MAGIC_MICROS"
  "swap_bytes32 MAGIC_MICROS \<noteq> MAGIC_NANOS" "swap_bytes32 MAGIC_NANOS \<noteq> MAGIC_MICROS"
  "swap_bytes32 MAGIC_NANOS \<noteq> MAGIC_NANOS"
  unfolding swap_magics by (simp_all add: pcap_consts)

lemma reader_new_clean:
  assumes "clean r" and "contents r = file_header swapped nanos middle raw_link @ rest"
    and "length middle = 16" and "link_from_raw raw_link = Some link"
  obtains r' where "pcap_reader_new r = Ok \<lparr>pr_inner = r', pr_link = link, pr_swapped = swapped, pr_nanos = nanos\<rparr>"
    "clean r'" "contents r' = rest"
proof -
  define h where "h = file_header swapped nanos middle raw_link"
  have len: "length h = 24" using assms(3) by (simp add: h_def file_header_def)
  from read_exact_clean [OF assms(1), of "[]" 24] assms(2) len
  obtain r' where r': "read_exact r 24 [] = (r', Ok h)" "clean r'" "contents r' = rest" by (auto simp: h_def)
  have m: "take 4 h = encode_u32 swapped (magic_of nanos)" and l: "take 4 (drop 20 h) = encode_u32 swapped raw_link"
    using assms(3) by (simp_all add: h_def file_header_def)
  have "pcap_reader_new r = Ok \<lparr>pr_inner = r', pr_link = link, pr_swapped = swapped, pr_nanos = nanos\<rparr>"
    using r'(1) assms(4)
    by (cases swapped; cases nanos)
      (simp_all add: pcap_reader_new_def GLOBAL_HEADER_LEN_def m l swap_encode magic_of_def magic_distinct Let_def)
  with r' show thesis by (intro that)
qed

lemma next_record_clean:
  assumes "clean (pr_inner p)" and "contents (pr_inner p) = record_bytes (pr_swapped p) sec frac wire data @ rest"
    and "length data \<le> 262144"
  obtains r' where "pcap_next_record p = (p\<lparr>pr_inner := r'\<rparr>,
      Ok (Some (\<lparr>rh_ts_us = record_time (pr_nanos p) sec frac, rh_cap_len = of_nat (length data),
        rh_wire_len = wire\<rparr>, data)))"
    "clean r'" "contents r' = rest"
proof -
  let ?s = "pr_swapped p"
  let ?h = "encode_u32 ?s sec @ encode_u32 ?s frac @ encode_u32 ?s (of_nat (length data)) @ encode_u32 ?s wire"
  have c: "contents (pr_inner p) = ?h @ data @ rest" using assms(2) by (simp add: record_bytes_def)
  from read_full_clean [OF assms(1), of "[]" 16] c
  obtain r1 where r1: "read_full_or_eof (pr_inner p) 16 [] = (r1, Ok (Full ?h))" "clean r1" "contents r1 = data @ rest"
    by auto
  have n: "unat (of_nat (length data) :: u32) = length data"
    using assms(3) by (simp add: unat_of_nat)
  from read_exact_clean [OF r1(2), of "[]" "length data"] r1(3)
  obtain r' where r': "read_exact r1 (length data) [] = (r', Ok data)" "clean r'" "contents r' = rest"
    by auto
  have "\<not> MAX_RECORD_LEN < of_nat (length data)"
    using n assms(3) by (simp add: word_less_nat_alt pcap_consts)
  with r1(1) r'(1) have "pcap_next_record p = (p\<lparr>pr_inner := r'\<rparr>,
      Ok (Some (\<lparr>rh_ts_us = record_time (pr_nanos p) sec frac, rh_cap_len = of_nat (length data),
        rh_wire_len = wire\<rparr>, data)))"
    by (simp add: pcap_next_record_def RECORD_HEADER_LEN_def Let_def n record_time_def)
  with r' show thesis by (intro that)
qed

lemma next_record_end:
  assumes "clean (pr_inner p)" and "contents (pr_inner p) = []"
  shows "snd (pcap_next_record p) = Ok None"
  using read_full_clean [OF assms(1), of "[]" 16] assms(2)
  by (auto simp: pcap_next_record_def RECORD_HEADER_LEN_def)

section \<open>Whole files\<close>

text \<open>
  Reading to the end, as every caller does: the records and, when the file does not end well, the
  error.
\<close>

lemma next_record_less:
  "pcap_next_record p = (p', Ok (Some rec)) \<Longrightarrow> reader_size (pr_inner p') < reader_size (pr_inner p)"
proof -
  assume rec: "pcap_next_record p = (p', Ok (Some rec))"
  then obtain r1 h where r1: "read_full_or_eof (pr_inner p) 16 [] = (r1, Ok (Full h))"
    by (auto simp: pcap_next_record_def RECORD_HEADER_LEN_def split: prod.splits result.splits read_outcome.splits)
  with rec obtain n buf where r2: "read_exact r1 n [] = (pr_inner p', Ok buf)"
    by (auto simp: pcap_next_record_def RECORD_HEADER_LEN_def Let_def
        split: prod.splits result.splits if_splits)
  from read_full_size [OF r1] read_exact_size [of r1 n "[]"] r2 show ?thesis by simp
qed

function pcap_records :: "pcap_reader \<Rightarrow> (record_header \<times> bytes) list \<times> pcap_error option" where
  "pcap_records p =
     (case pcap_next_record p of
        (p', Ok (Some record)) \<Rightarrow> apfst ((#) record) (pcap_records p')
      | (p', Ok None) \<Rightarrow> ([], None)
      | (p', Err e) \<Rightarrow> ([], Some e)
      | (p', Panic) \<Rightarrow> ([], None))"
  by pat_completeness auto
termination
  by (relation "measure (\<lambda>p. reader_size (pr_inner p))") (auto dest: next_record_less [OF sym])

declare pcap_records.simps [simp del]

text \<open>Writing a list of records into a sink.\<close>

fun write_records :: "sink \<Rightarrow> (u64 \<times> bytes) list \<Rightarrow> sink \<times> (io_error, unit) result" where
  "write_records s [] = (s, Ok ())"
| "write_records s ((ts, data) # rs) =
     (case pcap_write_record s ts data of
        (s, Ok _) \<Rightarrow> write_records s rs
      | (s, Err e) \<Rightarrow> (s, Err e)
      | (s, Panic) \<Rightarrow> (s, Panic))"

definition writable :: "u64 \<times> bytes \<Rightarrow> bool" where
  "writable = (\<lambda>(ts, data). unat ts div 1000000 < 2 ^ 32 \<and> length data \<le> 262144)"

definition written_record :: "u64 \<times> bytes \<Rightarrow> bytes" where
  "written_record = (\<lambda>(ts, data).
     record_bytes False (of_nat (unat ts div 1000000)) (of_nat (unat ts mod 1000000)) (of_nat (length data)) data)"

lemma write_record_unlimited:
  assumes "writable (ts, data)" and "sk_room s = None"
  shows "pcap_write_record s ts data = (s\<lparr>sk_written := sk_written s @ written_record (ts, data)\<rparr>, Ok ())"
proof -
  have "unat ts mod 1000000 < 1000000" by simp
  then have "unat ts mod 1000000 < 2 ^ 32" by simp
  then have u: "(ucast (ts mod PCAP_MICROS_PER_SEC) :: u32) = of_nat (unat ts mod 1000000)"
    by (simp add: word_unat_eq_iff unsigned_ucast_eq take_bit_eq_mod unat_of_nat unat_mod pcap_consts)
  show ?thesis
    using assms
    by (simp add: pcap_write_record_def try_from_usize_def unat_div pcap_consts writable_def write_all_def
        written_record_def record_bytes_def encode_u32_def u [unfolded pcap_consts] Let_def)
qed

lemma record_time_written:
  assumes "unat ts div 1000000 < 2 ^ 32"
  shows "record_time False (of_nat (unat ts div 1000000)) (of_nat (unat ts mod 1000000)) = ts"
proof -
  let ?q = "unat ts div 1000000" and ?r = "unat ts mod 1000000"
  have "?r < 1000000" by simp
  then have r: "?r < 2 ^ 32" by simp
  have q64: "(ucast (of_nat ?q :: u32) :: u64) = of_nat ?q" and r64: "(ucast (of_nat ?r :: u32) :: u64) = of_nat ?r"
    using assms r by (simp_all add: word_unat_eq_iff unsigned_ucast_eq take_bit_eq_mod unat_of_nat)
  have "?q * 1000000 + ?r = unat ts" by simp
  then have "(of_nat (?q * 1000000 + ?r) :: u64) = of_nat (unat ts)" by (rule arg_cong)
  then have eq: "(of_nat ?q * 1000000 + of_nat ?r :: u64) = ts"
    by (simp only: of_nat_add of_nat_mult of_nat_numeral of_nat_unat ucast_id)
  show ?thesis unfolding record_time_def q64 r64 PCAP_MICROS_PER_SEC_def if_False by (rule eq)
qed

lemma pcap_records_clean:
  assumes "clean (pr_inner p)"
    and "contents (pr_inner p) = concat (map (\<lambda>(sec, frac, wire, data). record_bytes (pr_swapped p) sec frac wire data) rs)"
    and "list_all (\<lambda>(sec, frac, wire, data). length data \<le> 262144) rs"
  shows "pcap_records p =
    (map (\<lambda>(sec, frac, wire, data).
       (\<lparr>rh_ts_us = record_time (pr_nanos p) sec frac, rh_cap_len = of_nat (length data), rh_wire_len = wire\<rparr>, data)) rs,
     None)"
  using assms
proof (induction rs arbitrary: p)
  case Nil
  then show ?case
    using next_record_end [OF Nil(1)] by (subst pcap_records.simps) (auto split: prod.splits)
next
  case (Cons r rs)
  obtain sec frac wire data where r: "r = (sec, frac, wire, data)" by (metis prod.collapse)
  have c: "contents (pr_inner p) = record_bytes (pr_swapped p) sec frac wire data @
      concat (map (\<lambda>(sec, frac, wire, data). record_bytes (pr_swapped p) sec frac wire data) rs)"
    using Cons.prems(2) r by simp
  have l: "length data \<le> 262144" using Cons.prems(3) r by simp
  from next_record_clean [OF Cons.prems(1) c l] obtain r' where
    n: "pcap_next_record p = (p\<lparr>pr_inner := r'\<rparr>,
      Ok (Some (\<lparr>rh_ts_us = record_time (pr_nanos p) sec frac, rh_cap_len = of_nat (length data),
        rh_wire_len = wire\<rparr>, data)))"
    and r': "clean r'" "contents r' = concat (map (\<lambda>(sec, frac, wire, data). record_bytes (pr_swapped p) sec frac wire data) rs)" .
  have "pcap_records (p\<lparr>pr_inner := r'\<rparr>) =
    (map (\<lambda>(sec, frac, wire, data).
       (\<lparr>rh_ts_us = record_time (pr_nanos p) sec frac, rh_cap_len = of_nat (length data), rh_wire_len = wire\<rparr>, data)) rs,
     None)"
    using Cons.IH [of "p\<lparr>pr_inner := r'\<rparr>"] r' Cons.prems(3) by simp
  with n r show ?case by (subst pcap_records.simps) simp
qed

lemma write_records_unlimited:
  "list_all writable rs \<Longrightarrow> sk_room s = None \<Longrightarrow>
   write_records s rs = (s\<lparr>sk_written := sk_written s @ concat (map written_record rs)\<rparr>, Ok ())"
proof (induction rs arbitrary: s)
  case (Cons r rs)
  then show ?case by (cases r) (simp add: write_record_unlimited)
qed simp

text \<open>The records read do not depend on how the octets were cut.\<close>

lemma next_record_cut:
  assumes "clean (pr_inner p)" and "clean (pr_inner q)" and "contents (pr_inner p) = contents (pr_inner q)"
    and "pr_swapped p = pr_swapped q" and "pr_nanos p = pr_nanos q"
  shows "snd (pcap_next_record p) = snd (pcap_next_record q) \<and>
    clean (pr_inner (fst (pcap_next_record p))) \<and> clean (pr_inner (fst (pcap_next_record q))) \<and>
    contents (pr_inner (fst (pcap_next_record p))) = contents (pr_inner (fst (pcap_next_record q))) \<and>
    pr_swapped (fst (pcap_next_record p)) = pr_swapped (fst (pcap_next_record q)) \<and>
    pr_nanos (fst (pcap_next_record p)) = pr_nanos (fst (pcap_next_record q))"
proof (cases "16 \<le> length (contents (pr_inner q))")
  case False
  with read_full_clean [OF assms(1), of "[]" 16] read_full_clean [OF assms(2), of "[]" 16] assms(3,4,5) show ?thesis
    by (cases "contents (pr_inner q) = []") (auto simp: pcap_next_record_def RECORD_HEADER_LEN_def)
next
  case True
  let ?h = "take 16 (contents (pr_inner q))"
  from True read_full_clean [OF assms(1), of "[]" 16] read_full_clean [OF assms(2), of "[]" 16] assms(3)
  obtain r1 r2 where h: "read_full_or_eof (pr_inner p) 16 [] = (r1, Ok (Full ?h))" "clean r1"
    "read_full_or_eof (pr_inner q) 16 [] = (r2, Ok (Full ?h))" "clean r2" "contents r1 = contents r2"
    by auto
  define n where "n = unat (read_u32 (take 4 (drop 8 ?h)) (pr_swapped q))"
  from read_exact_clean [OF h(2), of "[]" n] read_exact_clean [OF h(4), of "[]" n] h(5)
  obtain r1' r2' out where e: "read_exact r1 n [] = (r1', out)" "read_exact r2 n [] = (r2', out)"
    "clean r1'" "clean r2'" "contents r1' = contents r2'" "out \<noteq> Panic"
    by (auto split: if_splits)
  show ?thesis
    using e h assms(4,5)
    by (cases out) (simp_all add: pcap_next_record_def RECORD_HEADER_LEN_def Let_def n_def)
qed

lemma records_cut:
  assumes "clean (pr_inner p)" and "clean (pr_inner q)" and "contents (pr_inner p) = contents (pr_inner q)"
    and "pr_swapped p = pr_swapped q" and "pr_nanos p = pr_nanos q"
  shows "pcap_records p = pcap_records q"
  using assms
proof (induction p arbitrary: q rule: pcap_records.induct)
  case (1 p)
  obtain p' out where p: "pcap_next_record p = (p', out)" by force
  obtain q' where q: "pcap_next_record q = (q', out)"
    using next_record_cut [OF 1(2-6)] p by (metis prod.collapse snd_conv)
  show ?case
  proof (cases "\<exists>rec. out = Ok (Some rec)")
    case True
    then obtain rec where out: "out = Ok (Some rec)" by blast
    have "pcap_records p' = pcap_records q'"
      using next_record_cut [OF 1(2-6)] p q by (intro 1(1) [OF p [symmetric] out refl]) auto
    with p q out show ?thesis by (simp add: pcap_records.simps [of p] pcap_records.simps [of q])
  next
    case False
    with p q show ?thesis
      by (simp add: pcap_records.simps [of p] pcap_records.simps [of q] split: result.splits option.splits)
  qed
qed

lemma next_record_not_panic: "snd (pcap_next_record p) \<noteq> Panic"
  using read_full_not_panic [of "pr_inner p" 16 "[]"] read_exact_not_panic
  by (auto simp: pcap_next_record_def RECORD_HEADER_LEN_def Let_def split: prod.splits result.splits read_outcome.splits)
    (metis snd_conv)+

lemma written_file_reads_back:
  assumes "list_all writable rs" and "clean r"
    and "pcap_writer_new \<lparr>sk_written = [], sk_room = None\<rparr> link snaplen = (s1, Ok ())"
    and "write_records s1 rs = (s2, Ok ())" and "contents r = sk_written s2"
  shows "\<exists>p. pcap_reader_new r = Ok p \<and> pr_link p = link \<and>
    pcap_records p =
      (map (\<lambda>(ts, data). (\<lparr>rh_ts_us = ts, rh_cap_len = of_nat (length data), rh_wire_len = of_nat (length data)\<rparr>, data)) rs,
       None)"
proof -
  let ?middle = "to_le 2 VERSION_MAJOR @ to_le 2 VERSION_MINOR @ to_le 4 (0 :: u32) @ to_le 4 (0 :: u32) @ to_le 4 snaplen"
  let ?file = "map (\<lambda>(ts, data). (of_nat (unat ts div 1000000) :: u32, of_nat (unat ts mod 1000000) :: u32,
    of_nat (length data) :: u32, data)) rs"
  have h: "sk_written s1 = file_header False False ?middle (link_as_u32 link)" "sk_room s1 = None"
    using assms(3) by (auto simp: pcap_writer_new_def write_all_def file_header_def encode_u32_def magic_of_def)
  have "concat (map written_record rs) =
      concat (map (\<lambda>(sec, frac, wire, data). record_bytes False sec frac wire data) ?file)"
    by (simp add: written_record_def comp_def case_prod_unfold)
  with assms(4,5) h write_records_unlimited [OF assms(1) h(2)]
  have c: "contents r = file_header False False ?middle (link_as_u32 link) @
      concat (map (\<lambda>(sec, frac, wire, data). record_bytes False sec frac wire data) ?file)" by auto
  have "length ?middle = 16" by simp
  from reader_new_clean [OF assms(2) c this link_from_raw_as_u32] obtain r' where
    n: "pcap_reader_new r = Ok \<lparr>pr_inner = r', pr_link = link, pr_swapped = False, pr_nanos = False\<rparr>"
    and r': "clean r'" "contents r' = concat (map (\<lambda>(sec, frac, wire, data). record_bytes False sec frac wire data) ?file)" .
  have l: "list_all (\<lambda>(sec, frac, wire, data). length data \<le> 262144) ?file"
    using assms(1) by (auto simp: list_all_iff writable_def)
  have "record_time False (of_nat (unat ts div 1000000)) (of_nat (unat ts mod 1000000)) = ts"
    if "(ts, data) \<in> set rs" for ts data
    using assms(1) that by (intro record_time_written) (auto simp: list_all_iff writable_def)
  with pcap_records_clean [of "\<lparr>pr_inner = r', pr_link = link, pr_swapped = False, pr_nanos = False\<rparr>" ?file] r' l n
  show ?thesis by (auto simp: comp_def)
qed

section \<open>Properties\<close>

text \<open>C23. A capture file reads back as it was written: writing a header and records (each of at most
  262,144 octets and before 2106) and reading the octets, cut in any way and with interruptions,
  gives the link type and the same times and data in order, and then the end of the file.\<close>

theorem pcap_round_trip:
  assumes "list_all writable rs" and "clean r"
    and "pcap_writer_new \<lparr>sk_written = [], sk_room = None\<rparr> link snaplen = (s1, Ok ())"
    and "write_records s1 rs = (s2, Ok ())" and "contents r = sk_written s2"
  shows "\<exists>p. pcap_reader_new r = Ok p \<and> pr_link p = link \<and>
    pcap_records p =
      (map (\<lambda>(ts, data). (\<lparr>rh_ts_us = ts, rh_cap_len = of_nat (length data), rh_wire_len = of_nat (length data)\<rparr>, data)) rs,
       None)"
  by (rule written_file_reads_back [OF assms])

lemma pcap_round_trip_witness:
  "\<exists>p. pcap_reader_new [Chunk (sk_written (fst (write_records
       (fst (pcap_writer_new \<lparr>sk_written = [], sk_room = None\<rparr> LinkRaw 65535)) [(7000001, [1, 2, 3])])))] = Ok p \<and>
     pcap_records p = ([(\<lparr>rh_ts_us = 7000001, rh_cap_len = 3, rh_wire_len = 3\<rparr>, [1, 2, 3])], None)"
proof -
  let ?s = "\<lparr>sk_written = [], sk_room = None\<rparr>"
  let ?w = "pcap_writer_new ?s LinkRaw 65535"
  have w: "?w = (fst ?w, Ok ())" "sk_room (fst ?w) = None" "sk_written (fst ?w) \<noteq> []"
    by (simp_all add: pcap_writer_new_def write_all_def)
      (metis append_is_Nil_conv length_0_conv length_to_le zero_neq_numeral)
  have ok: "list_all writable [(7000001, [1, 2, 3])]" by (simp add: writable_def)
  from write_records_unlimited [OF ok w(2)] have
    r: "write_records (fst ?w) [(7000001, [1, 2, 3])] = (fst (write_records (fst ?w) [(7000001, [1, 2, 3])]), Ok ())"
    and "sk_written (fst (write_records (fst ?w) [(7000001, [1, 2, 3])])) \<noteq> []"
    using w(3) by simp_all
  then have c: "clean [Chunk (sk_written (fst (write_records (fst ?w) [(7000001, [1, 2, 3])])))]" by simp
  from pcap_round_trip [OF ok c w(1) r] show ?thesis by auto
qed

text \<open>Either byte order and either resolution reads the same: a file whose fields are all in one
  byte order, with the magic number of its resolution, gives its link type, and every record with
  the seconds and the fraction (thousandths of it for nanoseconds) as its time in microseconds.\<close>

theorem pcap_reads_every_format:
  assumes "clean r" and "length middle = 16" and "link_from_raw raw_link = Some link"
    and "list_all (\<lambda>(sec, frac, wire, data). length data \<le> 262144) rs"
    and "contents r = file_header swapped nanos middle raw_link @
      concat (map (\<lambda>(sec, frac, wire, data). record_bytes swapped sec frac wire data) rs)"
  shows "\<exists>p. pcap_reader_new r = Ok p \<and> pr_link p = link \<and>
    pcap_records p =
      (map (\<lambda>(sec, frac, wire, data).
         (\<lparr>rh_ts_us = record_time nanos sec frac, rh_cap_len = of_nat (length data), rh_wire_len = wire\<rparr>, data)) rs,
       None)"
proof -
  from reader_new_clean [OF assms(1,5,2,3)] obtain r' where
    "pcap_reader_new r = Ok \<lparr>pr_inner = r', pr_link = link, pr_swapped = swapped, pr_nanos = nanos\<rparr>"
    "clean r'" "contents r' = concat (map (\<lambda>(sec, frac, wire, data). record_bytes swapped sec frac wire data) rs)" .
  with pcap_records_clean [of "\<lparr>pr_inner = r', pr_link = link, pr_swapped = swapped, pr_nanos = nanos\<rparr>" rs] assms(4)
  show ?thesis by auto
qed

lemma pcap_reads_every_format_witness:
  "\<exists>p. pcap_reader_new [Chunk (encode_u32 True MAGIC_NANOS), Interrupted, Chunk (replicate 16 0 @ encode_u32 True 1)] = Ok p \<and>
     pr_link p = LinkEthernet \<and> pcap_records p = ([], None)"
  using pcap_reads_every_format [of "[Chunk (encode_u32 True MAGIC_NANOS), Interrupted, Chunk (replicate 16 0 @ encode_u32 True 1)]"
      "replicate 16 0" 1 LinkEthernet "[]" True True]
  by (simp add: link_from_raw_def file_header_def magic_of_def)

text \<open>C27. Reading is total: it never panics and always ends, whatever the octets, and what is read
  depends only on the octets, not on how the input delivers them.\<close>

theorem pcap_reading_independent_of_cuts:
  assumes "clean (pr_inner p)" and "clean (pr_inner q)" and "contents (pr_inner p) = contents (pr_inner q)"
    and "pr_swapped p = pr_swapped q" and "pr_nanos p = pr_nanos q"
  shows "pcap_records p = pcap_records q \<and> snd (pcap_next_record p) \<noteq> Panic"
  using records_cut [OF assms] next_record_not_panic by blast

lemma pcap_reading_independent_of_cuts_witness:
  "pcap_records \<lparr>pr_inner = [Chunk [1, 2]], pr_link = LinkRaw, pr_swapped = False, pr_nanos = False\<rparr> =
   pcap_records \<lparr>pr_inner = [Chunk [1], Interrupted, Chunk [2]], pr_link = LinkRaw, pr_swapped = False, pr_nanos = False\<rparr>"
  by (rule pcap_reading_independent_of_cuts [THEN conjunct1]) simp_all

end
