(* ===== verification/Synth.thy ===== *)
theory Synth
  imports Packet Pcap
begin

text \<open>
  \<open>core/src/synth.rs\<close>: synthetic frames (Ethernet, IPv4, TCP, UDP, ICMP, DNS queries), the internet
  checksum, the xorshift generator and the traffic scenarios.  The callback of \<open>generate\<close> is a
  parameter over a state of its own.
\<close>

section \<open>Frames\<close>

definition SYNTH_TTL :: u8 where "SYNTH_TTL = 64"
definition TCP_WINDOW :: u16 where "TCP_WINDOW = 64240"
definition ICMP_ECHO_REQUEST :: u8 where "ICMP_ECHO_REQUEST = 8"
definition DNS_FLAG_RECURSION_DESIRED :: u16 where "DNS_FLAG_RECURSION_DESIRED = 0x0100"
definition DNS_CLASS_IN :: u16 where "DNS_CLASS_IN = 1"
definition DNS_TYPE_A :: u16 where "DNS_TYPE_A = 1"
definition DNS_TYPE_TXT :: u16 where "DNS_TYPE_TXT = 16"
definition SRC_MAC :: bytes where "SRC_MAC = [0x02, 0x00, 0x00, 0x00, 0x00, 0x01]"
definition DST_MAC :: bytes where "DST_MAC = [0x02, 0x00, 0x00, 0x00, 0x00, 0x02]"
definition SYNTH_ETHERTYPE_IPV4 :: bytes where "SYNTH_ETHERTYPE_IPV4 = [0x08, 0x00]"

text \<open>An \<open>Ipv4Addr\<close> is its four octets.\<close>

record sock_addr =
  sa_ip :: bytes
  sa_port :: u16

fun words16 :: "bytes \<Rightarrow> u16 list" where
  "words16 [] = []"
| "words16 [a] = [from_be [a, 0]]"
| "words16 (a # b # bs) = from_be [a, b] # words16 bs"

lemma fold_step:
  fixes acc :: u32
  assumes "unat acc > 65535"
  shows "unat ((acc AND 0xFFFF) + drop_bit 16 acc) = unat acc mod 65536 + unat acc div 65536"
proof -
  have "acc AND 0xFFFF = take_bit 16 acc"
    by (simp add: take_bit_eq_mask mask_eq_exp_minus_1)
  then have lo: "unat (acc AND 0xFFFF) = unat acc mod 65536" by (simp add: unsigned_take_bit_eq take_bit_eq_mod unat_mod)
  have hi: "unat (drop_bit 16 acc) = unat acc div 65536"
    by (simp add: unat_drop_bit_eq drop_bit_eq_div unat_div)
  have "unat acc < 2 ^ 32" using unat_less [of acc] by simp
  then have "unat acc div 65536 < 65536" by (simp add: less_mult_imp_div_less)
  then show ?thesis using lo hi by (simp add: unat_word_ariths)
qed

lemma fold_step_less:
  fixes acc :: u32
  assumes "acc > 0xFFFF"
  shows "unat ((acc AND 0xFFFF) + drop_bit 16 acc) < unat acc"
proof -
  have big: "unat acc > 65535" using assms by (simp add: word_less_nat_alt)
  obtain q r where q: "q = unat acc div 65536" and r: "r = unat acc mod 65536" by blast
  have "unat acc = q * 65536 + r" unfolding q r by simp
  moreover have "0 < q" unfolding q using big by (simp add: div_greater_zero_iff)
  moreover have "unat ((acc AND 0xFFFF) + drop_bit 16 acc) = r + q"
    unfolding q r by (rule fold_step [OF big])
  ultimately show ?thesis by linarith
qed

function fold_sum :: "u32 \<Rightarrow> u32" where
  "fold_sum acc = (if acc > 0xFFFF then fold_sum ((acc AND 0xFFFF) + drop_bit 16 acc) else acc)"
  by pat_completeness auto
termination
  by (relation "measure unat") (simp_all add: fold_step_less)

declare fold_sum.simps [simp del]

definition internet_checksum :: "bytes \<Rightarrow> u16" where
  "internet_checksum bs =
     NOT (ucast (fold_sum (sum_list (map (\<lambda>w. ucast w :: u32) (words16 bs)))) :: u16)"

text \<open>
  The 20 octets of \<open>ip\<close> before the checksum is stored at offset 10: version and header length,
  total length, lifetime, protocol and addresses; the rest is zero.
\<close>

definition ipv4_header_bytes :: "bytes \<Rightarrow> bytes \<Rightarrow> u8 \<Rightarrow> u16 \<Rightarrow> u16 \<Rightarrow> bytes" where
  "ipv4_header_bytes src dst proto total_len checksum =
     [0x45, 0] @ to_be 2 total_len @ [0, 0, 0, 0, SYNTH_TTL, proto] @ to_be 2 checksum @ src @ dst"

definition ethernet_ipv4 :: "bytes \<Rightarrow> bytes \<Rightarrow> u8 \<Rightarrow> bytes \<Rightarrow> ('e, bytes) result" where
  "ethernet_ipv4 src dst proto l4 =
     and_then (expect (try_from_usize (20 + length l4) :: u16 option)) (\<lambda>total_len.
       let checksum = internet_checksum (ipv4_header_bytes src dst proto total_len 0)
       in Ok (DST_MAC @ SRC_MAC @ SYNTH_ETHERTYPE_IPV4 @
              ipv4_header_bytes src dst proto total_len checksum @ l4))"

definition tcp_segment :: "sock_addr \<Rightarrow> sock_addr \<Rightarrow> u8 \<Rightarrow> usize \<Rightarrow> ('e, bytes) result" where
  "tcp_segment src dst flags payload_len =
     (let seg = to_be 2 (sa_port src) @ to_be 2 (sa_port dst) @ [0, 0, 0, 0, 0, 0, 0, 0] @
            [push_bit 4 (of_nat (20 div 4)), flags] @ to_be 2 TCP_WINDOW @ [0, 0, 0, 0] @
            replicate payload_len 0
      in ethernet_ipv4 (sa_ip src) (sa_ip dst) PROTO_TCP seg)"

definition udp_datagram :: "sock_addr \<Rightarrow> sock_addr \<Rightarrow> bytes \<Rightarrow> ('e, bytes) result" where
  "udp_datagram src dst payload =
     and_then (expect (try_from_usize (8 + length payload) :: u16 option)) (\<lambda>len.
       ethernet_ipv4 (sa_ip src) (sa_ip dst) PROTO_UDP
         (to_be 2 (sa_port src) @ to_be 2 (sa_port dst) @ to_be 2 len @ [0, 0] @ payload))"

definition icmp_echo :: "bytes \<Rightarrow> bytes \<Rightarrow> u16 \<Rightarrow> ('e, bytes) result" where
  "icmp_echo src dst seq =
     (let msg = (\<lambda>checksum. [ICMP_ECHO_REQUEST, 0] @ to_be 2 checksum @ [0, 0] @ to_be 2 seq);
          checksum = internet_checksum (msg 0)
      in ethernet_ipv4 src dst PROTO_ICMP (msg checksum))"

text \<open>The octets of a string.\<close>

definition as_bytes :: "string \<Rightarrow> bytes" where
  "as_bytes = map of_char"

fun dns_labels :: "string list \<Rightarrow> ('e, bytes) result" where
  "dns_labels [] = Ok []"
| "dns_labels (label # labels) =
     and_then (expect (try_from_usize (length label) :: u8 option)) (\<lambda>len.
     and_then (dns_labels labels) (\<lambda>rest. Ok (len # as_bytes label @ rest)))"

definition dns_query_payload :: "u16 \<Rightarrow> string \<Rightarrow> u16 \<Rightarrow> ('e, bytes) result" where
  "dns_query_payload dnsid name qtype =
     and_then (dns_labels (filter (\<lambda>l. l \<noteq> []) (split_on CHR ''.'' name))) (\<lambda>labels.
       Ok (to_be 2 dnsid @ to_be 2 DNS_FLAG_RECURSION_DESIRED @ to_be 2 (1 :: u16) @ replicate 6 0 @
           labels @ [0] @ to_be 2 qtype @ to_be 2 DNS_CLASS_IN))"

definition dns_query :: "sock_addr \<Rightarrow> sock_addr \<Rightarrow> u16 \<Rightarrow> string \<Rightarrow> u16 \<Rightarrow> ('e, bytes) result" where
  "dns_query src dst dnsid name qtype =
     and_then (dns_query_payload dnsid name qtype) (\<lambda>payload. udp_datagram src dst payload)"

section \<open>Random numbers\<close>

type_synonym rng = u64

definition rng_new :: "u64 \<Rightarrow> rng" where
  "rng_new seed = max seed 1"

definition next_u64 :: "rng \<Rightarrow> u64 \<times> rng" where
  "next_u64 r =
     (let x = r XOR push_bit 13 r; x = x XOR drop_bit 7 x; x = x XOR push_bit 17 x in (x, x))"

text \<open>\<open>%\<close> panics for a zero bound.\<close>

definition below :: "rng \<Rightarrow> u64 \<Rightarrow> ('e, u64) result \<times> rng" where
  "below r bound = (case next_u64 r of (x, r) \<Rightarrow> (if bound = 0 then Panic else Ok (x mod bound), r))"

section \<open>Scenarios\<close>

datatype scenario = ScMixed | ScPortScan | ScDnsTunnel | ScFlood

definition scenario_from_name :: "string \<Rightarrow> scenario option" where
  "scenario_from_name name =
     (if name = ''mixed'' then Some ScMixed
      else if name = ''portscan'' then Some ScPortScan
      else if name = ''dnstunnel'' then Some ScDnsTunnel
      else if name = ''flood'' then Some ScFlood
      else None)"

definition START_TS_US :: u64 where "START_TS_US = 1700000000000000"
definition MAX_GAP_US :: u64 where "MAX_GAP_US = 2000"
definition INJECT_EVERY :: usize where "INJECT_EVERY = 4"
definition CLIENT_COUNT :: u64 where "CLIENT_COUNT = 50"
definition CLIENT_BASE :: u8 where "CLIENT_BASE = 10"
definition MAX_TCP_PAYLOAD :: u64 where "MAX_TCP_PAYLOAD = 1400"
definition EPHEMERAL_BASE :: u16 where "EPHEMERAL_BASE = 49152"
definition SCAN_FIRST_PORT :: u16 where "SCAN_FIRST_PORT = 1"

definition sock :: "u8 \<Rightarrow> u8 \<Rightarrow> u8 \<Rightarrow> u8 \<Rightarrow> u16 \<Rightarrow> sock_addr" where
  "sock a b c d port = \<lparr>sa_ip = [a, b, c, d], sa_port = port\<rparr>"

definition RESOLVER :: sock_addr where "RESOLVER = sock 10 0 0 1 53"
definition SCANNER :: bytes where "SCANNER = [10, 0, 0, 66]"
definition SCAN_TARGET :: bytes where "SCAN_TARGET = [10, 0, 0, 5]"
definition TUNNEL_CLIENT :: sock_addr where "TUNNEL_CLIENT = sock 10 0 0 77 53001"
definition TUNNEL_DOMAIN :: string where "TUNNEL_DOMAIN = ''t.exfil-example.net''"
definition TUNNEL_LABEL_LEN :: usize where "TUNNEL_LABEL_LEN = 48"
definition BASE32 :: string where "BASE32 = ''abcdefghijklmnopqrstuvwxyz234567''"
definition FLOOD_NET :: u8 where "FLOOD_NET = 172"
definition FLOOD_TARGET :: sock_addr where "FLOOD_TARGET = sock 10 0 0 5 80"

definition SERVERS :: "sock_addr list" where
  "SERVERS = [sock 93 184 216 34 443, sock 140 82 121 4 443, sock 151 101 1 69 80, sock 198 51 100 7 22]"

definition DOMAINS :: "string list" where
  "DOMAINS = [''example.com'', ''github.com'', ''api.github.com'', ''crates.io'', ''nuget.org'']"

text \<open>Threading the generator: run a step, then the rest with its value.\<close>

definition rng_then ::
  "('e, 'a) result \<times> rng \<Rightarrow> ('a \<Rightarrow> rng \<Rightarrow> ('e, 'b) result \<times> rng) \<Rightarrow> ('e, 'b) result \<times> rng" where
  "rng_then m f = (case m of (Ok x, r) \<Rightarrow> f x r | (Err e, r) \<Rightarrow> (Err e, r) | (Panic, r) \<Rightarrow> (Panic, r))"

definition background_packet :: "rng \<Rightarrow> usize \<Rightarrow> ('e, bytes) result \<times> rng" where
  "background_packet r i =
     rng_then (below r CLIENT_COUNT) (\<lambda>client_idx r.
     let client_ip = [10, 0, 0, CLIENT_BASE + ucast client_idx] in
     rng_then (below r 100) (\<lambda>kind r.
     if kind \<le> 69 then
       rng_then (below r (of_nat (length SERVERS))) (\<lambda>server_idx r.
       rng_then (idx SERVERS (unat server_idx), r) (\<lambda>server r.
       let port = EPHEMERAL_BASE + ucast (client_idx * of_nat (length SERVERS) + server_idx);
           client = \<lparr>sa_ip = client_ip, sa_port = port\<rparr> in
       rng_then (below r MAX_TCP_PAYLOAD) (\<lambda>payload r.
       let flags = FLAG_ACK OR FLAG_PSH in
       rng_then (below r 2) (\<lambda>coin r.
         if coin = 0 then (tcp_segment client server flags (unat payload), r)
         else (tcp_segment server client flags (unat payload), r)))))
     else if kind \<le> 89 then
       rng_then (below r (of_nat (length DOMAINS))) (\<lambda>domain_idx r.
       rng_then (idx DOMAINS (unat domain_idx), r) (\<lambda>domain r.
       let client = \<lparr>sa_ip = client_ip, sa_port = EPHEMERAL_BASE + ucast client_idx\<rparr> in
         (dns_query client RESOLVER (of_nat i) domain DNS_TYPE_A, r)))
     else (icmp_echo client_ip (sa_ip RESOLVER) (of_nat i), r)))"

definition scan_probe :: "u16 \<Rightarrow> ('e, bytes) result" where
  "scan_probe port =
     tcp_segment \<lparr>sa_ip = SCANNER, sa_port = EPHEMERAL_BASE\<rparr> \<lparr>sa_ip = SCAN_TARGET, sa_port = port\<rparr> FLAG_SYN 0"

definition flood_syn :: "rng \<Rightarrow> ('e, bytes) result \<times> rng" where
  "flood_syn r =
     (case next_u64 r of (x, r) \<Rightarrow>
        let octets = to_be 4 (ucast x :: u32) in
        rng_then (below r 1024) (\<lambda>off r.
          let src = \<lparr>sa_ip = [FLOOD_NET, octets ! 1, octets ! 2, octets ! 3], sa_port = EPHEMERAL_BASE + ucast off\<rparr>
          in (tcp_segment src FLOOD_TARGET FLAG_SYN 0, r)))"

fun random_label :: "nat \<Rightarrow> rng \<Rightarrow> ('e, string) result \<times> rng" where
  "random_label 0 r = (Ok [], r)"
| "random_label (Suc n) r =
     rng_then (below r (of_nat (length BASE32))) (\<lambda>k r.
     rng_then (idx BASE32 (unat k), r) (\<lambda>c r.
     rng_then (random_label n r) (\<lambda>rest r. (Ok (c # rest), r))))"

definition tunnel_query :: "rng \<Rightarrow> usize \<Rightarrow> ('e, bytes) result \<times> rng" where
  "tunnel_query r i =
     rng_then (random_label TUNNEL_LABEL_LEN r) (\<lambda>label r.
       (dns_query TUNNEL_CLIENT RESOLVER (of_nat i) (label @ CHR ''.'' # TUNNEL_DOMAIN) DNS_TYPE_TXT, r))"

definition scenario_frame :: "scenario \<Rightarrow> usize \<Rightarrow> rng \<Rightarrow> u16 \<Rightarrow> ('e, bytes) result \<times> rng \<times> u16" where
  "scenario_frame scenario i r scan_port =
     (let inject = scenario \<noteq> ScMixed \<and> i mod INJECT_EVERY = 0 in
      if scenario = ScFlood then (case flood_syn r of (f, r) \<Rightarrow> (f, r, scan_port))
      else if \<not> inject then (case background_packet r i of (f, r) \<Rightarrow> (f, r, scan_port))
      else if scenario = ScPortScan then
        (scan_probe scan_port, r, (case checked_add scan_port 1 of Some p \<Rightarrow> p | None \<Rightarrow> SCAN_FIRST_PORT))
      else (case tunnel_query r i of (f, r) \<Rightarrow> (f, r, scan_port)))"

text \<open>The loop of \<open>generate\<close>: \<open>n\<close> packets are left, the next is number \<open>i\<close>.\<close>

fun generate_loop ::
  "('s \<Rightarrow> u64 \<Rightarrow> bytes \<Rightarrow> 's \<times> (io_error, unit) result) \<Rightarrow> scenario \<Rightarrow> nat \<Rightarrow> usize \<Rightarrow> rng \<Rightarrow> u64 \<Rightarrow> u16 \<Rightarrow>
   's \<Rightarrow> 's \<times> (io_error, unit) result" where
  "generate_loop sink scenario 0 i r ts scan_port s = (s, Ok ())"
| "generate_loop sink scenario (Suc n) i r ts scan_port s =
     (case below r MAX_GAP_US of
        (Ok gap, r) \<Rightarrow>
          let ts = ts + (1 + gap) in
          (case scenario_frame scenario i r scan_port of
             (Ok frame, r, scan_port) \<Rightarrow>
               (case sink s ts frame of
                  (s, Ok _) \<Rightarrow> generate_loop sink scenario n (i + 1) r ts scan_port s
                | (s, Err e) \<Rightarrow> (s, Err e)
                | (s, Panic) \<Rightarrow> (s, Panic))
           | (Err e, r, scan_port) \<Rightarrow> (s, Err e)
           | (Panic, r, scan_port) \<Rightarrow> (s, Panic))
      | (Err e, r) \<Rightarrow> (s, Err e)
      | (Panic, r) \<Rightarrow> (s, Panic))"

definition generate ::
  "('s \<Rightarrow> u64 \<Rightarrow> bytes \<Rightarrow> 's \<times> (io_error, unit) result) \<Rightarrow> scenario \<Rightarrow> usize \<Rightarrow> u64 \<Rightarrow> 's \<Rightarrow>
   's \<times> (io_error, unit) result" where
  "generate sink scenario packet_count seed s =
     generate_loop sink scenario packet_count 0 (rng_new seed) START_TS_US SCAN_FIRST_PORT s"

section \<open>The generator never sticks at zero\<close>

lemma push_bit_fixpoint: "x = push_bit n x \<Longrightarrow> 0 < n \<Longrightarrow> x = 0" for x :: "'a::len word"
proof (rule bit_word_eqI)
  fix i
  assume x: "x = push_bit n x" and n: "0 < n" and "i < LENGTH('a)"
  have "\<not> bit x i"
  proof (induction i rule: less_induct)
    case (less i)
    have "bit x i \<longleftrightarrow> bit (push_bit n x) i" using x by simp
    also have "\<dots> \<longrightarrow> n \<le> i \<and> bit x (i - n)" by (auto simp: bit_simps)
    finally show ?case using less [of "i - n"] n by auto
  qed
  then show "bit x i \<longleftrightarrow> bit 0 i" by simp
qed

lemma drop_bit_fixpoint: "x = drop_bit n x \<Longrightarrow> 0 < n \<Longrightarrow> x = 0" for x :: "'a::len word"
proof (rule bit_word_eqI)
  fix i
  assume x: "x = drop_bit n x" and n: "0 < n" and "i < LENGTH('a)"
  have "bit x i \<longleftrightarrow> bit x (k * n + i)" for k
  proof (induction k)
    case (Suc k)
    have "bit x (k * n + i) \<longleftrightarrow> bit (drop_bit n x) (k * n + i)" using x by simp
    then show ?case using Suc by (simp add: bit_simps add.assoc)
  qed simp
  moreover have "\<not> bit x (LENGTH('a) * n + i)"
  proof
    assume "bit x (LENGTH('a) * n + i)"
    then have "LENGTH('a) * n + i < LENGTH('a)" by (rule bit_imp_le_length)
    moreover have "LENGTH('a) \<le> LENGTH('a) * n" using n by simp
    ultimately show False by linarith
  qed
  ultimately show "bit x i \<longleftrightarrow> bit 0 i" by simp
qed

lemma xor_eq_0_iff: "x XOR y = 0 \<longleftrightarrow> x = y" for x y :: "'a::len word"
  by (metis xor.left_neutral xor.right_neutral xor_self_eq xor.assoc)

lemma next_u64_nonzero: "r \<noteq> 0 \<Longrightarrow> next_u64 r = (x, r') \<Longrightarrow> r' \<noteq> 0 \<and> x = r'"
proof -
  assume r: "r \<noteq> 0" and n: "next_u64 r = (x, r')"
  define a where "a = r XOR push_bit 13 r"
  define b where "b = a XOR drop_bit 7 a"
  define c where "c = b XOR push_bit 17 b"
  have "a \<noteq> 0" using r push_bit_fixpoint [of r 13] unfolding a_def xor_eq_0_iff by auto
  then have "b \<noteq> 0" using drop_bit_fixpoint [of a 7] unfolding b_def xor_eq_0_iff by auto
  then have "c \<noteq> 0" using push_bit_fixpoint [of b 17] unfolding c_def xor_eq_0_iff by auto
  moreover have "next_u64 r = (c, c)" unfolding next_u64_def Let_def a_def b_def c_def by (rule refl)
  ultimately show ?thesis using n by simp
qed

lemma rng_new_nonzero: "rng_new seed \<noteq> 0"
  by (auto simp: rng_new_def max_def word_le_nat_alt)

lemma below_spec:
  assumes "bound \<noteq> 0"
  obtains x r' where "below r bound = (Ok x, r')" "unat x < unat bound" "r \<noteq> 0 \<Longrightarrow> r' \<noteq> 0"
proof -
  obtain y r' where n: "next_u64 r = (y, r')" by force
  have "0 < unat bound" using assms by (simp add: unat_gt_0)
  then have "unat (y mod bound) < unat bound" by (simp add: unat_mod)
  then show thesis
    using n assms next_u64_nonzero [OF _ n] by (intro that [of "y mod bound" r']) (auto simp: below_def)
qed

section \<open>The checksum\<close>

text \<open>Folding keeps the value modulo \<open>65535\<close> and ends between 1 and \<open>65535\<close> (or at 0 for 0).\<close>

lemma fold_sum_spec:
  "unat (fold_sum acc) \<le> 65535 \<and> unat (fold_sum acc) mod 65535 = unat acc mod 65535 \<and>
   (unat (fold_sum acc) = 0 \<longleftrightarrow> unat acc = 0)"
proof (induction acc rule: fold_sum.induct)
  case (1 acc)
  show ?case
  proof (cases "acc > 0xFFFF")
    case True
    then have big: "unat acc > 65535" by (simp add: word_less_nat_alt)
    let ?a = "(acc AND 0xFFFF) + drop_bit 16 acc"
    define q r where "q = unat acc div 65536" and "r = unat acc mod 65536"
    have a: "unat ?a = r + q" using fold_step [OF big] by (simp add: q_def r_def)
    have acc: "unat acc = q * 65536 + r" by (simp add: q_def r_def)
    have "0 < q" using big by (simp add: q_def div_greater_zero_iff)
    have "unat acc = r + q + 65535 * q" using acc by simp
    then have "unat acc mod 65535 = unat ?a mod 65535" unfolding a by (simp only: mod_mult_self2)
    moreover have "fold_sum acc = fold_sum ?a" using True by (subst fold_sum.simps) simp
    ultimately show ?thesis using "1.IH" [OF True] a acc \<open>0 < q\<close> by auto
  next
    case False
    then have "fold_sum acc = acc" by (subst fold_sum.simps) simp
    with False show ?thesis by (simp add: word_less_nat_alt not_less)
  qed
qed

lemma fold_sum_complement:
  assumes "unat s = unat t + (65535 - unat (fold_sum t))" and "unat s \<noteq> 0"
  shows "unat (fold_sum s) = 65535"
proof -
  have t: "unat (fold_sum t) \<le> 65535" "unat (fold_sum t) mod 65535 = unat t mod 65535" using fold_sum_spec by auto
  have "unat s mod 65535 = (unat t + (65535 - unat (fold_sum t))) mod 65535" using assms(1) by simp
  also have "\<dots> = (unat (fold_sum t) + (65535 - unat (fold_sum t))) mod 65535"
    using t(2) by (metis mod_add_left_eq)
  also have "\<dots> = 0" using t(1) by simp
  finally have "unat (fold_sum s) mod 65535 = 0" using fold_sum_spec [of s] by simp
  moreover have "0 < unat (fold_sum s)" "unat (fold_sum s) \<le> 65535" using fold_sum_spec [of s] assms(2) by auto
  ultimately show ?thesis
    by (metis dvd_imp_le le_antisym mod_0_imp_dvd)
qed

definition byte_words :: "bytes \<Rightarrow> nat" where
  "byte_words bs = sum_list (map unat (words16 bs))"

lemma sum_words:
  "length bs \<le> 65536 \<Longrightarrow>
   unat (sum_list (map (\<lambda>w. ucast w :: u32) (words16 bs))) = byte_words bs \<and> byte_words bs \<le> length bs * 65535"
proof (induction bs rule: words16.induct)
  case (2 a)
  have "unat (from_be [a, 0] :: u16) < 65536" by (rule unat_u16)
  then show ?case by (simp add: byte_words_def unsigned_ucast_eq take_bit_nat_eq_self)
next
  case (3 a b bs)
  let ?w = "from_be [a, b] :: u16"
  have w: "unat ?w < 65536" by (rule unat_u16)
  then have u: "unat (ucast ?w :: u32) = unat ?w" by (simp add: unsigned_ucast_eq take_bit_nat_eq_self)
  have IH: "unat (sum_list (map (\<lambda>w. ucast w :: u32) (words16 bs))) = byte_words bs"
    "byte_words bs \<le> length bs * 65535" using 3 by auto
  have "unat ?w + byte_words bs < 2 ^ 32" using w IH(2) 3(2) by simp
  then show ?case using u IH w by (simp add: byte_words_def unat_word_ariths)
qed (simp add: byte_words_def)

lemma words16_append: "even (length xs) \<Longrightarrow> words16 (xs @ ys) = words16 xs @ words16 ys"
  by (induction xs rule: words16.induct) auto

lemma not_u16: "unat (NOT w) = 65535 - unat w" for w :: u16
proof -
  have "NOT w = - 1 - w" by (simp add: not_eq_complement)
  moreover have "w \<le> - 1" by simp
  ultimately show ?thesis by (simp add: unat_sub unsigned_minus_1_eq_mask mask_eq_exp_minus_1)
qed

lemma checksum_unat:
  "length bs \<le> 65536 \<Longrightarrow>
   unat (internet_checksum bs) =
     65535 - unat (fold_sum (sum_list (map (\<lambda>w. ucast w :: u32) (words16 bs))))"
  using fold_sum_spec [of "sum_list (map (\<lambda>w. ucast w :: u32) (words16 bs))"]
  by (simp add: internet_checksum_def not_u16 unsigned_ucast_eq take_bit_nat_eq_self)

text \<open>Storing the checksum makes the checksum of the whole zero.\<close>

lemma checksum_verifies:
  assumes "even (length xs)" and "length xs + 2 + length ys \<le> 65536"
    and "byte_words xs + byte_words ys \<noteq> 0"
  shows "internet_checksum (xs @ to_be 2 (internet_checksum (xs @ [0, 0] @ ys)) @ ys) = 0"
proof -
  define c where "c = internet_checksum (xs @ [0, 0] @ ys)"
  let ?z = "xs @ [0, 0] @ ys" and ?f = "xs @ to_be 2 c @ ys"
  obtain h l where hl: "to_be 2 c = [h, l]"
    by (metis (no_types, opaque_lifting) length_0_conv length_Suc_conv length_to_be numeral_2_eq_2)
  have "from_be [h, l] = c" unfolding hl [symmetric] by (rule from_be_to_be) simp
  then have bf: "byte_words ?f = byte_words xs + unat c + byte_words ys"
    using assms(1) by (simp add: byte_words_def words16_append hl)
  have "(from_be [0, 0] :: u16) = 0" by (simp add: from_be_def)
  then have bz: "byte_words ?z = byte_words xs + byte_words ys"
    using assms(1) by (simp add: byte_words_def words16_append)
  let ?S = "\<lambda>bs. sum_list (map (\<lambda>w. ucast w :: u32) (words16 bs))"
  have sz: "unat (?S ?z) = byte_words ?z" and sf: "unat (?S ?f) = byte_words ?f"
    using sum_words [of ?z] sum_words [of ?f] assms(2) by auto
  have c: "unat c = 65535 - unat (fold_sum (?S ?z))"
    unfolding c_def using assms(2) by (intro checksum_unat) simp
  have "unat (fold_sum (?S ?f)) = 65535"
    using sz sf bf bz c assms(3) by (intro fold_sum_complement [of _ "?S ?z"]) auto
  then have "unat (internet_checksum ?f) = 0"
    using assms(2) by (subst checksum_unat) auto
  then show ?thesis by (simp add: c_def unat_eq_0)
qed

section \<open>Reading the frames back\<close>

definition hi8 :: "u16 \<Rightarrow> u8" where "hi8 w = ucast (drop_bit 8 w)"
definition lo8 :: "u16 \<Rightarrow> u8" where "lo8 w = ucast w"

lemma to_be_2: "to_be 2 w = [hi8 w, lo8 w]"
  by (simp add: to_be_def hi8_def lo8_def numeral_2_eq_2)

lemma from_hi_lo [simp]: "from_be [hi8 w, lo8 w] = w"
  using from_be_to_be [of 2 w] by (simp add: to_be_2)

lemma list_4: "length xs = 4 \<Longrightarrow> \<exists>a b c d. xs = [a, b, c, d]"
  by (auto simp: length_Suc_conv eval_nat_numeral)

lemma unat_of_nat_u16: "n < 65536 \<Longrightarrow> unat (of_nat n :: u16) = n"
  by (simp add: unsigned_of_nat take_bit_nat_eq_self)

definition ipv4_synth_header :: "bytes \<Rightarrow> bytes \<Rightarrow> u8 \<Rightarrow> ip_header" where
  "ipv4_synth_header src dst proto =
     \<lparr>ip_src = V4 src, ip_dst = V4 dst, ip_proto = proto, ip_ttl = 64, more_fragments = False,
      fragment_offset = 0\<rparr>"

lemma from_be_00: "from_be [0, 0] = (0 :: 'a::len word)"
  by (simp add: from_be_def)

lemma ipv4_parse_synth:
  assumes "length src = 4" and "length dst = 4" and len: "20 + length l4 < 65536"
  shows "ipv4_parse (ipv4_header_bytes src dst proto (of_nat (20 + length l4)) ck @ l4) =
     Ok (ipv4_synth_header src dst proto, l4)"
proof -
  obtain a b c d where src: "src = [a, b, c, d]" using list_4 [OF assms(1)] by blast
  obtain a' b' c' d' where dst: "dst = [a', b', c', d']" using list_4 [OF assms(2)] by blast
  define t where "t = (of_nat (20 + length l4) :: u16)"
  have t: "unat t = 20 + length l4" unfolding t_def using len by (rule unat_of_nat_u16)
  have nib: "drop_bit 4 (69 :: u8) = 4" "unat ((69 :: u8) AND 15) = 5" by simp_all
  show ?thesis
    unfolding t_def [symmetric] src dst
    by (simp add: ipv4_parse_def ipv4_header_bytes_def to_be_2 need_def IPV4_MIN_HEADER_LEN_def t nib
        ipv4_synth_header_def SYNTH_TTL_def from_be_00 FLAG_MORE_FRAGMENTS_def FRAGMENT_OFFSET_MASK_def Let_def)
qed

definition parsed_frame :: "frame \<Rightarrow> bytes \<Rightarrow> bytes \<Rightarrow> u8 \<Rightarrow> packet" where
  "parsed_frame fr src dst proto =
     \<lparr>pk_ts_us = fr_ts_us fr, pk_wire_len = fr_wire_len fr, pk_ethertype = Some 0x0800,
      pk_ip = Some (ipv4_synth_header src dst proto), pk_transport = TransportNone, pk_app = AppNone\<rparr>"

lemma ethernet_ipv4_Ok:
  "20 + length l4 < 65536 \<Longrightarrow>
   ethernet_ipv4 src dst proto l4 =
     Ok (DST_MAC @ SRC_MAC @ SYNTH_ETHERTYPE_IPV4 @
         ipv4_header_bytes src dst proto (of_nat (20 + length l4))
           (internet_checksum (ipv4_header_bytes src dst proto (of_nat (20 + length l4)) 0)) @ l4)"
  by (simp add: ethernet_ipv4_def try_from_usize_def Let_def)

lemma parse_link_synth:
  "parse_link LinkEthernet (DST_MAC @ SRC_MAC @ SYNTH_ETHERTYPE_IPV4 @ l3) = Ok (Some 0x0800, l3)"
proof -
  have t: "from_be [8, 0] = (0x0800 :: u16)" by (simp add: from_be_def)
  show ?thesis
    by (simp add: parse_link_def ethernet_parse_def need_def eth_consts DST_MAC_def SRC_MAC_def
        SYNTH_ETHERTYPE_IPV4_def t vlan_loop.simps)
qed

lemma parse_ethernet_ipv4:
  assumes "length src = 4" and "length dst = 4" and "20 + length l4 < 65536"
    and "ethernet_ipv4 src dst proto l4 = Ok (fr_data fr)"
  shows "parse LinkEthernet fr = parse_l4 (parsed_frame fr src dst proto) (ipv4_synth_header src dst proto) l4"
proof -
  have d: "fr_data fr = DST_MAC @ SRC_MAC @ SYNTH_ETHERTYPE_IPV4 @
      ipv4_header_bytes src dst proto (of_nat (20 + length l4))
        (internet_checksum (ipv4_header_bytes src dst proto (of_nat (20 + length l4)) 0)) @ l4"
    using assms(4) unfolding ethernet_ipv4_Ok [OF assms(3)] by simp
  show ?thesis
    unfolding parse_def d parse_link_synth
    by (simp add: parse_ip_version_def ETHERTYPE_IPV4_def parse_ip_def ipv4_parse_synth assms Let_def
        parsed_frame_def del: of_nat_add) (simp add: ipv4_synth_header_def)
qed

lemma ipv4_header_verifies:
  assumes "length src = 4" and "length dst = 4"
  shows "internet_checksum (ipv4_header_bytes src dst proto n
     (internet_checksum (ipv4_header_bytes src dst proto n 0))) = 0"
proof -
  obtain a b c d where src: "src = [a, b, c, d]" using list_4 [OF assms(1)] by blast
  obtain a' b' c' d' where dst: "dst = [a', b', c', d']" using list_4 [OF assms(2)] by blast
  let ?xs = "[0x45, 0] @ to_be 2 n @ [0, 0, 0, 0, SYNTH_TTL, proto]"
  have z: "to_be 2 (0 :: u16) = [0, 0]" by (simp add: to_be_2 hi8_def lo8_def)
  have "(from_be [0x45, 0] :: u16) = 0x4500" by (simp add: from_be_def)
  then have "byte_words ?xs \<noteq> 0" by (simp add: byte_words_def to_be_2)
  then have "internet_checksum (?xs @ to_be 2 (internet_checksum (?xs @ [0, 0] @ (src @ dst))) @ (src @ dst)) = 0"
    using assms by (intro checksum_verifies) auto
  then show ?thesis by (simp add: ipv4_header_bytes_def z)
qed

lemma try_u16: "n < 65536 \<Longrightarrow> (try_from_usize n :: u16 option) = Some (of_nat n)"
  by (simp add: try_from_usize_def)

lemma push_20: "push_bit 4 (of_nat (20 div 4)) = (0x50 :: u8)"
  by simp

lemma parse_tcp_segment:
  assumes "length (sa_ip src) = 4" and "length (sa_ip dst) = 4" and "40 + n < 65536"
    and "tcp_segment src dst flags n = Ok (fr_data fr)"
  shows "parse LinkEthernet fr = Ok ((parsed_frame fr (sa_ip src) (sa_ip dst) PROTO_TCP)
     \<lparr>pk_transport := TransportTcp \<lparr>tcp_src_port = sa_port src, tcp_dst_port = sa_port dst, tcp_seq = 0,
        tcp_ack = 0, tcp_flags = flags, tcp_window = 64240\<rparr>\<rparr>)"
proof -
  let ?seg = "to_be 2 (sa_port src) @ to_be 2 (sa_port dst) @ [0, 0, 0, 0, 0, 0, 0, 0] @
            [0x50, flags] @ to_be 2 TCP_WINDOW @ [0, 0, 0, 0] @ replicate n 0"
  have "parse LinkEthernet fr = parse_l4 (parsed_frame fr (sa_ip src) (sa_ip dst) PROTO_TCP)
      (ipv4_synth_header (sa_ip src) (sa_ip dst) PROTO_TCP) ?seg"
    using assms by (intro parse_ethernet_ipv4) (auto simp: tcp_segment_def Let_def)
  moreover have "unat (drop_bit 4 (0x50 :: u8)) = 5" by simp
  moreover have "from_be [hi8 TCP_WINDOW, lo8 TCP_WINDOW] = (64240 :: u16)" by (simp add: TCP_WINDOW_def)
  moreover have "from_be [0, 0, 0, 0] = (0 :: u32)" by (simp add: from_be_def)
  ultimately show ?thesis
    by (simp add: parse_l4_def ipv4_synth_header_def tcp_parse_def need_def TCP_MIN_HEADER_LEN_def to_be_2 Let_def)
qed

lemma parse_udp_datagram:
  assumes "length (sa_ip src) = 4" and "length (sa_ip dst) = 4" and "28 + length payload < 65536"
    and "udp_datagram src dst payload = Ok (fr_data fr)"
  shows "parse LinkEthernet fr =
     (let p = (parsed_frame fr (sa_ip src) (sa_ip dst) PROTO_UDP)
        \<lparr>pk_transport := TransportUdp \<lparr>udp_src_port = sa_port src, udp_dst_port = sa_port dst,
           udp_length = of_nat (8 + length payload)\<rparr>\<rparr> in
      if (sa_port src = 53 \<or> sa_port dst = 53) \<and> payload \<noteq> [] then
        (case dns_parse payload of
           Ok info \<Rightarrow> Ok (p\<lparr>pk_app := AppDns info\<rparr>)
         | Err e \<Rightarrow> Ok (p\<lparr>pk_app := AppDnsError e\<rparr>)
         | Panic \<Rightarrow> Panic)
      else Ok p)"
proof -
  define len where "len = (of_nat (8 + length payload) :: u16)"
  have len: "unat len = 8 + length payload"
    unfolding len_def using assms(3) by (intro unat_of_nat_u16) simp
  have t: "(try_from_usize (8 + length payload) :: u16 option) = Some len"
    unfolding len_def using assms(3) by (intro try_u16) simp
  let ?seg = "to_be 2 (sa_port src) @ to_be 2 (sa_port dst) @ to_be 2 len @ [0, 0] @ payload"
  have p: "parse LinkEthernet fr = parse_l4 (parsed_frame fr (sa_ip src) (sa_ip dst) PROTO_UDP)
      (ipv4_synth_header (sa_ip src) (sa_ip dst) PROTO_UDP) ?seg"
    using assms by (intro parse_ethernet_ipv4) (auto simp: udp_datagram_def t)
  have u: "udp_parse ?seg = Ok (\<lparr>udp_src_port = sa_port src, udp_dst_port = sa_port dst, udp_length = len\<rparr>, payload)"
    by (simp add: udp_parse_def need_def UDP_HEADER_LEN_def to_be_2 len Let_def)
  show ?thesis
    unfolding p len_def [symmetric]
    by (simp add: parse_l4_def u [simplified] ipv4_synth_header_def proto_consts DNS_PORT_def Let_def)
qed

lemma parse_icmp_echo:
  assumes "length src = 4" and "length dst = 4" and "(icmp_echo src dst seq :: ('e, bytes) result) = Ok (fr_data fr)"
  shows "parse LinkEthernet fr = Ok ((parsed_frame fr src dst PROTO_ICMP)
     \<lparr>pk_transport := TransportIcmp \<lparr>icmp_type = 8, icmp_code = 0, icmp_v6 = False\<rparr>\<rparr>)"
proof -
  define ck where "ck = internet_checksum ([ICMP_ECHO_REQUEST, 0] @ to_be 2 (0 :: u16) @ [0, 0] @ to_be 2 seq)"
  have "(ethernet_ipv4 src dst PROTO_ICMP ([ICMP_ECHO_REQUEST, 0] @ to_be 2 ck @ [0, 0] @ to_be 2 seq)
      :: ('e, bytes) result) = Ok (fr_data fr)"
    using assms(3) by (simp add: icmp_echo_def Let_def ck_def)
  then have "parse LinkEthernet fr = parse_l4 (parsed_frame fr src dst PROTO_ICMP)
      (ipv4_synth_header src dst PROTO_ICMP) ([ICMP_ECHO_REQUEST, 0] @ to_be 2 ck @ [0, 0] @ to_be 2 seq)"
    using assms by (intro parse_ethernet_ipv4) auto
  then show ?thesis
    by (simp add: parse_l4_def ipv4_synth_header_def proto_consts icmp_parse_def need_def ICMP_HEADER_LEN_def
        ICMP_ECHO_REQUEST_def)
qed

section \<open>DNS names read back\<close>

definition graphic_lower :: "char \<Rightarrow> bool" where
  "graphic_lower c \<longleftrightarrow> 33 \<le> (of_char c :: nat) \<and> (of_char c :: nat) \<le> 126 \<and>
     \<not> (65 \<le> (of_char c :: nat) \<and> (of_char c :: nat) \<le> 90)"

definition encoded_labels :: "string list \<Rightarrow> bytes" where
  "encoded_labels ls = concat (map (\<lambda>l. of_nat (length l) # as_bytes l) ls)"

lemma unat_of_char: "unat (of_char c :: u8) = of_char c"
proof -
  have "(of_char c :: u8) = of_nat (of_char c)" by (rule of_nat_of_char [symmetric])
  moreover have "(of_char c :: nat) < 256" by simp
  ultimately show ?thesis by (simp add: unsigned_of_nat take_bit_nat_eq_self del: of_nat_of_char)
qed

lemma printable_lower_of_char: "graphic_lower c \<Longrightarrow> printable_lower (of_char c) = c"
  by (auto simp: graphic_lower_def printable_lower_def is_ascii_graphic_def to_ascii_lowercase_def
      word_le_nat_alt unat_of_char)

lemma dns_labels_Ok:
  "list_all (\<lambda>l. length l < 256) ls \<Longrightarrow> dns_labels ls = Ok (encoded_labels ls)"
  by (induction ls) (auto simp: encoded_labels_def try_from_usize_def)

lemma decodes_encoded:
  assumes "list_all (\<lambda>l. l \<noteq> [] \<and> length l < 64) ls"
  shows "decodes (pre @ encoded_labels ls @ 0 # post) (length pre) (map as_bytes ls)
     (length pre + length (encoded_labels ls) + 1) 0"
  using assms
proof (induction ls arbitrary: pre)
  case Nil
  show ?case by (auto simp: encoded_labels_def intro!: decodes.root [where pos = "length pre", simplified])
next
  case (Cons l ls)
  let ?b = "of_nat (length l) :: u8"
  let ?msg = "pre @ encoded_labels (l # ls) @ 0 # post"
  let ?pre = "pre @ ?b # as_bytes l"
  have l: "l \<noteq> []" "length l < 64" using Cons.prems by auto
  have m: "?msg = ?pre @ encoded_labels ls @ 0 # post" by (simp add: encoded_labels_def)
  have b: "?msg ! length pre = ?b" by (simp add: encoded_labels_def)
  have ub: "unat ?b = length l" using l(2) by (simp add: unsigned_of_nat take_bit_nat_eq_self)
  have len: "length (as_bytes l) = length l" by (simp add: as_bytes_def)
  have lab: "label_at ?msg (length pre) = as_bytes l"
    unfolding label_at_def b ub by (simp add: encoded_labels_def len)
  have "decodes ?msg (length pre + 1 + unat (?msg ! length pre)) (map as_bytes ls)
      (length pre + length (encoded_labels (l # ls)) + 1) 0"
    unfolding b ub using Cons.IH [of ?pre] Cons.prems unfolding m by (simp add: encoded_labels_def len ac_simps)
  moreover have "length pre + 1 + unat (?msg ! length pre) \<le> length ?msg"
    unfolding b ub by (simp add: encoded_labels_def len)
  ultimately have "decodes ?msg (length pre) (label_at ?msg (length pre) # map as_bytes ls)
      (length pre + length (encoded_labels (l # ls)) + 1) 0"
    using l by (intro decodes.label) (auto simp: b ub)
  then show ?case unfolding lab by simp
qed

lemma push_labels_join:
  assumes "list_all (\<lambda>l. l \<noteq> [] \<and> list_all graphic_lower l) ls"
  shows "push_labels [] (map as_bytes ls) = join_with CHR ''.'' ls"
proof -
  have pr: "map printable_lower (as_bytes l) = l" if "list_all graphic_lower l" for l
    using that by (induction l) (auto simp: as_bytes_def printable_lower_of_char)
  have tail: "push_labels name (map as_bytes ls) = name @ concat (map (\<lambda>l. CHR ''.'' # l) ls)"
    if "name \<noteq> []" "list_all (\<lambda>l. l \<noteq> [] \<and> list_all graphic_lower l) ls" for name ls
    using that by (induction ls arbitrary: name) (auto simp: push_label_def pr)
  have dots: "join_with CHR ''.'' (l # ls) = l @ concat (map (\<lambda>l. CHR ''.'' # l) ls)" for l ls
    by (induction ls arbitrary: l) auto
  show ?thesis
  proof (cases ls)
    case (Cons l ls')
    with assms have "l \<noteq> []" "list_all graphic_lower l" "list_all (\<lambda>l. l \<noteq> [] \<and> list_all graphic_lower l) ls'" by auto
    then show ?thesis unfolding Cons dots by (simp add: push_label_def pr tail)
  qed simp
qed


text \<open>A name \<open>dns_query_payload\<close> can carry unchanged.\<close>

definition plain_name :: "string \<Rightarrow> bool" where
  "plain_name name \<longleftrightarrow> length name \<le> 253 \<and>
     list_all (\<lambda>l. l \<noteq> [] \<and> length l < 64 \<and> list_all graphic_lower l) (split_on CHR ''.'' name)"

definition query_info :: "u16 \<Rightarrow> string \<Rightarrow> u16 \<Rightarrow> dns_info" where
  "query_info dnsid name qtype =
     \<lparr>dns_id = dnsid, is_response = False, opcode = 0, rcode = 0, question_count = 1, answer_count = 0,
      question = Some \<lparr>q_name = name, q_qtype = qtype\<rparr>\<rparr>"

lemma encoded_labels_length: "length (encoded_labels ls) \<le> length (join_with CHR ''.'' ls) + 1"
proof -
  have "length (encoded_labels (l # ls)) = length (join_with CHR ''.'' (l # ls)) + 1" for l ls
    by (induction ls arbitrary: l) (auto simp: encoded_labels_def as_bytes_def)
  then show ?thesis by (cases ls) (auto simp: encoded_labels_def)
qed

lemma dns_query_payload_parses:
  assumes "plain_name name"
  obtains payload where "(dns_query_payload dnsid name qtype :: ('e, bytes) result) = Ok payload" "length payload \<le> 271" "payload \<noteq> []"
    "dns_parse payload = Ok (query_info dnsid name qtype)"
proof -
  define ls where "ls = split_on CHR ''.'' name"
  have ok: "list_all (\<lambda>l. l \<noteq> [] \<and> length l < 64 \<and> list_all graphic_lower l) ls" and n: "length name \<le> 253"
    using assms by (auto simp: plain_name_def ls_def)
  have name: "join_with CHR ''.'' ls = name" by (simp add: ls_def split_on_join)
  have "filter (\<lambda>l. l \<noteq> []) ls = ls" using ok by (induction ls) auto
  moreover have "list_all (\<lambda>l. length l < 256) ls" using ok by (induction ls) auto
  ultimately have enc: "(dns_labels (filter (\<lambda>l. l \<noteq> []) ls) :: ('e, bytes) result) = Ok (encoded_labels ls)" by (simp add: dns_labels_Ok)
  define hdr where "hdr = [hi8 dnsid, lo8 dnsid, hi8 DNS_FLAG_RECURSION_DESIRED, lo8 DNS_FLAG_RECURSION_DESIRED,
    hi8 1, lo8 1] @ replicate 6 0"
  define payload where
    "payload = hdr @ encoded_labels ls @ 0 # [hi8 qtype, lo8 qtype, hi8 DNS_CLASS_IN, lo8 DNS_CLASS_IN]"
  have q: "(dns_query_payload dnsid name qtype :: ('e, bytes) result) = Ok payload"
    using enc by (simp add: dns_query_payload_def ls_def payload_def hdr_def to_be_2 replicate_app_Cons_same)
  have h12: "length hdr = 12" by (simp add: hdr_def)
  have len: "length payload = 17 + length (encoded_labels ls)" by (simp add: payload_def hdr_def)
  have "length payload \<le> 271" using len encoded_labels_length [of ls] n unfolding name by simp
  have "list_all (\<lambda>l. l \<noteq> [] \<and> length l < 64) ls" "list_all (\<lambda>l. l \<noteq> [] \<and> list_all graphic_lower l) ls"
    using ok by (induction ls) auto
  note dec = decodes_encoded [OF this(1), of hdr "[hi8 qtype, lo8 qtype, hi8 DNS_CLASS_IN, lo8 DNS_CLASS_IN]"]
    and push = push_labels_join [OF this(2)]
  have rn: "read_name payload 12 = Ok (name, 13 + length (encoded_labels ls))"
    unfolding read_name_accepts using dec push name n h12
    by (intro exI [of _ "map as_bytes ls"] exI [of _ 0]) (simp add: payload_def)
  have at: "payload ! (13 + length (encoded_labels ls)) = hi8 qtype"
    "payload ! (14 + length (encoded_labels ls)) = lo8 qtype"
    by (simp_all add: payload_def nth_append h12)
  have hd: "take 12 payload = hdr" using h12 by (simp add: payload_def)
  have hdr_at: "payload ! i = hdr ! i" if "i < 12" for i using that hd by (metis nth_take)
  have one: "hi8 1 = 0" "lo8 1 = 1" "(from_be [0, 1] :: u16) = 1" by (simp_all add: hi8_def lo8_def from_be_def)
  have "dns_parse payload = Ok (query_info dnsid name qtype)"
    using len
    by (simp add: dns_parse_def need_def DNS_HEADER_LEN_def hdr_at hdr_def one rn at query_info_def from_be_00
        DNS_FLAG_RECURSION_DESIRED_def) (simp add: hi8_def lo8_def QR_BIT_def)
  moreover have "payload \<noteq> []" using len by auto
  ultimately show thesis using q \<open>length payload \<le> 271\<close> that by blast
qed

lemma parse_dns_query:
  assumes "length (sa_ip src) = 4" and "length (sa_ip dst) = 4" and "sa_port dst = 53" and "plain_name name"
  obtains data where "(dns_query src dst dnsid name qtype :: ('e, bytes) result) = Ok data"
    "\<And>fr. fr_data fr = data \<Longrightarrow> \<exists>u. udp_src_port u = sa_port src \<and> udp_dst_port u = 53 \<and>
       parse LinkEthernet fr = Ok ((parsed_frame fr (sa_ip src) (sa_ip dst) PROTO_UDP)
         \<lparr>pk_transport := TransportUdp u, pk_app := AppDns (query_info dnsid name qtype)\<rparr>)"
proof -
  obtain payload where p: "(dns_query_payload dnsid name qtype :: ('e, bytes) result) = Ok payload" "length payload \<le> 271" "payload \<noteq> []"
    "dns_parse payload = Ok (query_info dnsid name qtype)"
    by (rule dns_query_payload_parses [OF assms(4)])
  obtain data where d: "(udp_datagram src dst payload :: ('e, bytes) result) = Ok data"
    using p(2) by (simp add: udp_datagram_def ethernet_ipv4_Ok try_u16)
  have u: "parse LinkEthernet fr = Ok ((parsed_frame fr (sa_ip src) (sa_ip dst) PROTO_UDP)
         \<lparr>pk_transport := TransportUdp \<lparr>udp_src_port = sa_port src, udp_dst_port = 53,
            udp_length = of_nat (8 + length payload)\<rparr>, pk_app := AppDns (query_info dnsid name qtype)\<rparr>)"
    if "fr_data fr = data" for fr
    using parse_udp_datagram [of src dst payload fr] assms(1-3) p d that by (simp add: Let_def)
  show thesis
  proof (rule that [of data])
    show "(dns_query src dst dnsid name qtype :: ('e, bytes) result) = Ok data" by (simp add: dns_query_def p d)
    show "\<exists>u. udp_src_port u = sa_port src \<and> udp_dst_port u = 53 \<and>
       parse LinkEthernet fr = Ok ((parsed_frame fr (sa_ip src) (sa_ip dst) PROTO_UDP)
         \<lparr>pk_transport := TransportUdp u, pk_app := AppDns (query_info dnsid name qtype)\<rparr>)"
      if "fr_data fr = data" for fr
      using u [OF that] by (intro exI [of _ "\<lparr>udp_src_port = sa_port src, udp_dst_port = 53,
            udp_length = of_nat (8 + length payload)\<rparr>"]) simp
  qed
qed

section \<open>Every scenario frame parses\<close>

fun app_readable :: "app \<Rightarrow> bool" where
  "app_readable (AppDnsError e) = False"
| "app_readable _ = True"

text \<open>A frame the pipeline reads to the end: an IPv4 packet with its transport, no DNS error.\<close>

definition readable_packet :: "packet \<Rightarrow> bool" where
  "readable_packet p \<longleftrightarrow> pk_ip p \<noteq> None \<and> pk_transport p \<noteq> TransportNone \<and> app_readable (pk_app p)"

definition readable :: "bytes \<Rightarrow> bool" where
  "readable data \<longleftrightarrow> length data < 65536 \<and>
     (\<forall>ts wire. case parse LinkEthernet \<lparr>fr_ts_us = ts, fr_wire_len = wire, fr_data = data\<rparr> of
        Ok p \<Rightarrow> readable_packet p | _ \<Rightarrow> False)"

lemma readable_intro:
  assumes "length data < 65536"
    and "\<And>fr :: frame. fr_data fr = data \<Longrightarrow> \<exists>p. parse LinkEthernet fr = Ok p \<and> readable_packet p"
  shows "readable data"
  unfolding readable_def
proof (intro conjI allI)
  fix ts wire
  from assms(2) [of "\<lparr>fr_ts_us = ts, fr_wire_len = wire, fr_data = data\<rparr>"]
  show "case parse LinkEthernet \<lparr>fr_ts_us = ts, fr_wire_len = wire, fr_data = data\<rparr> of
    Ok p \<Rightarrow> readable_packet p | _ \<Rightarrow> False" by auto
qed (rule assms(1))

lemma rng_then_Ok [simp]: "rng_then (Ok x, r) f = f x r"
  by (simp add: rng_then_def)

lemma ethernet_ipv4_length:
  "20 + length l4 < 65536 \<Longrightarrow> ethernet_ipv4 src dst proto l4 = Ok data \<Longrightarrow> length src = 4 \<Longrightarrow> length dst = 4 \<Longrightarrow>
   length data = 34 + length l4"
  by (auto simp: ethernet_ipv4_Ok ipv4_header_bytes_def DST_MAC_def SRC_MAC_def SYNTH_ETHERTYPE_IPV4_def)

lemma tcp_segment_readable:
  assumes "length (sa_ip src) = 4" and "length (sa_ip dst) = 4" and "n < 2000"
  obtains data where "(tcp_segment src dst flags n :: ('e, bytes) result) = Ok data" "readable data"
proof -
  obtain data where d: "(tcp_segment src dst flags n :: ('e, bytes) result) = Ok data"
    using assms(3) by (simp add: tcp_segment_def Let_def ethernet_ipv4_Ok)
  then have "length data < 65536"
    using assms by (auto simp: tcp_segment_def Let_def dest!: ethernet_ipv4_length [rotated])
  then have "readable data"
  proof (rule readable_intro)
    fix fr :: frame assume "fr_data fr = data"
    with parse_tcp_segment [OF assms(1,2) _ d [folded this]] assms(3)
    show "\<exists>p. parse LinkEthernet fr = Ok p \<and> readable_packet p"
      by (simp add: readable_packet_def parsed_frame_def)
  qed
  with d that show thesis by blast
qed

lemma icmp_echo_readable:
  assumes "length src = 4" and "length dst = 4"
  obtains data where "(icmp_echo src dst seq :: ('e, bytes) result) = Ok data" "readable data"
proof -
  obtain data where d: "(icmp_echo src dst seq :: ('e, bytes) result) = Ok data"
    by (simp add: icmp_echo_def Let_def ethernet_ipv4_Ok)
  then have "length data < 65536"
    using assms by (auto simp: icmp_echo_def Let_def dest!: ethernet_ipv4_length [rotated])
  then have "readable data"
  proof (rule readable_intro)
    fix fr :: frame assume "fr_data fr = data"
    with parse_icmp_echo [OF assms d [folded this]]
    show "\<exists>p. parse LinkEthernet fr = Ok p \<and> readable_packet p"
      by (simp add: readable_packet_def parsed_frame_def)
  qed
  with d that show thesis by blast
qed

lemma dns_query_readable:
  assumes "length (sa_ip src) = 4" and "length (sa_ip dst) = 4" and "sa_port dst = 53" and "plain_name name"
  obtains data where "(dns_query src dst dnsid name qtype :: ('e, bytes) result) = Ok data" "readable data"
proof -
  obtain payload where p: "(dns_query_payload dnsid name qtype :: ('e, bytes) result) = Ok payload" "length payload \<le> 271"
    by (rule dns_query_payload_parses [OF assms(4)])
  obtain data where d: "(dns_query src dst dnsid name qtype :: ('e, bytes) result) = Ok data"
    "\<And>fr. fr_data fr = data \<Longrightarrow> \<exists>u. udp_src_port u = sa_port src \<and> udp_dst_port u = 53 \<and>
       parse LinkEthernet fr = Ok ((parsed_frame fr (sa_ip src) (sa_ip dst) PROTO_UDP)
         \<lparr>pk_transport := TransportUdp u, pk_app := AppDns (query_info dnsid name qtype)\<rparr>)"
    by (rule parse_dns_query [OF assms]) blast
  have "length data < 65536"
    using d(1) p assms
    by (auto simp: dns_query_def udp_datagram_def and_then_iffs try_u16 dest!: ethernet_ipv4_length [rotated])
  then have "readable data"
  proof (rule readable_intro)
    fix fr :: frame assume "fr_data fr = data"
    from d(2) [OF this] show "\<exists>p. parse LinkEthernet fr = Ok p \<and> readable_packet p"
      by (auto simp: readable_packet_def parsed_frame_def)
  qed
  with d that show thesis by blast
qed

lemma table_lengths [simp]: "length SERVERS = 4" "length DOMAINS = 5" "length BASE32 = 32"
  by (simp_all add: SERVERS_def DOMAINS_def BASE32_def)

lemma plain_DOMAINS: "i < length DOMAINS \<Longrightarrow> plain_name (DOMAINS ! i)"
proof -
  have "list_all plain_name DOMAINS" by code_simp
  then show "i < length DOMAINS \<Longrightarrow> plain_name (DOMAINS ! i)" by (simp add: list_all_length)
qed

lemma SERVERS_ip: "i < length SERVERS \<Longrightarrow> length (sa_ip (SERVERS ! i)) = 4"
proof -
  have "list_all (\<lambda>s. length (sa_ip s) = 4) SERVERS" by (simp add: SERVERS_def sock_def)
  then show "i < length SERVERS \<Longrightarrow> length (sa_ip (SERVERS ! i)) = 4" by (simp add: list_all_length)
qed

lemma split_on_append: "c \<notin> set l \<Longrightarrow> split_on c (l @ c # s) = l # split_on c s"
  by (induction l) (auto split: list.split)

lemma plain_tunnel:
  assumes "length l = TUNNEL_LABEL_LEN" and "set l \<subseteq> set BASE32"
  shows "plain_name (l @ CHR ''.'' # TUNNEL_DOMAIN)"
proof -
  have b: "list_all (\<lambda>c. graphic_lower c \<and> c \<noteq> CHR ''.'') BASE32" by code_simp
  then have "list_all graphic_lower l" "CHR ''.'' \<notin> set l" using assms(2) by (auto simp: list_all_iff)
  moreover have "plain_name TUNNEL_DOMAIN" by code_simp
  moreover have "length TUNNEL_DOMAIN = 19" by (simp add: TUNNEL_DOMAIN_def)
  ultimately show ?thesis using assms(1) by (auto simp: plain_name_def split_on_append TUNNEL_LABEL_LEN_def)
qed


text \<open>What every step of the generator gives: a readable frame.\<close>

definition gives :: "('a \<Rightarrow> bool) \<Rightarrow> ('e, 'a) result \<times> rng \<Rightarrow> bool" where
  "gives P m \<longleftrightarrow> (case fst m of Ok x \<Rightarrow> P x | _ \<Rightarrow> False)"

lemma gives_then:
  assumes "gives P m" and "\<And>x r. P x \<Longrightarrow> gives Q (f x r)"
  shows "gives Q (rng_then m f)"
  using assms by (cases m; cases "fst m") (auto simp: gives_def rng_then_def)

lemma gives_below: "bound \<noteq> 0 \<Longrightarrow> gives (\<lambda>x. unat x < unat bound) (below r bound)"
  by (auto simp: gives_def below_def unat_mod unat_gt_0 split: prod.splits)

lemma gives_idx: "i < length xs \<Longrightarrow> gives (\<lambda>x. x = xs ! i) (idx xs i, r)"
  by (simp add: gives_def)

lemma gives_tcp:
  "length (sa_ip src) = 4 \<Longrightarrow> length (sa_ip dst) = 4 \<Longrightarrow> n < 2000 \<Longrightarrow>
   gives readable (tcp_segment src dst flags n :: ('e, bytes) result, r)"
proof -
  assume a: "length (sa_ip src) = 4" "length (sa_ip dst) = 4" "n < 2000"
  obtain data where "(tcp_segment src dst flags n :: ('e, bytes) result) = Ok data" "readable data"
    by (rule tcp_segment_readable [OF a])
  then show ?thesis by (simp add: gives_def)
qed

lemma gives_icmp: "length src = 4 \<Longrightarrow> length dst = 4 \<Longrightarrow> gives readable (icmp_echo src dst seq :: ('e, bytes) result, r)"
proof -
  assume a: "length src = 4" "length dst = 4"
  obtain data where "(icmp_echo src dst seq :: ('e, bytes) result) = Ok data" "readable data"
    by (rule icmp_echo_readable [OF a])
  then show ?thesis by (simp add: gives_def)
qed

lemma gives_dns:
  "length (sa_ip src) = 4 \<Longrightarrow> length (sa_ip dst) = 4 \<Longrightarrow> sa_port dst = 53 \<Longrightarrow> plain_name name \<Longrightarrow>
   gives readable (dns_query src dst dnsid name qtype :: ('e, bytes) result, r)"
proof -
  assume a: "length (sa_ip src) = 4" "length (sa_ip dst) = 4" "sa_port dst = 53" "plain_name name"
  obtain data where "(dns_query src dst dnsid name qtype :: ('e, bytes) result) = Ok data" "readable data"
    by (rule dns_query_readable [OF a])
  then show ?thesis by (simp add: gives_def)
qed

lemma background_packet_readable: "gives readable (background_packet r i :: ('e, bytes) result \<times> rng)"
  unfolding background_packet_def Let_def
proof (rule gives_then [OF gives_below], goal_cases)
  case (2 client r)
  show ?case
  proof (rule gives_then [OF gives_below], goal_cases)
    case (2 kind r)
    have res: "length (sa_ip RESOLVER) = 4" "sa_port RESOLVER = 53" by (simp_all add: RESOLVER_def sock_def)
    consider "kind \<le> 69" | "\<not> kind \<le> 69" "kind \<le> 89" | "\<not> kind \<le> 69" "\<not> kind \<le> 89" by blast
    then show ?case
    proof cases
      case 1
      have "gives readable (rng_then (below r (of_nat (length SERVERS))) (\<lambda>server_idx r.
       rng_then (idx SERVERS (unat server_idx), r) (\<lambda>server r.
       rng_then (below r MAX_TCP_PAYLOAD) (\<lambda>payload r.
       rng_then (below r 2) (\<lambda>coin r.
         if coin = 0 then (tcp_segment (cl server_idx) server fl (unat payload) :: ('e, bytes) result, r)
         else (tcp_segment server (cl server_idx) fl (unat payload), r))))))"
        if "\<And>k. length (sa_ip (cl k)) = 4" for cl fl
        by (intro gives_then [OF gives_below] gives_then [OF gives_idx])
          (auto simp: MAX_TCP_PAYLOAD_def that SERVERS_ip intro!: gives_tcp) 
      with 1 show ?thesis by simp
    next
      case 2
      then show ?thesis
        by (auto simp: res plain_DOMAINS 
            intro!: gives_then [OF gives_below] gives_then [OF gives_idx] gives_dns)
    next
      case 3
      then show ?thesis by (auto simp: res intro!: gives_icmp)
    qed
  qed simp
qed (simp add: CLIENT_COUNT_def)

lemma gives_Ok: "P x \<Longrightarrow> gives P (Ok x, r)"
  by (simp add: gives_def)

lemma scan_probe_readable: "gives readable (scan_probe port, r)"
  unfolding scan_probe_def by (rule gives_tcp) (simp_all add: SCANNER_def SCAN_TARGET_def)

lemma flood_syn_readable: "gives readable (flood_syn r)"
proof (cases "next_u64 r")
  case (Pair x r')
  show ?thesis unfolding flood_syn_def Pair prod.case Let_def
    by (rule gives_then [OF gives_below]) (auto intro!: gives_tcp simp: FLOOD_TARGET_def sock_def)
qed

lemma random_label_spec: "gives (\<lambda>l. length l = n \<and> set l \<subseteq> set BASE32) (random_label n r)"
proof (induction n arbitrary: r)
  case (Suc n)
  show ?case unfolding random_label.simps
  proof (rule gives_then [OF gives_below], simp, rule gives_then [OF gives_idx], goal_cases)
    case (2 k r c r')
    show ?case
      by (rule gives_then [OF Suc]) (use 2 in \<open>auto intro!: gives_Ok\<close>)
  qed auto
qed (simp add: gives_def)

lemma tunnel_query_readable: "gives readable (tunnel_query r i)"
  unfolding tunnel_query_def
  by (rule gives_then [OF random_label_spec])
    (auto intro!: gives_dns plain_tunnel simp: TUNNEL_CLIENT_def RESOLVER_def sock_def)

lemma scenario_frame_readable:
  obtains data r' port' where "(scenario_frame sc i r port :: ('e, bytes) result \<times> rng \<times> u16) = (Ok data, r', port')" "readable data"
proof -
  have "\<exists>data. fst (scenario_frame sc i r port :: ('e, bytes) result \<times> rng \<times> u16) = Ok data \<and> readable data"
    using flood_syn_readable [where 'a = 'e, of r] background_packet_readable [where 'e = 'e, of r i]
      tunnel_query_readable [where 'a = 'e, of r i] scan_probe_readable [where 'a = 'e, of port r]
    by (auto simp: scenario_frame_def Let_def gives_def split: result.splits prod.splits)
  then show thesis using that by (metis prod.collapse)
qed

section \<open>What \<open>generate\<close> emits\<close>

text \<open>A callback that keeps what it is given.\<close>

definition collect :: "(u64 \<times> bytes) list \<Rightarrow> u64 \<Rightarrow> bytes \<Rightarrow> (u64 \<times> bytes) list \<times> (io_error, unit) result" where
  "collect recs ts data = (recs @ [(ts, data)], Ok ())"

text \<open>Records in order: strictly later than \<open>from\<close>, each at most 2 ms after the one before it.\<close>

fun paced :: "u64 \<Rightarrow> (u64 \<times> bytes) list \<Rightarrow> bool" where
  "paced t [] \<longleftrightarrow> True"
| "paced t ((ts, data) # recs) \<longleftrightarrow> unat t < unat ts \<and> unat ts \<le> unat t + 2000 \<and> paced ts recs"

lemma paced_bound:
  "paced t recs \<Longrightarrow> list_all (\<lambda>(ts, data). unat t < unat ts \<and> unat ts \<le> unat t + 2000 * length recs) recs"
proof (induction t recs rule: paced.induct)
  case (2 t ts data recs)
  then show ?case by (auto simp: list_all_iff)
qed simp

lemma generate_loop_collect:
  "unat ts + 2000 * n < 2 ^ 64 \<Longrightarrow>
   \<exists>recs. generate_loop collect sc n i r ts port acc = (acc @ recs, Ok ()) \<and> length recs = n \<and>
     paced ts recs \<and> list_all (\<lambda>(ts, data). readable data) recs"
proof (induction n arbitrary: i r ts port acc)
  case (Suc n)
  have "MAX_GAP_US \<noteq> 0" by (simp add: MAX_GAP_US_def)
  then obtain gap r1
    where g: "below r MAX_GAP_US = (Ok gap :: (io_error, u64) result, r1)" "unat gap < unat MAX_GAP_US"
    by (rule below_spec)
  then have g2: "unat gap < 2000" by (simp add: MAX_GAP_US_def)
  obtain data r2 port' where f: "scenario_frame sc i r1 port = (Ok data :: (io_error, bytes) result, r2, port')"
    "readable data" by (rule scenario_frame_readable)
  have ts: "unat (ts + (1 + gap)) = unat ts + 1 + unat gap"
    using g2 Suc.prems by (simp add: unat_word_ariths)
  with Suc.prems g2 have "unat (ts + (1 + gap)) + 2000 * n < 2 ^ 64" by simp
  from Suc.IH [OF this, of "i + 1" r2 port' "acc @ [(ts + (1 + gap), data)]"] obtain recs where
    "generate_loop collect sc n (i + 1) r2 (ts + (1 + gap)) port' (acc @ [(ts + (1 + gap), data)]) =
       ((acc @ [(ts + (1 + gap), data)]) @ recs, Ok ())"
    "length recs = n" "paced (ts + (1 + gap)) recs" "list_all (\<lambda>(ts, data). readable data) recs" by blast
  moreover have "collect acc (ts + (1 + gap)) data = (acc @ [(ts + (1 + gap), data)], Ok ())"
    by (rule collect_def)
  ultimately show ?case using g(1) g2 f ts
    by (intro exI [of _ "(ts + (1 + gap), data) # recs"]) simp
qed simp

text \<open>With any callback: the frames handed to it are the same, until it fails.\<close>

fun feed :: "('s \<Rightarrow> u64 \<Rightarrow> bytes \<Rightarrow> 's \<times> (io_error, unit) result) \<Rightarrow> 's \<Rightarrow> (u64 \<times> bytes) list \<Rightarrow>
    's \<times> (io_error, unit) result" where
  "feed sink s [] = (s, Ok ())"
| "feed sink s ((ts, data) # recs) =
     (case sink s ts data of
        (s, Ok _) \<Rightarrow> feed sink s recs
      | (s, Err e) \<Rightarrow> (s, Err e)
      | (s, Panic) \<Rightarrow> (s, Panic))"

lemma generate_loop_feed:
  "\<exists>recs. (\<forall>acc. generate_loop collect sc n i r ts port acc = (acc @ recs, Ok ())) \<and>
     generate_loop sink sc n i r ts port s = feed sink s recs"
proof (induction n arbitrary: i r ts port s)
  case (Suc n)
  have "MAX_GAP_US \<noteq> 0" by (simp add: MAX_GAP_US_def)
  then obtain gap r1
    where g: "below r MAX_GAP_US = (Ok gap :: (io_error, u64) result, r1)" by (rule below_spec)
  have c: "collect acc (ts + (1 + gap)) data = (acc @ [(ts + (1 + gap), data)], Ok ())" for acc data
    by (rule collect_def)
  obtain data r2 port' where f: "scenario_frame sc i r1 port = (Ok data :: (io_error, bytes) result, r2, port')"
    by (rule scenario_frame_readable)
  from Suc.IH [of "i + 1" r2 "ts + (1 + gap)" port' "fst (sink s (ts + (1 + gap)) data)"] obtain recs where
    "\<forall>acc. generate_loop collect sc n (i + 1) r2 (ts + (1 + gap)) port' acc = (acc @ recs, Ok ())"
    "generate_loop sink sc n (i + 1) r2 (ts + (1 + gap)) port' (fst (sink s (ts + (1 + gap)) data)) =
       feed sink (fst (sink s (ts + (1 + gap)) data)) recs" by blast
  with g f show ?case
    by (intro exI [of _ "(ts + (1 + gap), data) # recs"])
      (auto simp: c split: prod.splits result.splits)
qed simp

text \<open>The records a run makes.\<close>

definition synth_records :: "scenario \<Rightarrow> usize \<Rightarrow> u64 \<Rightarrow> (u64 \<times> bytes) list" where
  "synth_records sc n seed = fst (generate collect sc n seed [])"

lemma generate_feed: "generate sink sc n seed s = feed sink s (synth_records sc n seed)"
  using generate_loop_feed [of sc n 0 "rng_new seed" START_TS_US SCAN_FIRST_PORT sink s]
  by (auto simp: generate_def synth_records_def)

lemma generate_records:
  assumes "n < 2 ^ 50"
  shows "length (synth_records sc n seed) = n \<and> paced START_TS_US (synth_records sc n seed) \<and>
    list_all (\<lambda>(ts, data). readable data) (synth_records sc n seed)"
proof -
  have "unat START_TS_US + 2000 * n < 2 ^ 64" using assms by (simp add: START_TS_US_def)
  from generate_loop_collect [OF this, of sc 0 "rng_new seed" SCAN_FIRST_PORT "[]"]
  show ?thesis by (auto simp: generate_def synth_records_def)
qed

section \<open>Properties\<close>

text \<open>C24. What \<open>generate\<close> does with any callback: it hands the callback one frame after another and
  stops at its first failure, so the frames do not depend on the callback, and it panics only when
  the callback does.  For every scenario and seed, \<open>n\<close> packets are exactly \<open>n\<close> frames, strictly later
  one after another and at most 2 ms apart, and the pipeline reads each of them to its transport
  without an error.\<close>

theorem generate_emits:
  assumes "n < 2 ^ 50"
  shows "generate sink sc n seed s = feed sink s (synth_records sc n seed) \<and>
    length (synth_records sc n seed) = n \<and> paced START_TS_US (synth_records sc n seed) \<and>
    list_all (\<lambda>(ts, data). readable data) (synth_records sc n seed)"
  by (rule conjI [OF generate_feed generate_records [OF assms]])

lemma generate_emits_witness:
  "\<exists>r1 r2. synth_records ScDnsTunnel 2 0 = [r1, r2] \<and> unat (fst r1) < unat (fst r2) \<and> readable (snd r2)"
proof -
  have "length (synth_records ScDnsTunnel 2 0) = 2" "paced START_TS_US (synth_records ScDnsTunnel 2 0)"
    "list_all (\<lambda>(ts, data). readable data) (synth_records ScDnsTunnel 2 0)"
    using generate_emits [of 2 collect ScDnsTunnel 0 "[]"] by auto
  then show ?thesis by (auto simp: length_Suc_conv numeral_2_eq_2)
qed

text \<open>C25. A DNS query frame reads back: for a name of non-empty labels below 64 printable lower-case
  characters and at most 253 in all, sent to port 53, the frame that \<open>dns_query\<close> builds parses to a
  UDP packet with the addresses, the ports, the identifier, the name and the query type given.\<close>

theorem dns_query_round_trip:
  assumes "length (sa_ip src) = 4" and "length (sa_ip dst) = 4" and "sa_port dst = 53" and "plain_name name"
  shows "\<exists>data u. dns_query src dst dnsid name qtype = Ok data \<and>
    udp_src_port u = sa_port src \<and> udp_dst_port u = 53 \<and>
    parse LinkEthernet \<lparr>fr_ts_us = ts, fr_wire_len = wire, fr_data = data\<rparr> =
      Ok \<lparr>pk_ts_us = ts, pk_wire_len = wire, pk_ethertype = Some 0x0800,
          pk_ip = Some \<lparr>ip_src = V4 (sa_ip src), ip_dst = V4 (sa_ip dst), ip_proto = 17, ip_ttl = 64,
                        more_fragments = False, fragment_offset = 0\<rparr>,
          pk_transport = TransportUdp u,
          pk_app = AppDns \<lparr>dns_id = dnsid, is_response = False, opcode = 0, rcode = 0, question_count = 1,
                           answer_count = 0, question = Some \<lparr>q_name = name, q_qtype = qtype\<rparr>\<rparr>\<rparr>"
proof -
  obtain data where d: "(dns_query src dst dnsid name qtype :: ('a, bytes) result) = Ok data"
    "\<And>fr. fr_data fr = data \<Longrightarrow> \<exists>u. udp_src_port u = sa_port src \<and> udp_dst_port u = 53 \<and>
       parse LinkEthernet fr = Ok ((parsed_frame fr (sa_ip src) (sa_ip dst) PROTO_UDP)
         \<lparr>pk_transport := TransportUdp u, pk_app := AppDns (query_info dnsid name qtype)\<rparr>)"
    by (rule parse_dns_query [OF assms]) blast
  show ?thesis
    using d(2) [of "\<lparr>fr_ts_us = ts, fr_wire_len = wire, fr_data = data\<rparr>"] d(1)
    by (auto simp: parsed_frame_def query_info_def ipv4_synth_header_def PROTO_UDP_def)
qed

lemma dns_query_round_trip_witness:
  "\<exists>data u. dns_query TUNNEL_CLIENT RESOLVER 7 ''a.example.com'' DNS_TYPE_A = (Ok data :: (io_error, bytes) result) \<and>
    udp_src_port u = 53001 \<and> udp_dst_port u = 53 \<and>
    parse LinkEthernet \<lparr>fr_ts_us = 5, fr_wire_len = 60, fr_data = data\<rparr> =
      Ok \<lparr>pk_ts_us = 5, pk_wire_len = 60, pk_ethertype = Some 0x0800,
          pk_ip = Some \<lparr>ip_src = V4 [10, 0, 0, 77], ip_dst = V4 [10, 0, 0, 1], ip_proto = 17, ip_ttl = 64,
                        more_fragments = False, fragment_offset = 0\<rparr>,
          pk_transport = TransportUdp u,
          pk_app = AppDns \<lparr>dns_id = 7, is_response = False, opcode = 0, rcode = 0, question_count = 1,
                           answer_count = 0,
                           question = Some \<lparr>q_name = ''a.example.com'', q_qtype = DNS_TYPE_A\<rparr>\<rparr>\<rparr>"
proof -
  have n: "plain_name ''a.example.com''" by code_simp
  have a: "sa_ip TUNNEL_CLIENT = [10, 0, 0, 77]" "sa_port TUNNEL_CLIENT = 53001"
    "sa_ip RESOLVER = [10, 0, 0, 1]" "sa_port RESOLVER = 53"
    by (simp_all add: TUNNEL_CLIENT_def RESOLVER_def sock_def)
  show ?thesis
    using dns_query_round_trip [OF _ _ _ n, where src = TUNNEL_CLIENT and dst = RESOLVER] unfolding a by simp
qed

text \<open>C26. A TCP segment reads back: the frame \<open>tcp_segment\<close> builds has a valid IPv4 header checksum (the
  checksum of the stored header is zero) and parses to the addresses, the ports and the flags given,
  for every payload that fits an IPv4 packet.\<close>

theorem tcp_segment_round_trip:
  assumes "length (sa_ip src) = 4" and "length (sa_ip dst) = 4" and "40 + n < 65536"
  shows "\<exists>data. tcp_segment src dst flags n = Ok data \<and> length data = 54 + n \<and>
    internet_checksum (take 20 (drop 14 data)) = 0 \<and>
    parse LinkEthernet \<lparr>fr_ts_us = ts, fr_wire_len = wire, fr_data = data\<rparr> =
      Ok \<lparr>pk_ts_us = ts, pk_wire_len = wire, pk_ethertype = Some 0x0800,
          pk_ip = Some \<lparr>ip_src = V4 (sa_ip src), ip_dst = V4 (sa_ip dst), ip_proto = 6, ip_ttl = 64,
                        more_fragments = False, fragment_offset = 0\<rparr>,
          pk_transport = TransportTcp \<lparr>tcp_src_port = sa_port src, tcp_dst_port = sa_port dst, tcp_seq = 0,
                                       tcp_ack = 0, tcp_flags = flags, tcp_window = 64240\<rparr>,
          pk_app = AppNone\<rparr>"
proof -
  obtain data seg where d: "(tcp_segment src dst flags n :: ('a, bytes) result) = Ok data"
    "(ethernet_ipv4 (sa_ip src) (sa_ip dst) PROTO_TCP seg :: ('a, bytes) result) = Ok data" "length seg = 20 + n"
    using assms(3) by (simp add: tcp_segment_def Let_def ethernet_ipv4_Ok)
  have "length data = 54 + n" using ethernet_ipv4_length [OF _ d(2) assms(1,2)] d(3) assms(3) by simp
  moreover have "internet_checksum (take 20 (drop 14 data)) = 0"
    using d(2,3) assms ipv4_header_verifies [OF assms(1,2)]
    by (auto simp: ethernet_ipv4_Ok DST_MAC_def SRC_MAC_def SYNTH_ETHERTYPE_IPV4_def ipv4_header_bytes_def)
  ultimately show ?thesis
    using parse_tcp_segment [OF assms(1,2,3), of flags "\<lparr>fr_ts_us = ts, fr_wire_len = wire, fr_data = data\<rparr>"] d(1)
    by (auto simp: parsed_frame_def ipv4_synth_header_def PROTO_TCP_def)
qed

lemma tcp_segment_round_trip_witness:
  "\<exists>data. tcp_segment FLOOD_TARGET RESOLVER FLAG_SYN 3 = (Ok data :: (io_error, bytes) result) \<and> length data = 57 \<and>
    internet_checksum (take 20 (drop 14 data)) = 0"
  using tcp_segment_round_trip [of FLOOD_TARGET RESOLVER 3 FLAG_SYN] by (auto simp: FLOOD_TARGET_def RESOLVER_def sock_def)

end
