(* ===== verification/Cli.thy ===== *)
theory Cli
  imports Engine Pcap Synth
begin

text \<open>
  \<open>cli/src/args.rs\<close> and \<open>cli/src/main.rs\<close>: the command line of \<open>netmon\<close>, the commands \<open>gen\<close> and
  \<open>replay\<close>, and what they print.  The operating system is an environment: opening and creating
  files, flushing a buffered writer, reading a rules file, and the clock.  The text of its errors,
  the YAML parser, \<open>log2\<close> and the caches are parameters as in the theories before.
\<close>

section \<open>Numbers\<close>

text \<open>
  \<open>str::parse\<close> for an unsigned integer below \<open>bound\<close>: an optional plus sign and at least one digit; each
  step is checked, so a number that does not fit is refused.
\<close>

fun digits_value :: "nat \<Rightarrow> nat \<Rightarrow> string \<Rightarrow> nat option" where
  "digits_value bound acc [] = Some acc"
| "digits_value bound acc (c # cs) =
     (let d = of_char c :: nat; v = acc * 10 + (d - 48) in
      if 48 \<le> d \<and> d \<le> 57 \<and> v < bound then digits_value bound v cs else None)"

definition from_str :: "nat \<Rightarrow> string \<Rightarrow> nat option" where
  "from_str bound s =
     (if s = [] \<or> s = ''+'' \<or> s = ''-'' then None
      else digits_value bound 0 (if hd s = CHR ''+'' then tl s else s))"

definition parse_usize :: "string \<Rightarrow> usize option" where
  "parse_usize s = from_str (2 ^ 64) s"

definition parse_u64 :: "string \<Rightarrow> u64 option" where
  "parse_u64 s = map_option of_nat (from_str (2 ^ 64) s)"

section \<open>Arguments\<close>

definition DEFAULT_GEN_PACKETS :: usize where "DEFAULT_GEN_PACKETS = 100000"
definition DEFAULT_SEED :: u64 where "DEFAULT_SEED = 7"
definition DEFAULT_TOP :: usize where "DEFAULT_TOP = 10"

datatype rules_choice = RulesBuiltin | RulesFile string | RulesOff

datatype command =
    CmdGen scenario string usize u64  \<comment> \<open>scenario, out, packets, seed\<close>
  | CmdReplay string usize rules_choice  \<comment> \<open>file, top, rules\<close>
  | CmdHelp

type_synonym arg_error = string

definition USAGE :: string where
  "USAGE = join_with (CHR 0x0A)
     [''usage:'',
      ''  netmon gen <mixed|portscan|dnstunnel|flood> <out.pcap> [--packets N] [--seed S]'',
      ''  netmon replay <file.pcap> [--top N] [--rules rules.yaml | --no-rules]'',
      ''  netmon help'']"

definition quoted :: "string \<Rightarrow> string" where
  "quoted s = CHR 0x27 # s @ [CHR 0x27]"

text \<open>\<open>args.next()\<close>: the next argument and the arguments after it.\<close>

definition next_arg :: "string list \<Rightarrow> string option" where
  "next_arg args = (case args of [] \<Rightarrow> None | a # _ \<Rightarrow> Some a)"

definition number :: "(string \<Rightarrow> 'n option) \<Rightarrow> string \<Rightarrow> string option \<Rightarrow> (arg_error, 'n) result" where
  "number read flag value =
     and_then (ok_or value (flag @ '': missing value'')) (\<lambda>value.
       ok_or (read value) (flag @ '': '' @ quoted value @ '' is not a valid number''))"

function gen_options :: "string list \<Rightarrow> usize \<Rightarrow> u64 \<Rightarrow> (arg_error, usize \<times> u64) result" where
  "gen_options [] packets seed = Ok (packets, seed)"
| "gen_options (flag # args) packets seed =
     (if flag = ''--packets'' then
        and_then (number parse_usize flag (next_arg args)) (\<lambda>packets. gen_options (tl args) packets seed)
      else if flag = ''--seed'' then
        and_then (number parse_u64 flag (next_arg args)) (\<lambda>seed. gen_options (tl args) packets seed)
      else Err (''gen: unknown option '' @ quoted flag))"
  by pat_completeness auto
termination
  by (relation "measure (\<lambda>(args, _, _). length args)") auto

definition parse_gen :: "string list \<Rightarrow> (arg_error, command) result" where
  "parse_gen args =
     and_then (ok_or (next_arg args) ''gen: missing scenario'') (\<lambda>name.
     and_then (ok_or (scenario_from_name name) (''gen: unknown scenario '' @ quoted name)) (\<lambda>scenario.
     and_then (ok_or (next_arg (tl args)) ''gen: missing output path'') (\<lambda>out.
     and_then (gen_options (tl (tl args)) DEFAULT_GEN_PACKETS DEFAULT_SEED) (\<lambda>(packets, seed).
       Ok (CmdGen scenario out packets seed)))))"

function replay_options :: "string list \<Rightarrow> usize \<Rightarrow> rules_choice \<Rightarrow> (arg_error, usize \<times> rules_choice) result" where
  "replay_options [] top_n rules = Ok (top_n, rules)"
| "replay_options (flag # args) top_n rules =
     (if flag = ''--top'' then
        and_then (number parse_usize flag (next_arg args)) (\<lambda>top_n. replay_options (tl args) top_n rules)
      else if flag = ''--no-rules'' then replay_options args top_n RulesOff
      else if flag = ''--rules'' then
        and_then (ok_or (next_arg args) ''--rules: missing path'') (\<lambda>path.
          replay_options (tl args) top_n (RulesFile path))
      else Err (''replay: unknown option '' @ quoted flag))"
  by pat_completeness auto
termination
  by (relation "measure (\<lambda>(args, _, _). length args)") auto

definition parse_replay :: "string list \<Rightarrow> (arg_error, command) result" where
  "parse_replay args =
     and_then (ok_or (next_arg args) ''replay: missing pcap path'') (\<lambda>path.
     and_then (replay_options (tl args) DEFAULT_TOP RulesBuiltin) (\<lambda>(top_n, rules).
       Ok (CmdReplay path top_n rules)))"

definition args_parse :: "string list \<Rightarrow> (arg_error, command) result" where
  "args_parse args =
     (case args of
        [] \<Rightarrow> Ok CmdHelp
      | cmd # args \<Rightarrow>
          if cmd = ''help'' \<or> cmd = ''-h'' \<or> cmd = ''--help'' then Ok CmdHelp
          else if cmd = ''gen'' then parse_gen args
          else if cmd = ''replay'' then parse_replay args
          else Err (''unknown command '' @ quoted cmd))"

section \<open>The environment and the errors of a command\<close>

datatype cli_error = CliIo io_error | CliPcap pcap_error | CliRules rule_error

definition show_cli_error :: "(io_error \<Rightarrow> string) \<Rightarrow> cli_error \<Rightarrow> string" where
  "show_cli_error show_io e =
     (case e of CliIo e \<Rightarrow> show_io e | CliPcap e \<Rightarrow> show_pcap_error show_io e | CliRules e \<Rightarrow> show_rule_error e)"

record cli_env =
  env_open :: "string \<Rightarrow> (io_error, reader) result"
  env_create :: "string \<Rightarrow> (io_error, sink) result"
  env_flush :: "sink \<Rightarrow> sink \<times> (io_error, unit) result"
  env_read_to_string :: "string \<Rightarrow> (string, string) result"
  env_elapsed :: f64
  env_show_io :: "io_error \<Rightarrow> string"
  env_yaml :: "string \<Rightarrow> (string, rule_file) result"
  env_default_yaml :: string
  env_log2 :: "f64 \<Rightarrow> f64"

section \<open>\<open>gen\<close>\<close>

definition SNAPLEN :: u32 where "SNAPLEN = 65535"

text \<open>The file as it is left (if it was created), the lines printed, and how the command ended.\<close>

definition cli_generate ::
  "cli_env \<Rightarrow> scenario \<Rightarrow> string \<Rightarrow> usize \<Rightarrow> u64 \<Rightarrow> sink option \<times> string list \<times> (cli_error, unit) result" where
  "cli_generate env scenario out packets seed =
     (case env_create env out of
        Err e \<Rightarrow> (None, [], Err (CliIo e))
      | Panic \<Rightarrow> (None, [], Panic)
      | Ok file \<Rightarrow>
          (case pcap_writer_new file LinkEthernet SNAPLEN of
             (w, Err e) \<Rightarrow> (Some w, [], Err (CliIo e))
           | (w, Panic) \<Rightarrow> (Some w, [], Panic)
           | (w, Ok _) \<Rightarrow>
               (case generate pcap_write_record scenario packets seed w of
                  (w, Err e) \<Rightarrow> (Some w, [], Err (CliIo e))
                | (w, Panic) \<Rightarrow> (Some w, [], Panic)
                | (w, Ok _) \<Rightarrow>
                    (case env_flush env w of
                       (w, Err e) \<Rightarrow> (Some w, [], Err (CliIo e))
                     | (w, Panic) \<Rightarrow> (Some w, [], Panic)
                     | (w, Ok _) \<Rightarrow>
                         (Some w, [''wrote '' @ show_nat packets @ '' packets to '' @ out], Ok ())))))"

section \<open>\<open>replay\<close>\<close>

definition load_rules ::
  "cli_env \<Rightarrow> ('r, ip_addr, source_state) lru_api \<Rightarrow> rules_choice \<Rightarrow> (rule_error, 'r rule_engine option) result" where
  "load_rules env LR choice =
     (case choice of
        RulesBuiltin \<Rightarrow>
          (case rules_builtin LR (env_yaml env) (env_default_yaml env) of Ok r \<Rightarrow> Ok (Some r) | _ \<Rightarrow> Panic)
      | RulesFile path \<Rightarrow>
          and_then (rule_engine_load LR (env_read_to_string env) (env_yaml env) path) (\<lambda>r. Ok (Some r))
      | RulesOff \<Rightarrow> Ok None)"

definition frame_of_record :: "record_header \<times> bytes \<Rightarrow> frame" where
  "frame_of_record = (\<lambda>(rec, buf). \<lparr>fr_ts_us = rh_ts_us rec, fr_wire_len = rh_wire_len rec, fr_data = buf\<rparr>)"

text \<open>The \<open>while let\<close>: a parse error of a frame is counted by the engine and does not stop the replay.\<close>

function replay_loop ::
  "(f64 \<Rightarrow> f64) \<Rightarrow> ('f, flow_key, flow_stats) lru_api \<Rightarrow> ('r, ip_addr, source_state) lru_api \<Rightarrow>
   pcap_reader \<Rightarrow> ('f, 'r) engine \<Rightarrow> alert list \<Rightarrow> (pcap_error, ('f, 'r) engine \<times> alert list) result" where
  "replay_loop log2 LF LR reader e alerts =
     (case pcap_next_record reader of
        (reader', Err err) \<Rightarrow> Err err
      | (reader', Panic) \<Rightarrow> Panic
      | (reader', Ok None) \<Rightarrow> Ok (e, alerts)
      | (reader', Ok (Some rec)) \<Rightarrow>
          (case engine_process log2 LF LR e (frame_of_record rec) of
             (e, Panic) \<Rightarrow> Panic
           | (e, _) \<Rightarrow>
               (case drain_alerts e of (e, drained) \<Rightarrow> replay_loop log2 LF LR reader' e (alerts @ drained))))"
  by pat_completeness auto
termination
  by (relation "measure (\<lambda>(log2, LF, LR, reader, e, alerts). reader_size (pr_inner reader))")
    (auto dest: next_record_less [OF sym])

declare replay_loop.simps [simp del]

text \<open>Opening the file and running the engine over it: everything of \<open>replay\<close> but the printing.\<close>

definition replay_run ::
  "cli_env \<Rightarrow> ('f, flow_key, flow_stats) lru_api \<Rightarrow> ('r, ip_addr, source_state) lru_api \<Rightarrow>
   string \<Rightarrow> usize \<Rightarrow> rules_choice \<Rightarrow> (cli_error, link_type \<times> ('f, 'r) engine \<times> alert list) result" where
  "replay_run env LF LR path top_n choice =
     and_then (map_err CliIo (env_open env path)) (\<lambda>r.
     and_then (map_err CliPcap (pcap_reader_new r)) (\<lambda>reader.
     let engine = engine_new LF (engine_config_default\<lparr>ec_link := pr_link reader, ec_top_n := top_n\<rparr>) in
     and_then (map_err CliRules (load_rules env LR choice)) (\<lambda>rules.
     let engine = engine_set_rules engine rules in
     and_then (map_err CliPcap (replay_loop (env_log2 env) LF LR reader engine [])) (\<lambda>(engine, alerts).
       Ok (pr_link reader, engine, alerts)))))"

section \<open>What is printed\<close>

definition MAX_PRINTED_ALERTS :: nat where "MAX_PRINTED_ALERTS = 10"
definition BYTES_PER_MB :: f64 where "BYTES_PER_MB = Fin 1048576"
definition CLI_MICROS_PER_SEC :: f64 where "CLI_MICROS_PER_SEC = Fin 1000000"
definition F64_EPSILON :: f64 where "F64_EPSILON = Fin (1 / 2 ^ 52)"

text \<open>Padding counts characters, which are the bytes that do not continue a UTF-8 sequence.\<close>

definition char_count :: "string \<Rightarrow> nat" where
  "char_count s = length (filter (\<lambda>c. of_char c < (128 :: nat) \<or> 192 \<le> (of_char c :: nat)) s)"

definition pad_right :: "nat \<Rightarrow> string \<Rightarrow> string" where
  "pad_right n s = s @ replicate (n - char_count s) CHR '' ''"

definition pad_to_right :: "nat \<Rightarrow> string \<Rightarrow> string" where
  "pad_to_right n s = replicate (n - char_count s) CHR '' '' @ s"

fun severity_lower :: "severity \<Rightarrow> string" where
  "severity_lower Low = ''low''"
| "severity_lower Medium = ''medium''"
| "severity_lower High = ''high''"
| "severity_lower Critical = ''critical''"

fun show_link_debug :: "link_type \<Rightarrow> string" where
  "show_link_debug LinkNull = ''Null''"
| "show_link_debug LinkEthernet = ''Ethernet''"
| "show_link_debug LinkRaw = ''Raw''"

definition show_word :: "'a::len word \<Rightarrow> string" where
  "show_word w = show_nat (unat w)"

definition print_alerts :: "nat \<Rightarrow> alert list \<Rightarrow> string list" where
  "print_alerts rule_count alerts =
     [''rules       : '' @ show_nat rule_count @ '' active, '' @ show_nat (length alerts) @ '' alert(s)''] @
     map (\<lambda>a. ''  ['' @ pad_right 8 (severity_lower (al_severity a)) @ ''] '' @ pad_right 12 (al_rule_id a) @ '' '' @
            al_message a @ ''  (score '' @ show_fixed 2 (al_score a) @ '')'')
       (take MAX_PRINTED_ALERTS alerts) @
     (if length alerts > MAX_PRINTED_ALERTS
      then [''  ... '' @ show_nat (length alerts - MAX_PRINTED_ALERTS) @ '' more''] else [])"

definition print_flow :: "flow_key \<times> flow_stats \<Rightarrow> string" where
  "print_flow = (\<lambda>(key, stats).
     let side = (\<lambda>e. show_ip (ep_addr e) @ '':'' @ show_word (ep_port e));
         endpoints = side (fk_a key) @ '' <-> '' @ side (fk_b key)
     in ''  '' @ pad_right 5 (show_word (fk_proto key)) @ '' '' @ pad_right 46 endpoints @ '' '' @
        pad_to_right 9 (show_word (total_packets stats)) @ '' '' @
        pad_to_right 12 (show_word (total_bytes stats)) @ '' '' @
        pad_to_right 9 (show_fixed 2 (f64_div (f64_of_nat (unat (duration_us stats))) CLI_MICROS_PER_SEC)))"

definition print_report :: "string \<Rightarrow> link_type \<Rightarrow> snapshot \<Rightarrow> f64 \<Rightarrow> string list" where
  "print_report path link s elapsed =
     (let c = sn_counters s;
          pps = f64_div (f64_of_nat (unat (ct_packets c))) (f64_max elapsed F64_EPSILON);
          mbps = f64_div (f64_div (f64_of_nat (unat (ct_bytes c))) BYTES_PER_MB) (f64_max elapsed F64_EPSILON)
      in [''file        : '' @ path @ '' ('' @ show_link_debug link @ '')'',
          ''packets     : '' @ show_word (ct_packets c) @ ''  bytes: '' @ show_word (ct_bytes c) @
            ''  parse errors: '' @ show_word (ct_parse_errors c),
          ''elapsed     : '' @ show_fixed 3 elapsed @ '' s  ('' @ show_fixed 0 pps @ '' pkt/s, '' @
            show_fixed 1 mbps @ '' MB/s)'',
          ''layers      : ipv4 '' @ show_word (ct_ipv4 c) @ ''  ipv6 '' @ show_word (ct_ipv6 c) @
            ''  non-ip '' @ show_word (ct_non_ip c) @ ''  fragments '' @ show_word (ct_fragments c),
          ''transport   : tcp '' @ show_word (ct_tcp c) @ ''  udp '' @ show_word (ct_udp c) @
            ''  icmp '' @ show_word (ct_icmp c) @ ''  other '' @ show_word (ct_other_l4 c),
          ''dns         : ok '' @ show_word (ct_dns c) @ ''  malformed '' @ show_word (ct_dns_errors c),
          ''flows       : active '' @ show_nat (sn_active_flows s) @ ''  evicted '' @ show_word (sn_evicted_flows s) @
            ''  expired '' @ show_word (sn_expired_flows s)] @
         (if sn_top_flows s = [] then []
          else [''top flows by bytes:'',
                ''  '' @ pad_right 5 ''proto'' @ '' '' @ pad_right 46 ''endpoints'' @ '' '' @ pad_to_right 9 ''packets'' @
                '' '' @ pad_to_right 12 ''bytes'' @ '' '' @ pad_to_right 9 ''secs''] @
               map print_flow (sn_top_flows s)))"

definition cli_replay ::
  "cli_env \<Rightarrow> ('f, flow_key, flow_stats) lru_api \<Rightarrow> ('r, ip_addr, source_state) lru_api \<Rightarrow>
   string \<Rightarrow> usize \<Rightarrow> rules_choice \<Rightarrow> (cli_error, string list) result" where
  "cli_replay env LF LR path top_n choice =
     and_then (replay_run env LF LR path top_n choice) (\<lambda>(link, engine, alerts).
       Ok (print_report path link (engine_snapshot LF engine) (env_elapsed env) @
           print_alerts (case en_rules engine of None \<Rightarrow> 0 | Some rules \<Rightarrow> length rules) alerts))"

section \<open>\<open>main\<close>\<close>

text \<open>What a run leaves: the file it created, its output, its errors, and its exit status (101 for a panic).\<close>

record cli_outcome =
  out_file :: "sink option"
  out_stdout :: "string list"
  out_stderr :: "string list"
  out_status :: nat

definition finish ::
  "cli_env \<Rightarrow> sink option \<times> string list \<times> (cli_error, unit) result \<Rightarrow> cli_outcome" where
  "finish env = (\<lambda>(created, lines, result).
     case result of
       Ok _ \<Rightarrow> \<lparr>out_file = created, out_stdout = lines, out_stderr = [], out_status = 0\<rparr>
     | Err e \<Rightarrow> \<lparr>out_file = created, out_stdout = lines,
                 out_stderr = [''error: '' @ show_cli_error (env_show_io env) e], out_status = 1\<rparr>
     | Panic \<Rightarrow> \<lparr>out_file = created, out_stdout = lines, out_stderr = [], out_status = 101\<rparr>)"

definition cli_main ::
  "cli_env \<Rightarrow> ('f, flow_key, flow_stats) lru_api \<Rightarrow> ('r, ip_addr, source_state) lru_api \<Rightarrow>
   string list \<Rightarrow> cli_outcome" where
  "cli_main env LF LR args =
     (case args_parse args of
        Err e \<Rightarrow> \<lparr>out_file = None, out_stdout = [], out_stderr = [''error: '' @ e, USAGE], out_status = 2\<rparr>
      | Panic \<Rightarrow> \<lparr>out_file = None, out_stdout = [], out_stderr = [], out_status = 101\<rparr>
      | Ok CmdHelp \<Rightarrow> finish env (None, [USAGE], Ok ())
      | Ok (CmdGen scenario out packets seed) \<Rightarrow> finish env (cli_generate env scenario out packets seed)
      | Ok (CmdReplay path top_n rules) \<Rightarrow>
          finish env (case cli_replay env LF LR path top_n rules of
              Ok lines \<Rightarrow> (None, lines, Ok ())
            | Err e \<Rightarrow> (None, [], Err e)
            | Panic \<Rightarrow> (None, [], Panic)))"

section \<open>Numbers and arguments\<close>

lemma digits_value_bound: "digits_value bound acc s = Some n \<Longrightarrow> acc < bound \<Longrightarrow> n < bound"
  by (induction bound acc s rule: digits_value.induct) (auto simp: Let_def split: if_splits)

lemma digits_value_snoc:
  "digits_value bound acc (s @ [c]) =
     (case digits_value bound acc s of None \<Rightarrow> None | Some v \<Rightarrow> digits_value bound v [c])"
  by (induction bound acc s rule: digits_value.induct) (auto simp: Let_def)

lemma digit_char_value: "d < 10 \<Longrightarrow> (of_char (digit_char d) :: nat) = 48 + d"
  by (simp add: digit_char_def)

lemma show_base_digits: "digits_value bound 0 (show_base 10 n) = (if n < bound then Some n else None)" if "0 < bound"
proof (induction n rule: less_induct)
  case (less n)
  show ?case
  proof (cases "n < 10")
    case True
    then show ?thesis by (subst show_base.simps) (simp add: digit_char_value Let_def)
  next
    case False
    then have "show_base 10 n = show_base 10 (n div 10) @ [digit_char (n mod 10)]"
      by (subst show_base.simps) simp
    moreover have "n div 10 < n" using False by simp
    moreover have "n div 10 * 10 + n mod 10 = n" by simp
    ultimately show ?thesis
      using less [of "n div 10"] False by (auto simp: digits_value_snoc digit_char_value Let_def)
  qed
qed

lemma show_base_head: "\<exists>d cs. show_base 10 n = digit_char d # cs \<and> d < 10"
proof (induction n rule: less_induct)
  case (less n)
  show ?case
  proof (cases "n < 10")
    case True
    then show ?thesis by (subst show_base.simps) auto
  next
    case False
    then have "show_base 10 n = show_base 10 (n div 10) @ [digit_char (n mod 10)]"
      by (subst show_base.simps) simp
    then show ?thesis using less [of "n div 10"] False by auto
  qed
qed

lemma from_str_show: "0 < bound \<Longrightarrow> from_str bound (show_nat n) = (if n < bound then Some n else None)"
proof -
  assume b: "0 < bound"
  obtain d cs where s: "show_nat n = digit_char d # cs" "d < 10" using show_base_head [of n] unfolding show_nat_def by blast
  have "digit_char d \<noteq> CHR ''+''" "digit_char d \<noteq> CHR ''-''"
    using digit_char_value [OF s(2)] by auto
  with s show_base_digits [OF b, of n] show ?thesis by (simp add: from_str_def show_nat_def)
qed


text \<open>The options as they may be given: each flag with its value, any number of times, in any order.\<close>

datatype gen_option = GoPackets string | GoSeed string

fun gen_option_args :: "gen_option \<Rightarrow> string list" where
  "gen_option_args (GoPackets v) = [''--packets'', v]"
| "gen_option_args (GoSeed v) = [''--seed'', v]"

fun gen_option_apply :: "(usize \<times> u64) option \<Rightarrow> gen_option \<Rightarrow> (usize \<times> u64) option" where
  "gen_option_apply None opt = None"
| "gen_option_apply (Some (packets, seed)) (GoPackets v) = map_option (\<lambda>n. (n, seed)) (parse_usize v)"
| "gen_option_apply (Some (packets, seed)) (GoSeed v) = map_option (\<lambda>s. (packets, s)) (parse_u64 v)"

lemma gen_apply_None [simp]: "foldl gen_option_apply None opts = None"
  by (induction opts) auto

lemma number_iffs:
  "number read flag v = Ok n \<longleftrightarrow> (\<exists>s. v = Some s \<and> read s = Some n)" "number read flag v \<noteq> Panic"
  by (auto simp: number_def and_then_iffs)

lemma gen_options_apply:
  "gen_options (concat (map gen_option_args opts)) p s = Ok r \<longleftrightarrow> foldl gen_option_apply (Some (p, s)) opts = Some r"
proof (induction opts arbitrary: p s)
  case (Cons opt opts)
  show ?case
  proof (cases opt)
    case (GoPackets v)
    then show ?thesis using Cons by (cases "parse_usize v") (auto simp: number_def next_arg_def)
  next
    case (GoSeed v)
    then show ?thesis using Cons by (cases "parse_u64 v") (auto simp: number_def next_arg_def)
  qed
qed auto

lemma gen_options_shape: "gen_options args p s = Ok r \<Longrightarrow> \<exists>opts. args = concat (map gen_option_args opts)"
proof (induction args p s rule: gen_options.induct)
  case (2 flag args p s)
  from "2.prems" consider n where "flag = ''--packets''" "number parse_usize flag (next_arg args) = Ok n"
      "gen_options (tl args) n s = Ok r"
    | n where "flag = ''--seed''" "number parse_u64 flag (next_arg args) = Ok n" "gen_options (tl args) p n = Ok r"
    by (auto simp: and_then_iffs split: if_splits)
  then show ?case
  proof cases
    case (1 n)
    then obtain v where v: "args = v # tl args" by (cases args) (auto simp: number_iffs next_arg_def)
    from "2.IH"(1) [OF 1] obtain opts where "tl args = concat (map gen_option_args opts)" by blast
    with v 1 have "flag # args = concat (map gen_option_args (GoPackets v # opts))" by simp
    then show ?thesis by blast
  next
    case (2 n)
    then obtain v where v: "args = v # tl args" by (cases args) (auto simp: number_iffs next_arg_def)
    have "flag \<noteq> ''--packets''" using 2(1) by simp
    from "2.IH"(2) [OF this 2] obtain opts where "tl args = concat (map gen_option_args opts)" by blast
    with v 2 have "flag # args = concat (map gen_option_args (GoSeed v # opts))" by simp
    then show ?thesis by blast
  qed
qed (auto intro: exI [of _ "[]"])

datatype replay_option = RoTop string | RoRules string | RoNoRules

fun replay_option_args :: "replay_option \<Rightarrow> string list" where
  "replay_option_args (RoTop v) = [''--top'', v]"
| "replay_option_args (RoRules path) = [''--rules'', path]"
| "replay_option_args RoNoRules = [''--no-rules'']"

fun replay_option_apply :: "(usize \<times> rules_choice) option \<Rightarrow> replay_option \<Rightarrow> (usize \<times> rules_choice) option" where
  "replay_option_apply None opt = None"
| "replay_option_apply (Some (n, r)) (RoTop v) = map_option (\<lambda>n. (n, r)) (parse_usize v)"
| "replay_option_apply (Some (n, r)) (RoRules path) = Some (n, RulesFile path)"
| "replay_option_apply (Some (n, r)) RoNoRules = Some (n, RulesOff)"

lemma replay_apply_None [simp]: "foldl replay_option_apply None opts = None"
  by (induction opts) auto

lemma replay_options_apply:
  "replay_options (concat (map replay_option_args opts)) n r = Ok x \<longleftrightarrow>
   foldl replay_option_apply (Some (n, r)) opts = Some x"
proof (induction opts arbitrary: n r)
  case (Cons opt opts)
  show ?case
  proof (cases opt)
    case (RoTop v)
    then show ?thesis using Cons by (cases "parse_usize v") (auto simp: number_def next_arg_def)
  qed (use Cons in \<open>auto simp: next_arg_def\<close>)
qed auto

lemma replay_options_shape: "replay_options args n r = Ok x \<Longrightarrow> \<exists>opts. args = concat (map replay_option_args opts)"
proof (induction args n r rule: replay_options.induct)
  case (2 flag args n r)
  from "2.prems" consider m where "flag = ''--top''" "number parse_usize flag (next_arg args) = Ok m"
      "replay_options (tl args) m r = Ok x"
    | "flag = ''--no-rules''" "replay_options args n RulesOff = Ok x"
    | path where "flag = ''--rules''" "ok_or (next_arg args) ''--rules: missing path'' = Ok path"
      "replay_options (tl args) n (RulesFile path) = Ok x"
    by (auto simp: and_then_iffs split: if_splits)
  then show ?case
  proof cases
    case (1 m)
    then obtain v where v: "args = v # tl args" by (cases args) (auto simp: number_iffs next_arg_def)
    from "2.IH"(1) [OF 1] obtain opts where "tl args = concat (map replay_option_args opts)" by blast
    with v 1 have "flag # args = concat (map replay_option_args (RoTop v # opts))" by simp
    then show ?thesis by blast
  next
    case 2
    then have "flag \<noteq> ''--top''" by simp
    from "2.IH"(2) [OF this 2] obtain opts where "args = concat (map replay_option_args opts)" by blast
    with 2 have "flag # args = concat (map replay_option_args (RoNoRules # opts))" by simp
    then show ?thesis by blast
  next
    case (3 path)
    then obtain v where v: "args = v # tl args" by (cases args) (auto simp: next_arg_def)
    have "flag \<noteq> ''--top''" "flag \<noteq> ''--no-rules''" using 3(1) by simp_all
    from "2.IH"(3) [OF this 3] obtain opts where "tl args = concat (map replay_option_args opts)" by blast
    with v 3 have "flag # args = concat (map replay_option_args (RoRules v # opts))" by simp
    then show ?thesis by blast
  qed
qed (auto intro: exI [of _ "[]"])

fun scenario_name :: "scenario \<Rightarrow> string" where
  "scenario_name ScMixed = ''mixed''"
| "scenario_name ScPortScan = ''portscan''"
| "scenario_name ScDnsTunnel = ''dnstunnel''"
| "scenario_name ScFlood = ''flood''"

lemma scenario_from_name_iff: "scenario_from_name name = Some sc \<longleftrightarrow> name = scenario_name sc"
  by (cases sc) (auto simp: scenario_from_name_def)

lemma parse_gen_iff:
  "parse_gen args = Ok cmd \<longleftrightarrow>
   (\<exists>sc out opts packets seed. args = scenario_name sc # out # concat (map gen_option_args opts) \<and>
      foldl gen_option_apply (Some (100000, 7)) opts = Some (packets, seed) \<and> cmd = CmdGen sc out packets seed)"
  (is "_ \<longleftrightarrow> ?r")
proof
  assume "parse_gen args = Ok cmd"
  then obtain sc out packets seed where *: "next_arg args = Some (scenario_name sc)" "next_arg (tl args) = Some out"
    "gen_options (tl (tl args)) 100000 7 = Ok (packets, seed)" "cmd = CmdGen sc out packets seed"
    by (auto simp: parse_gen_def and_then_iffs scenario_from_name_iff DEFAULT_GEN_PACKETS_def DEFAULT_SEED_def)
  moreover from *(1,2) have "args = scenario_name sc # out # tl (tl args)"
    by (auto simp: next_arg_def split: list.splits)
  moreover obtain opts where "tl (tl args) = concat (map gen_option_args opts)"
    using gen_options_shape [OF *(3)] by blast
  ultimately show ?r by (metis gen_options_apply)
next
  assume ?r
  then show "parse_gen args = Ok cmd"
    by (auto simp: parse_gen_def and_then_iffs scenario_from_name_iff DEFAULT_GEN_PACKETS_def DEFAULT_SEED_def
        next_arg_def gen_options_apply)
qed

lemma parse_replay_iff:
  "parse_replay args = Ok cmd \<longleftrightarrow>
   (\<exists>path opts n r. args = path # concat (map replay_option_args opts) \<and>
      foldl replay_option_apply (Some (10, RulesBuiltin)) opts = Some (n, r) \<and> cmd = CmdReplay path n r)"
  (is "_ \<longleftrightarrow> ?r")
proof
  assume "parse_replay args = Ok cmd"
  then obtain path n r where *: "next_arg args = Some path" "replay_options (tl args) 10 RulesBuiltin = Ok (n, r)"
    "cmd = CmdReplay path n r"
    by (auto simp: parse_replay_def and_then_iffs DEFAULT_TOP_def)
  moreover from *(1) have "args = path # tl args" by (auto simp: next_arg_def split: list.splits)
  moreover obtain opts where "tl args = concat (map replay_option_args opts)"
    using replay_options_shape [OF *(2)] by blast
  ultimately show ?r by (metis replay_options_apply)
next
  assume ?r
  then show "parse_replay args = Ok cmd"
    by (auto simp: parse_replay_def and_then_iffs DEFAULT_TOP_def next_arg_def replay_options_apply)
qed

lemma gen_options_not_panic: "gen_options args p s \<noteq> Panic"
  by (induction args p s rule: gen_options.induct) (auto simp: and_then_iffs number_iffs)

lemma replay_options_not_panic: "replay_options args n r \<noteq> Panic"
  by (induction args n r rule: replay_options.induct) (auto simp: and_then_iffs number_iffs)

lemma args_parse_not_panic [panic_free]: "args_parse args \<noteq> Panic"
  by (auto simp: args_parse_def parse_gen_def parse_replay_def and_then_iffs gen_options_not_panic
      replay_options_not_panic split: list.splits)

section \<open>A replay is a run of the engine\<close>

definition replay_step ::
  "(f64 \<Rightarrow> f64) \<Rightarrow> ('f, flow_key, flow_stats) lru_api \<Rightarrow> ('r, ip_addr, source_state) lru_api \<Rightarrow>
   ('f, 'r) engine \<times> alert list \<Rightarrow> record_header \<times> bytes \<Rightarrow> ('f, 'r) engine \<times> alert list" where
  "replay_step log2 LF LR = (\<lambda>(e, as) rec.
     let e' = fst (engine_process log2 LF LR e (frame_of_record rec)) in (with_alerts e' [], as @ en_alerts e'))"

lemma engine_process_not_panic: "engine_process log2 LF LR e f \<noteq> (e', Panic)"
  using engine_process_result [of log2 LF LR e f] parse_not_panic by (metis snd_conv)

lemma replay_loop_records:
  "replay_loop log2 LF LR p e as =
     (case pcap_records p of
        (recs, None) \<Rightarrow> Ok (foldl (replay_step log2 LF LR) (e, as) recs)
      | (recs, Some err) \<Rightarrow> Err err)"
proof (induction log2 LF LR p e as rule: replay_loop.induct)
  case (1 log2 LF LR p e as)
  obtain p' out where n: "pcap_next_record p = (p', out)" by force
  have np: "out \<noteq> Panic" using next_record_not_panic [of p] n by auto
  show ?case
  proof (cases out)
    case (Ok o')
    show ?thesis
    proof (cases o')
      case None
      with n Ok show ?thesis by (simp add: replay_loop.simps [of _ _ _ p] pcap_records.simps [of p])
    next
      case (Some rec)
      obtain e' r where ep: "engine_process log2 LF LR e (frame_of_record rec) = (e', r)" by force
      have r: "r \<noteq> Panic" using engine_process_not_panic ep by blast
      have d: "drain_alerts e' = (with_alerts e' [], en_alerts e')" by (simp add: drain_alerts_def with_alerts_def)
      have step: "replay_step log2 LF LR (e, as) rec = (with_alerts e' [], as @ en_alerts e')"
        by (simp add: replay_step_def ep)
      have l: "replay_loop log2 LF LR p e as = replay_loop log2 LF LR p' (with_alerts e' []) (as @ en_alerts e')"
        using n Ok Some ep r d by (subst replay_loop.simps) (auto split: result.splits)
      have rs: "pcap_records p = apfst ((#) rec) (pcap_records p')"
        using n Ok Some by (simp add: pcap_records.simps [of p])
      have "replay_loop log2 LF LR p' (with_alerts e' []) (as @ en_alerts e') =
          (case pcap_records p' of
             (recs, None) \<Rightarrow> Ok (foldl (replay_step log2 LF LR) (with_alerts e' [], as @ en_alerts e') recs)
           | (recs, Some err) \<Rightarrow> Err err)"
        using "1.IH" n Ok Some ep r d by (cases r) auto
      then show ?thesis unfolding l rs
        by (cases "pcap_records p'"; cases "snd (pcap_records p')") (auto simp: step)
    qed
  qed (use n np in \<open>simp_all add: replay_loop.simps [of _ _ _ p] pcap_records.simps [of p]\<close>)
qed

lemma replay_steps_run:
  "en_alerts e = [] \<Longrightarrow>
   foldl (replay_step log2 LF LR) (e, as) recs =
     (let e' = engine_run log2 LF LR e (map frame_of_record recs) in (with_alerts e' [], as @ en_alerts e'))"
proof (induction recs arbitrary: e as)
  case Nil
  then show ?case by (simp add: engine_run_def Let_def) (metis with_alerts_simps(3))
next
  case (Cons rec recs)
  let ?e' = "fst (engine_process log2 LF LR e (frame_of_record rec))"
  let ?fs = "map frame_of_record recs"
  have "foldl (replay_step log2 LF LR) (e, as) (rec # recs) =
      foldl (replay_step log2 LF LR) (with_alerts ?e' [], as @ en_alerts ?e') recs"
    by (simp add: replay_step_def Let_def)
  also have "\<dots> = (let r = engine_run log2 LF LR (with_alerts ?e' []) ?fs in
      (with_alerts r [], (as @ en_alerts ?e') @ en_alerts r))" by (rule Cons.IH) simp
  finally have l: "foldl (replay_step log2 LF LR) (e, as) (rec # recs) =
    (let r = engine_run log2 LF LR (with_alerts ?e' []) ?fs in
      (with_alerts r [], (as @ en_alerts ?e') @ en_alerts r))" .
  have "engine_run log2 LF LR e (map frame_of_record (rec # recs)) =
      engine_run log2 LF LR (with_alerts ?e' (en_alerts ?e')) ?fs" by (simp add: engine_run_def)
  also have "\<dots> = (let r = engine_run log2 LF LR (with_alerts ?e' []) ?fs in with_alerts r (en_alerts ?e' @ en_alerts r))"
    by (rule engine_run_alerts)
  finally show ?case unfolding l by (simp add: Let_def)
qed

definition replay_engine ::
  "('f, flow_key, flow_stats) lru_api \<Rightarrow> link_type \<Rightarrow> usize \<Rightarrow> 'r rule_engine option \<Rightarrow> ('f, 'r) engine" where
  "replay_engine LF link top_n rules =
     engine_set_rules (engine_new LF (engine_config_default\<lparr>ec_link := link, ec_top_n := top_n\<rparr>)) rules"

lemma replay_run_records:
  assumes "env_open env path = Ok r" and "pcap_reader_new r = Ok p" and "load_rules env LR choice = Ok rules"
  shows "replay_run env LF LR path top_n choice =
    (case pcap_records p of
       (recs, None) \<Rightarrow>
         let e = engine_run (env_log2 env) LF LR (replay_engine LF (pr_link p) top_n rules) (map frame_of_record recs)
         in Ok (pr_link p, with_alerts e [], en_alerts e)
     | (recs, Some err) \<Rightarrow> Err (CliPcap err))"
proof -
  have "en_alerts (replay_engine LF (pr_link p) top_n rules) = []"
    by (simp add: replay_engine_def engine_set_rules_def engine_new_def)
  from replay_steps_run [OF this] show ?thesis
    using assms
    by (cases "pcap_records p"; cases "snd (pcap_records p)")
      (simp_all add: replay_run_def replay_loop_records Let_def flip: replay_engine_def)
qed

text \<open>The counters of a replay are those of the frames.\<close>

lemma replay_counters:
  "en_counters (engine_run log2 LF LR (replay_engine LF link top_n rules) fs) = counters_of link fs"
proof -
  let ?c = "engine_config_default\<lparr>ec_link := link, ec_top_n := top_n\<rparr>"
  have "en_counters (engine_run log2 LF LR (replay_engine LF link top_n rules) fs) =
      en_counters (engine_run log2 LF LR (engine_new LF ?c) fs)"
    by (simp add: engine_run_counters replay_engine_def engine_set_rules_def)
  also have "\<dots> = counters_of (ec_link ?c) fs" by (rule engine_counters)
  finally show ?thesis by simp
qed

section \<open>What \<open>gen\<close> writes, \<open>replay\<close> reads\<close>

lemma feed_write_records: "feed pcap_write_record s recs = write_records s recs"
  by (induction s recs rule: write_records.induct) (auto split: prod.splits result.splits)

lemma synth_writable:
  assumes "n < 2 ^ 40"
  shows "list_all writable (synth_records sc n seed)"
proof -
  from assms have "n < 2 ^ 50" by simp
  note g = generate_records [OF this, of sc seed]
  then have t: "list_all (\<lambda>(ts, data). unat ts \<le> unat START_TS_US + 2000 * n) (synth_records sc n seed)"
    using paced_bound [of START_TS_US "synth_records sc n seed"] by (auto simp: list_all_iff)
  have "unat ts div 1000000 < 2 ^ 32 \<and> length data \<le> 262144" if "(ts, data) \<in> set (synth_records sc n seed)" for ts data
  proof -
    have "unat ts \<le> 1700000000000000 + 2000 * n" using t that by (auto simp: list_all_iff START_TS_US_def)
    then have "unat ts < 2 ^ 32 * 1000000" using assms by simp
    moreover have "length data < 65536" using g that by (auto simp: list_all_iff readable_def)
    ultimately show ?thesis by (simp add: less_mult_imp_div_less)
  qed
  then show ?thesis by (auto simp: list_all_iff writable_def)
qed

lemma cli_generate_writes:
  assumes "n < 2 ^ 40" and "env_create env out = Ok \<lparr>sk_written = [], sk_room = None\<rparr>"
    and "\<And>s. env_flush env s = (s, Ok ())"
  obtains s1 s2 where "pcap_writer_new \<lparr>sk_written = [], sk_room = None\<rparr> LinkEthernet SNAPLEN = (s1, Ok ())"
    "write_records s1 (synth_records sc n seed) = (s2, Ok ())"
    "cli_generate env sc out n seed = (Some s2, [''wrote '' @ show_nat n @ '' packets to '' @ out], Ok ())"
proof -
  obtain s1 where s1: "pcap_writer_new \<lparr>sk_written = [], sk_room = None\<rparr> LinkEthernet SNAPLEN = (s1, Ok ())"
    "sk_room s1 = None"
    by (simp add: pcap_writer_new_def write_all_def)
  from write_records_unlimited [OF synth_writable [OF assms(1)] s1(2)]
  obtain s2 where s2: "write_records s1 (synth_records sc n seed) = (s2, Ok ())" by blast
  have "cli_generate env sc out n seed = (Some s2, [''wrote '' @ show_nat n @ '' packets to '' @ out], Ok ())"
    using s1 s2 assms(2,3) by (simp add: cli_generate_def generate_feed feed_write_records)
  with s1 s2 that show thesis by blast
qed

lemma readable_counters:
  assumes "list_all (\<lambda>f. readable (fr_data f)) fs"
  shows "ct_parse_errors (counters_of LinkEthernet fs) = 0 \<and> ct_dns_errors (counters_of LinkEthernet fs) = 0 \<and>
    ct_non_ip (counters_of LinkEthernet fs) = 0 \<and> ct_packets (counters_of LinkEthernet fs) = of_nat (length fs)"
proof -
  have ok: "\<exists>p. parse LinkEthernet f = Ok p \<and> readable_packet p" if "f \<in> set fs" for f
  proof -
    have "readable (fr_data f)" using assms that by (auto simp: list_all_iff)
    then have "case parse LinkEthernet \<lparr>fr_ts_us = fr_ts_us f, fr_wire_len = fr_wire_len f, fr_data = fr_data f\<rparr> of
        Ok p \<Rightarrow> readable_packet p | _ \<Rightarrow> False" unfolding readable_def by blast
    moreover have "\<lparr>fr_ts_us = fr_ts_us f, fr_wire_len = fr_wire_len f, fr_data = fr_data f\<rparr> = f" by simp
    ultimately show ?thesis by (simp split: result.splits)
  qed
  have "filter is_Err (map (parse LinkEthernet) fs) = []" using ok by (fastforce simp: filter_empty_conv)
  moreover have "readable_packet p" if "p \<in> set (ok_packets (map (parse LinkEthernet) fs))" for p
    using that ok by (fastforce simp: set_ok_packets)
  then have "filter (\<lambda>p. ip_version p = 0) (ok_packets (map (parse LinkEthernet) fs)) = []"
    "filter (\<lambda>p. \<exists>d. pk_app p = AppDnsError d) (ok_packets (map (parse LinkEthernet) fs)) = []"
    by (fastforce simp: filter_empty_conv readable_packet_def split: option.splits if_splits)+
  ultimately show ?thesis by (simp add: counters_of_def Let_def count_if_def)
qed

lemma gen_replay:
  assumes "n < 2 ^ 40" and "env_create env out = Ok \<lparr>sk_written = [], sk_room = None\<rparr>"
    and "\<And>s. env_flush env s = (s, Ok ())"
    and "cli_generate env sc out n seed = (Some s, lines, res)"
    and "env_open env out = Ok r" and "clean r" and "contents r = sk_written s"
    and "load_rules env LR choice = Ok rules"
  shows "res = Ok () \<and>
    (\<exists>e. replay_run env LF LR out top_n choice = Ok (LinkEthernet, with_alerts e [], en_alerts e) \<and>
       e = engine_run (env_log2 env) LF LR (replay_engine LF LinkEthernet top_n rules)
             (map (\<lambda>(ts, data). \<lparr>fr_ts_us = ts, fr_wire_len = of_nat (length data), fr_data = data\<rparr>)
               (synth_records sc n seed)))"
proof -
  obtain s1 s2 where w: "pcap_writer_new \<lparr>sk_written = [], sk_room = None\<rparr> LinkEthernet SNAPLEN = (s1, Ok ())"
    "write_records s1 (synth_records sc n seed) = (s2, Ok ())"
    "cli_generate env sc out n seed = (Some s2, [''wrote '' @ show_nat n @ '' packets to '' @ out], Ok ())"
    by (rule cli_generate_writes [OF assms(1,2,3)])
  with assms(4,7) have c: "contents r = sk_written s2" and res: "res = Ok ()" by auto
  from written_file_reads_back [OF synth_writable [OF assms(1)] assms(6) w(1,2) c] obtain p where
    p: "pcap_reader_new r = Ok p" "pr_link p = LinkEthernet"
    "pcap_records p = (map (\<lambda>(ts, data). (\<lparr>rh_ts_us = ts, rh_cap_len = of_nat (length data),
       rh_wire_len = of_nat (length data)\<rparr>, data)) (synth_records sc n seed), None)" by blast
  have f: "map frame_of_record (map (\<lambda>(ts, data). (\<lparr>rh_ts_us = ts, rh_cap_len = of_nat (length data),
       rh_wire_len = of_nat (length data)\<rparr>, data)) recs) =
     map (\<lambda>(ts, data). \<lparr>fr_ts_us = ts, fr_wire_len = of_nat (length data), fr_data = data\<rparr>) recs" for recs
    by (simp add: frame_of_record_def comp_def case_prod_unfold)
  show ?thesis
    using res replay_run_records [OF assms(5) p(1) assms(8), of LF top_n] p by (simp add: f Let_def del: map_map)
qed

section \<open>Properties\<close>


text \<open>A command line with its numbers printed in decimal is read as it was meant: \<open>gen\<close> with any
  scenario, path, number of packets below 2^64 and seed.\<close>

theorem gen_arguments_round_trip:
  assumes "packets < 2 ^ 64"
  shows "args_parse [''gen'', scenario_name sc, out, ''--packets'', show_nat packets, ''--seed'', show_nat (unat seed)] =
    Ok (CmdGen sc out packets seed)"
proof -
  have "parse_usize (show_nat packets) = Some packets" using assms by (simp add: parse_usize_def from_str_show)
  moreover have "unat seed < 2 ^ 64" using unat_less [of seed] by simp
  then have "parse_u64 (show_nat (unat seed)) = Some seed" by (simp add: parse_u64_def from_str_show)
  moreover have "scenario_from_name (scenario_name sc) = Some sc" by (simp add: scenario_from_name_iff)
  ultimately show ?thesis
    by (simp add: args_parse_def parse_gen_def next_arg_def number_def)
qed

lemma gen_arguments_round_trip_witness:
  "args_parse [''gen'', ''flood'', ''a.pcap'', ''--packets'', ''500'', ''--seed'', ''3''] = Ok (CmdGen ScFlood ''a.pcap'' 500 3)"
proof -
  have "show_nat 500 = ''500''" "show_nat (unat (3 :: u64)) = ''3''" by code_simp+
  with gen_arguments_round_trip [of 500 ScFlood "''a.pcap''" 3] show ?thesis by simp
qed

text \<open>C15. A replay is a run of the engine over the records of the file: with the file open, its header
  read and the rules loaded, the engine that the report is printed from is \<open>engine_run\<close> over the
  frames in order, the alerts are those that run raised, and the only error left is the one that
  ends the file; frames that do not parse stop nothing.\<close>

theorem replay_is_engine_run:
  assumes "env_open env path = Ok r" and "pcap_reader_new r = Ok p" and "load_rules env LR choice = Ok rules"
  shows "replay_run env LF LR path top_n choice =
    (case pcap_records p of
       (recs, None) \<Rightarrow>
         let e = engine_run (env_log2 env) LF LR (replay_engine LF (pr_link p) top_n rules) (map frame_of_record recs)
         in Ok (pr_link p, with_alerts e [], en_alerts e)
     | (recs, Some err) \<Rightarrow> Err (CliPcap err))"
  by (rule replay_run_records [OF assms])

definition sample_env :: "bytes \<Rightarrow> cli_env" where
  "sample_env data =
     \<lparr>env_open = (\<lambda>path. Ok [Chunk data]), env_create = (\<lambda>path. Ok \<lparr>sk_written = [], sk_room = None\<rparr>),
      env_flush = (\<lambda>s. (s, Ok ())), env_read_to_string = (\<lambda>path. Err ''no such file''), env_elapsed = Fin 1,
      env_show_io = (\<lambda>e. ''i/o error''), env_yaml = (\<lambda>t. Ok default_rule_file), env_default_yaml = [],
      env_log2 = (\<lambda>x. Fin 0)\<rparr>"

lemma replay_is_engine_run_witness:
  "\<exists>p. pcap_reader_new [Chunk (file_header False False (replicate 16 0) 1)] = Ok p \<and>
    replay_run (sample_env (file_header False False (replicate 16 0) 1)) list_lru_api list_lru_api ''a'' 3 RulesOff =
      Ok (LinkEthernet, replay_engine list_lru_api LinkEthernet 3 None, [])"
proof -
  let ?d = "file_header False False (replicate 16 0) 1"
  have d: "?d \<noteq> []" by (simp add: file_header_def)
  have l: "link_from_raw 1 = Some LinkEthernet" by (simp add: link_from_raw_def)
  have c: "clean [Chunk ?d]" "contents [Chunk ?d] = file_header False False (replicate 16 0) 1 @ []"
    using d by auto
  obtain r' where n: "pcap_reader_new [Chunk ?d] = Ok \<lparr>pr_inner = r', pr_link = LinkEthernet, pr_swapped = False, pr_nanos = False\<rparr>"
    "clean r'" "contents r' = []"
    by (rule reader_new_clean [OF c(1) c(2) _ l]) simp
  have rs: "pcap_records \<lparr>pr_inner = r', pr_link = LinkEthernet, pr_swapped = False, pr_nanos = False\<rparr> = ([], None)"
    using pcap_records_clean [of "\<lparr>pr_inner = r', pr_link = LinkEthernet, pr_swapped = False, pr_nanos = False\<rparr>" "[]"] n by simp
  have o: "env_open (sample_env ?d) ''a'' = Ok [Chunk ?d]" by (simp add: sample_env_def)
  have al: "with_alerts (replay_engine list_lru_api LinkEthernet 3 None) [] = replay_engine list_lru_api LinkEthernet 3 None"
    "en_alerts (replay_engine list_lru_api LinkEthernet 3 None) = []"
    by (simp_all add: with_alerts_def replay_engine_def engine_set_rules_def engine_new_def)
  from replay_is_engine_run [OF o n(1), of list_lru_api RulesOff None list_lru_api 3] n(1) rs show ?thesis
    by (simp add: load_rules_def engine_run_def Let_def al)
qed

text \<open>C16. What \<open>gen\<close> writes, \<open>replay\<close> reads: with a disk that takes the file and gives it back, in
  pieces of any size, \<open>gen\<close> succeeds and replaying its file counts exactly the \<open>n\<close> packets, none of
  them an error, a DNS error or without an IP header, whatever the scenario, the seed and the rules.\<close>

theorem generated_capture_replays:
  assumes "n < 2 ^ 40" and "env_create env out = Ok \<lparr>sk_written = [], sk_room = None\<rparr>"
    and "\<And>s. env_flush env s = (s, Ok ())"
    and "cli_generate env sc out n seed = (Some s, lines, res)"
    and "env_open env out = Ok r" and "clean r" and "contents r = sk_written s"
    and "load_rules env LR choice = Ok rules"
  shows "res = Ok () \<and>
    (\<exists>e alerts. replay_run env LF LR out top_n choice = Ok (LinkEthernet, e, alerts) \<and>
       ct_packets (en_counters e) = of_nat n \<and> ct_parse_errors (en_counters e) = 0 \<and>
       ct_dns_errors (en_counters e) = 0 \<and> ct_non_ip (en_counters e) = 0)"
proof -
  from assms(1) have "n < 2 ^ 50" by simp
  note g = generate_records [OF this, of sc seed]
  let ?fs = "map (\<lambda>(ts, data). \<lparr>fr_ts_us = ts, fr_wire_len = of_nat (length data), fr_data = data\<rparr>) (synth_records sc n seed)"
  have "list_all (\<lambda>f. readable (fr_data f)) ?fs" using g by (auto simp: list_all_iff)
  from readable_counters [OF this] gen_replay [OF assms, of LF top_n] g show ?thesis
    by (auto simp: replay_counters)
qed

lemma generated_capture_replays_witness:
  "\<exists>data e alerts. replay_run (sample_env data) list_lru_api list_lru_api ''o'' 3 RulesOff = Ok (LinkEthernet, e, alerts) \<and>
     ct_packets (en_counters e) = 2 \<and> ct_parse_errors (en_counters e) = 0"
proof -
  obtain s lines res where g: "cli_generate (sample_env []) ScFlood ''o'' 2 9 = (Some s, lines, res)"
    by (rule cli_generate_writes [of 2 "sample_env []" "''o''" ScFlood 9]) (simp_all add: sample_env_def)
  have "cli_generate (sample_env d) ScFlood ''o'' 2 9 = cli_generate (sample_env []) ScFlood ''o'' 2 9" for d
    by (simp add: cli_generate_def sample_env_def)
  with g have g: "cli_generate (sample_env (sk_written s)) ScFlood ''o'' 2 9 = (Some s, lines, res)" by simp
  have "sk_written s \<noteq> []"
  proof (rule cli_generate_writes [of 2 "sample_env (sk_written s)" "''o''" ScFlood 9])
    fix s1 s2
    assume w: "pcap_writer_new \<lparr>sk_written = [], sk_room = None\<rparr> LinkEthernet SNAPLEN = (s1, Ok ())"
      "write_records s1 (synth_records ScFlood 2 9) = (s2, Ok ())"
      "cli_generate (sample_env (sk_written s)) ScFlood ''o'' 2 9 =
        (Some s2, [''wrote '' @ show_nat 2 @ '' packets to '' @ ''o''], Ok ())"
    have "sk_room s1 = None" "sk_written s1 \<noteq> []"
      using w(1) length_to_le [of 4 MAGIC_MICROS]
      by (auto simp: pcap_writer_new_def write_all_def simp del: length_to_le)
    with write_records_unlimited [OF synth_writable, of 2 s1 ScFlood 9] w g show "sk_written s \<noteq> []" by auto
  qed (simp_all add: sample_env_def)
  then have c: "clean [Chunk (sk_written s)]" by simp
  from generated_capture_replays [OF _ _ _ g _ c, of list_lru_api RulesOff None list_lru_api 3] show ?thesis
    by (force simp: sample_env_def load_rules_def)
qed

end
