(* ===== verification/Shared.thy ===== *)
theory Shared
  imports Engine "HOL-Library.Sublist"
begin

text \<open>
  \<open>Shared\<close> of \<open>core-ffi/src/core.rs\<close>: the engine and the alert queue that the capture thread, the
  caller of the C interface and the analytics exporter share.  The first section has its operations
  as functions, one call at a time; the second the same calls cut at their locks and atomic
  counters, as steps of threads that interleave in any order.
\<close>

section \<open>Bounded queues\<close>

text \<open>
  A queue of at most \<open>cap\<close> items that makes room by dropping its oldest: after any number of puts it
  holds the last \<open>cap\<close> of all the items, and has counted the others.
\<close>

locale bounded_queue =
  fixes items :: "'s \<Rightarrow> 'a list" and put :: "'s \<Rightarrow> 'a \<Rightarrow> 's" and dropped :: "'s \<Rightarrow> 'n::ring_1" and cap :: nat
  assumes cap_pos: "0 < cap"
    and items_put: "items (put s a) = (if length (items s) = cap then tl (items s) else items s) @ [a]"
    and dropped_put: "dropped (put s a) = dropped s + (if length (items s) = cap then 1 else 0)"
begin

lemma items_puts:
  "length (items s) \<le> cap \<Longrightarrow> items (foldl put s as) = drop (length (items s @ as) - cap) (items s @ as)"
proof (induction as arbitrary: s)
  case (Cons a as)
  have le: "length (items (put s a)) \<le> cap" using Cons.prems cap_pos by (auto simp: items_put)
  have "items (foldl put s (a # as)) = items (foldl put (put s a) as)" by simp
  also have "\<dots> = drop (length (items (put s a) @ as) - cap) (items (put s a) @ as)" by (rule Cons.IH [OF le])
  also have "\<dots> = drop (length (items s @ a # as) - cap) (items s @ a # as)"
  proof (cases "length (items s) = cap")
    case True
    then have "items s \<noteq> []" using cap_pos by auto
    then have "drop (length (items s @ a # as) - cap) (items s @ a # as) = drop (length as) (tl (items s) @ a # as)"
      using True by (cases "items s") auto
    moreover have "length (items (put s a) @ as) - cap = length as" using True cap_pos by (simp add: items_put)
    ultimately show ?thesis using True by (simp add: items_put)
  next
    case False
    then have "items (put s a) @ as = items s @ a # as" by (simp add: items_put)
    then show ?thesis by (simp only:)
  qed
  finally show ?case .
qed simp

lemma dropped_puts:
  "length (items s) \<le> cap \<Longrightarrow> dropped (foldl put s as) = dropped s + of_nat (length (items s @ as) - cap)"
proof (induction as arbitrary: s)
  case (Cons a as)
  have le: "length (items (put s a)) \<le> cap" using Cons.prems cap_pos by (auto simp: items_put)
  have "dropped (foldl put s (a # as)) = dropped (foldl put (put s a) as)" by simp
  also have "\<dots> = dropped (put s a) + of_nat (length (items (put s a) @ as) - cap)" by (rule Cons.IH [OF le])
  also have "\<dots> = dropped s + of_nat (length (items s @ a # as) - cap)"
    using Cons.prems cap_pos by (auto simp: items_put dropped_put)
  finally show ?case .
qed simp

end

section \<open>The operations\<close>

definition ALERT_QUEUE_CAPACITY :: usize where "ALERT_QUEUE_CAPACITY = 1024"

record ('f, 'r) shared =
  sh_engine :: "('f, 'r) engine"
  sh_alerts :: "alert list"  \<comment> \<open>oldest first\<close>
  sh_alerts_total :: u64
  sh_alerts_dropped :: u64

text \<open>What \<open>push_alert\<close> does while it holds the queue.\<close>

definition enqueue_alert :: "alert \<Rightarrow> ('f, 'r) shared \<Rightarrow> ('f, 'r) shared" where
  "enqueue_alert a sh =
     (let sh = (if length (sh_alerts sh) = ALERT_QUEUE_CAPACITY
                then sh\<lparr>sh_alerts := tl (sh_alerts sh), sh_alerts_dropped := sh_alerts_dropped sh + 1\<rparr>
                else sh)
      in sh\<lparr>sh_alerts := sh_alerts sh @ [a]\<rparr>)"

definition push_alert :: "('f, 'r) shared \<Rightarrow> alert \<Rightarrow> ('f, 'r) shared" where
  "push_alert sh a = enqueue_alert a (sh\<lparr>sh_alerts_total := sh_alerts_total sh + 1\<rparr>)"

definition pop_alert :: "('f, 'r) shared \<Rightarrow> ('f, 'r) shared \<times> alert option" where
  "pop_alert sh =
     (case sh_alerts sh of [] \<Rightarrow> (sh, None) | a # q \<Rightarrow> (sh\<lparr>sh_alerts := q\<rparr>, Some a))"

text \<open>
  The block of \<open>ingest\<close> that holds the engine: process the frame and take its alerts.  A parse error
  is in the engine's counters; \<open>process\<close> does not panic.
\<close>

definition ingest_engine ::
  "(f64 \<Rightarrow> f64) \<Rightarrow> ('f, flow_key, flow_stats) lru_api \<Rightarrow> ('r, ip_addr, source_state) lru_api \<Rightarrow>
   ('f, 'r) shared \<Rightarrow> frame \<Rightarrow> ('f, 'r) shared \<times> alert list" where
  "ingest_engine log2 LF LR sh frame =
     (case drain_alerts (fst (engine_process log2 LF LR (sh_engine sh) frame)) of
        (e, alerts) \<Rightarrow> (sh\<lparr>sh_engine := e\<rparr>, alerts))"

definition ingest ::
  "(f64 \<Rightarrow> f64) \<Rightarrow> ('f, flow_key, flow_stats) lru_api \<Rightarrow> ('r, ip_addr, source_state) lru_api \<Rightarrow>
   ('f, 'r) shared \<Rightarrow> u64 \<Rightarrow> u32 \<Rightarrow> bytes \<Rightarrow> ('f, 'r) shared" where
  "ingest log2 LF LR sh ts wire_len data =
     (case ingest_engine log2 LF LR sh \<lparr>fr_ts_us = ts, fr_wire_len = wire_len, fr_data = data\<rparr> of
        (sh, alerts) \<Rightarrow> foldl push_alert sh alerts)"

lemma enqueue_alert_simps [simp]:
  "sh_engine (enqueue_alert a sh) = sh_engine sh" "sh_alerts_total (enqueue_alert a sh) = sh_alerts_total sh"
  "sh_alerts (enqueue_alert a sh) =
     (if length (sh_alerts sh) = 1024 then tl (sh_alerts sh) else sh_alerts sh) @ [a]"
  "sh_alerts_dropped (enqueue_alert a sh) =
     sh_alerts_dropped sh + (if length (sh_alerts sh) = 1024 then 1 else 0)"
  by (simp_all add: enqueue_alert_def Let_def ALERT_QUEUE_CAPACITY_def)

lemma push_alert_simps [simp]:
  "sh_engine (push_alert sh a) = sh_engine sh" "sh_alerts_total (push_alert sh a) = sh_alerts_total sh + 1"
  by (simp_all add: push_alert_def)

interpretation alert_queue: bounded_queue sh_alerts push_alert sh_alerts_dropped 1024
  by unfold_locales (auto simp: push_alert_def)

lemma push_alerts_rest:
  "sh_engine (foldl push_alert sh as) = sh_engine sh"
  "sh_alerts_total (foldl push_alert sh as) = sh_alerts_total sh + of_nat (length as)"
  by (induction as arbitrary: sh) (auto simp: algebra_simps)

section \<open>Threads\<close>

text \<open>
  A thread that calls \<open>ingest\<close> or \<open>push_alert\<close> has alerts still to push; \<open>counted\<close> are the threads that
  have counted the next of theirs but do not hold the queue yet.  \<open>pushed\<close> and \<open>popped\<close> are the history:
  every alert that entered the queue and every one a caller took, in order.
\<close>

type_synonym thread = nat

record ('f, 'r) sys =
  sy_shared :: "('f, 'r) shared"
  pending :: "thread \<Rightarrow> alert list"
  counted :: "thread set"
  pushed :: "alert list"
  popped :: "alert list"

inductive sys_step ::
  "(f64 \<Rightarrow> f64) \<Rightarrow> ('f, flow_key, flow_stats) lru_api \<Rightarrow> ('r, ip_addr, source_state) lru_api \<Rightarrow>
   ('f, 'r) sys \<Rightarrow> ('f, 'r) sys \<Rightarrow> bool" for log2 LF LR where
  ingest: "pending s t = [] \<Longrightarrow> ingest_engine log2 LF LR (sy_shared s) frame = (sh, alerts) \<Longrightarrow>
     sys_step log2 LF LR s (s\<lparr>sy_shared := sh, pending := (pending s)(t := alerts)\<rparr>)"
| anomaly: "pending s t = [] \<Longrightarrow> sys_step log2 LF LR s (s\<lparr>pending := (pending s)(t := [a])\<rparr>)"
| replace_engine: "sys_step log2 LF LR s (s\<lparr>sy_shared := (sy_shared s)\<lparr>sh_engine := e\<rparr>\<rparr>)"
| count_alert: "pending s t \<noteq> [] \<Longrightarrow> t \<notin> counted s \<Longrightarrow>
     sys_step log2 LF LR s
       (s\<lparr>sy_shared := (sy_shared s)\<lparr>sh_alerts_total := sh_alerts_total (sy_shared s) + 1\<rparr>,
          counted := insert t (counted s)\<rparr>)"
| enqueue: "pending s t = a # as \<Longrightarrow> t \<in> counted s \<Longrightarrow>
     sys_step log2 LF LR s
       (s\<lparr>sy_shared := enqueue_alert a (sy_shared s), pending := (pending s)(t := as),
          counted := counted s - {t}, pushed := pushed s @ [a]\<rparr>)"
| pop: "pop_alert (sy_shared s) = (sh, Some a) \<Longrightarrow>
     sys_step log2 LF LR s (s\<lparr>sy_shared := sh, popped := popped s @ [a]\<rparr>)"

inductive_cases sys_stepE: "sys_step log2 LF LR s s'"

abbreviation sys_steps where "sys_steps log2 LF LR \<equiv> (sys_step log2 LF LR)\<^sup>*\<^sup>*"

definition sys_init :: "('f, 'r) engine \<Rightarrow> ('f, 'r) sys" where
  "sys_init e =
     \<lparr>sy_shared = \<lparr>sh_engine = e, sh_alerts = [], sh_alerts_total = 0, sh_alerts_dropped = 0\<rparr>,
      pending = (\<lambda>t. []), counted = {}, pushed = [], popped = []\<rparr>"

text \<open>
  The invariant, for \<open>k\<close> alerts that have left the queue, \<open>d\<close> of them dropped: what is in the queue are
  the alerts pushed after them; what was popped was among them, in order; the counters are exact,
  but for the alerts counted and not yet queued.
\<close>

definition sys_inv :: "('f, 'r) sys \<Rightarrow> bool" where
  "sys_inv s \<longleftrightarrow>
     (\<exists>k d. k = length (popped s) + d \<and> k \<le> length (pushed s) \<and>
        sh_alerts (sy_shared s) = drop k (pushed s) \<and> subseq (popped s) (take k (pushed s)) \<and>
        sh_alerts_dropped (sy_shared s) = of_nat d) \<and>
     length (sh_alerts (sy_shared s)) \<le> 1024 \<and> finite (counted s) \<and>
     (\<forall>t \<in> counted s. pending s t \<noteq> []) \<and>
     sh_alerts_total (sy_shared s) = of_nat (length (pushed s) + card (counted s))"

lemma sys_inv_init: "sys_inv (sys_init e)"
  by (simp add: sys_inv_def sys_init_def)

lemma ingest_engine_frame:
  "ingest_engine log2 LF LR sh frame = (sh', alerts) \<Longrightarrow>
   sh_alerts sh' = sh_alerts sh \<and> sh_alerts_total sh' = sh_alerts_total sh \<and> sh_alerts_dropped sh' = sh_alerts_dropped sh"
  by (auto simp: ingest_engine_def split: prod.splits)

lemma subseq_snoc_take:
  "subseq xs (take k ys) \<Longrightarrow> k < length ys \<Longrightarrow> subseq (xs @ [ys ! k]) (take (Suc k) ys)"
  by (simp add: take_Suc_conv_app_nth list_emb_append_mono)

lemma subseq_take_more: "subseq xs (take k ys) \<Longrightarrow> k \<le> m \<Longrightarrow> subseq xs (take m ys)"
proof -
  assume s: "subseq xs (take k ys)" and "k \<le> m"
  then have "take m ys = take k ys @ drop k (take m ys)"
    by (metis append_take_drop_id min.absorb1 take_take)
  moreover have "subseq (take k ys) (take k ys @ drop k (take m ys))" by (rule subseq_rev_drop_many) simp
  ultimately show ?thesis using s subseq_order.trans by metis
qed

text \<open>Entering the queue keeps the history part of the invariant.\<close>

definition queue_inv :: "('f, 'r) shared \<Rightarrow> alert list \<Rightarrow> alert list \<Rightarrow> bool" where
  "queue_inv sh pu po \<longleftrightarrow>
     (\<exists>k d. k = length po + d \<and> k \<le> length pu \<and> sh_alerts sh = drop k pu \<and> subseq po (take k pu) \<and>
        sh_alerts_dropped sh = of_nat d) \<and>
     length (sh_alerts sh) \<le> 1024"

lemma queue_inv_enqueue:
  assumes "queue_inv sh pu po"
  shows "queue_inv (enqueue_alert a sh) (pu @ [a]) po"
proof -
  from assms obtain k d where k: "k = length po + d" "k \<le> length pu" "sh_alerts sh = drop k pu"
    "subseq po (take k pu)" "sh_alerts_dropped sh = of_nat d" "length (sh_alerts sh) \<le> 1024"
    by (auto simp: queue_inv_def)
  show ?thesis
  proof (cases "length (sh_alerts sh) = 1024")
    case True
    then have "k < length pu" using k by simp
    then have "tl (drop k pu) = drop (Suc k) pu" by (simp add: drop_Suc tl_drop)
    with True k \<open>k < length pu\<close> show ?thesis
      unfolding queue_inv_def
      by (intro conjI exI [of _ "Suc k"] exI [of _ "Suc d"]) (auto intro: subseq_take_more)
  next
    case False
    with k show ?thesis
      unfolding queue_inv_def by (intro conjI exI [of _ k] exI [of _ d]) auto
  qed
qed

lemma queue_inv_pop:
  assumes "queue_inv sh pu po" and "pop_alert sh = (sh', Some a)"
  shows "queue_inv sh' pu (po @ [a])"
proof -
  from assms(1) obtain k d where k: "k = length po + d" "k \<le> length pu" "sh_alerts sh = drop k pu"
    "subseq po (take k pu)" "sh_alerts_dropped sh = of_nat d" "length (sh_alerts sh) \<le> 1024"
    by (auto simp: queue_inv_def)
  from assms(2) obtain q where q: "sh_alerts sh = a # q" "sh' = sh\<lparr>sh_alerts := q\<rparr>"
    by (auto simp: pop_alert_def split: list.splits)
  with k(3) have "drop k pu = a # q" by simp
  have lt: "k < length pu"
  proof (rule ccontr)
    assume "\<not> k < length pu"
    with \<open>drop k pu = a # q\<close> show False by simp
  qed
  have a: "a = pu ! k" using hd_drop_conv_nth [OF lt] \<open>drop k pu = a # q\<close> by simp
  have "q = drop (Suc k) pu" using \<open>drop k pu = a # q\<close> by (simp add: drop_Suc flip: tl_drop)
  with k q a lt subseq_snoc_take [OF k(4) lt] show ?thesis
    unfolding queue_inv_def by (intro conjI exI [of _ "Suc k"] exI [of _ d]) auto
qed

lemma sys_inv_queue:
  "sys_inv s \<longleftrightarrow> queue_inv (sy_shared s) (pushed s) (popped s) \<and> finite (counted s) \<and>
     (\<forall>t \<in> counted s. pending s t \<noteq> []) \<and>
     sh_alerts_total (sy_shared s) = of_nat (length (pushed s) + card (counted s))"
  by (auto simp: sys_inv_def queue_inv_def)

lemma sys_step_inv:
  assumes "sys_step log2 LF LR s s'" and "sys_inv s"
  shows "sys_inv s'"
  using assms
proof (cases rule: sys_step.cases)
  case (ingest t frame sh alerts)
  then show ?thesis using assms(2) ingest_engine_frame [OF ingest(3)]
    by (auto simp: sys_inv_queue queue_inv_def)
next
  case (anomaly t a)
  then show ?thesis using assms(2) by (auto simp: sys_inv_queue)
next
  case (replace_engine e)
  then show ?thesis using assms(2) by (auto simp: sys_inv_queue queue_inv_def)
next
  case (count_alert t)
  then show ?thesis using assms(2) by (auto simp: sys_inv_queue queue_inv_def)
next
  case (enqueue t a as)
  have "finite (counted s)" using assms(2) by (simp add: sys_inv_queue)
  then have "Suc (card (counted s - {t})) = card (counted s)" using enqueue(3) by (rule card_Suc_Diff1)
  then have "length (pushed s @ [a]) + card (counted s - {t}) = length (pushed s) + card (counted s)" by simp
  then have "sh_alerts_total (sy_shared s) = of_nat (length (pushed s @ [a]) + card (counted s - {t}))"
    using assms(2) by (simp only: sys_inv_queue)
  then show ?thesis using enqueue assms(2) queue_inv_enqueue by (auto simp: sys_inv_queue)
next
  case (pop sh a)
  then have "sh_alerts_total sh = sh_alerts_total (sy_shared s)"
    by (auto simp: pop_alert_def split: list.splits)
  then show ?thesis using pop assms(2) queue_inv_pop by (auto simp: sys_inv_queue)
qed

lemma sys_steps_inv: "sys_steps log2 LF LR (sys_init e) s \<Longrightarrow> sys_inv s"
  by (induction rule: rtranclp_induct) (auto simp: sys_inv_init sys_step_inv)

section \<open>The sequential operations are runs of a thread\<close>

text \<open>\<open>push_alert\<close> is counting, then entering the queue.\<close>

lemma push_alert_steps:
  assumes "pending s t = a # as" and "t \<notin> counted s"
  shows "sys_steps log2 LF LR s
    (s\<lparr>sy_shared := push_alert (sy_shared s) a, pending := (pending s)(t := as), pushed := pushed s @ [a]\<rparr>)"
proof -
  let ?s1 = "s\<lparr>sy_shared := (sy_shared s)\<lparr>sh_alerts_total := sh_alerts_total (sy_shared s) + 1\<rparr>,
    counted := insert t (counted s)\<rparr>"
  have "sys_step log2 LF LR s ?s1" using assms by (intro sys_step.count_alert) auto
  moreover have "sys_step log2 LF LR ?s1
      (?s1\<lparr>sy_shared := enqueue_alert a (sy_shared ?s1), pending := (pending ?s1)(t := as),
        counted := counted ?s1 - {t}, pushed := pushed ?s1 @ [a]\<rparr>)"
    using assms by (intro sys_step.enqueue) auto
  ultimately show ?thesis using assms(2) by (simp add: push_alert_def)
qed

lemma push_alerts_steps:
  assumes "pending s t = as" and "t \<notin> counted s"
  shows "sys_steps log2 LF LR s
    (s\<lparr>sy_shared := foldl push_alert (sy_shared s) as, pending := (pending s)(t := []), pushed := pushed s @ as\<rparr>)"
  using assms
proof (induction as arbitrary: s)
  case Nil
  then have eq: "s\<lparr>sy_shared := foldl push_alert (sy_shared s) [], pending := (pending s)(t := []), pushed := pushed s @ []\<rparr> = s"
    by (simp add: fun_upd_idem)
  show ?case unfolding eq by (rule rtranclp.rtrancl_refl)
next
  case (Cons a as)
  let ?s1 = "s\<lparr>sy_shared := push_alert (sy_shared s) a, pending := (pending s)(t := as), pushed := pushed s @ [a]\<rparr>"
  have "sys_steps log2 LF LR ?s1
      (?s1\<lparr>sy_shared := foldl push_alert (sy_shared ?s1) as, pending := (pending ?s1)(t := []), pushed := pushed ?s1 @ as\<rparr>)"
    using Cons.prems by (intro Cons.IH) auto
  from rtranclp_trans [OF push_alert_steps [OF Cons.prems] this] show ?case
    by (simp del: fun_upd_apply)
qed

lemma ingest_steps:
  assumes "pending s t = []" and "t \<notin> counted s"
  shows "\<exists>pu. sys_steps log2 LF LR s
    (s\<lparr>sy_shared := ingest log2 LF LR (sy_shared s) ts wire data, pushed := pushed s @ pu\<rparr>)"
proof -
  obtain sh as where i: "ingest_engine log2 LF LR (sy_shared s) \<lparr>fr_ts_us = ts, fr_wire_len = wire, fr_data = data\<rparr> = (sh, as)"
    by force
  let ?s1 = "s\<lparr>sy_shared := sh, pending := (pending s)(t := as)\<rparr>"
  have "sys_step log2 LF LR s ?s1" using assms(1) i by (intro sys_step.ingest) auto
  moreover have "sys_steps log2 LF LR ?s1
      (?s1\<lparr>sy_shared := foldl push_alert (sy_shared ?s1) as, pending := (pending ?s1)(t := []), pushed := pushed ?s1 @ as\<rparr>)"
    using assms by (intro push_alerts_steps) auto
  ultimately have "sys_steps log2 LF LR s
      (?s1\<lparr>sy_shared := foldl push_alert (sy_shared ?s1) as, pending := (pending ?s1)(t := []), pushed := pushed ?s1 @ as\<rparr>)"
    by (rule converse_rtranclp_into_rtranclp)
  moreover have "(pending s)(t := []) = pending s" using assms(1) by (simp add: fun_upd_idem)
  ultimately show ?thesis by (intro exI [of _ as]) (simp add: ingest_def i)
qed

section \<open>Properties\<close>

text \<open>C13. However threads interleave, no alert is lost unseen: the queue never holds more than 1,024; what
  callers took, then what waits, is in the order in which the alerts entered; the dropped counter is the
  number of alerts that are neither; the total is the number that entered, plus those a thread has
  counted and is about to add.\<close>

theorem alert_queue_account:
  assumes "sys_steps log2 LF LR (sys_init e) s"
  shows "length (sh_alerts (sy_shared s)) \<le> 1024 \<and>
    subseq (popped s @ sh_alerts (sy_shared s)) (pushed s) \<and>
    sh_alerts_dropped (sy_shared s) =
      of_nat (length (pushed s) - (length (popped s) + length (sh_alerts (sy_shared s)))) \<and>
    sh_alerts_total (sy_shared s) = of_nat (length (pushed s) + card (counted s))"
proof -
  have inv: "sys_inv s" by (rule sys_steps_inv [OF assms])
  then obtain k d where k: "k = length (popped s) + d" "k \<le> length (pushed s)"
    "sh_alerts (sy_shared s) = drop k (pushed s)" "subseq (popped s) (take k (pushed s))"
    "sh_alerts_dropped (sy_shared s) = of_nat d"
    unfolding sys_inv_def by blast
  have "subseq (popped s @ drop k (pushed s)) (take k (pushed s) @ drop k (pushed s))"
    using k(4) by (rule list_emb_append_mono) simp
  then have "subseq (popped s @ sh_alerts (sy_shared s)) (pushed s)" unfolding k(3) by simp
  moreover have "d = length (pushed s) - (length (popped s) + length (sh_alerts (sy_shared s)))"
    unfolding k(3) using k(1,2) by simp
  moreover have "length (sh_alerts (sy_shared s)) \<le> 1024"
    "sh_alerts_total (sy_shared s) = of_nat (length (pushed s) + card (counted s))"
    using inv unfolding sys_inv_def by blast+
  ultimately show ?thesis using k(5) by blast
qed

definition sample_alert :: alert where
  "sample_alert = \<lparr>al_ts_us = 1, al_source = SourceAnomaly, al_severity = Low, al_rule_id = ''x'', al_message = ''m'',
     al_src = None, al_score = Fin 1\<rparr>"

lemma alert_queue_account_witness:
  "\<exists>s :: ((flow_key, flow_stats) list_lru, (ip_addr, source_state) list_lru) sys.
     sys_steps (\<lambda>x. x) list_lru_api list_lru_api (sys_init (engine_new list_lru_api engine_config_default)) s \<and>
     sh_alerts (sy_shared s) = [sample_alert] \<and> sh_alerts_total (sy_shared s) = 1 \<and>
     sh_alerts_dropped (sy_shared s) = 0 \<and> length (sh_alerts (sy_shared s)) \<le> 1024"
proof -
  let ?i = "sys_init (engine_new list_lru_api engine_config_default)
    :: ((flow_key, flow_stats) list_lru, (ip_addr, source_state) list_lru) sys"
  let ?s1 = "?i\<lparr>pending := (pending ?i)(0 := [sample_alert])\<rparr>"
  let ?s2 = "?s1\<lparr>sy_shared := push_alert (sy_shared ?s1) sample_alert, pending := (pending ?s1)(0 := []),
    pushed := pushed ?s1 @ [sample_alert]\<rparr>"
  have "sys_step (\<lambda>x. x) list_lru_api list_lru_api ?i ?s1"
    by (rule sys_step.anomaly) (simp add: sys_init_def)
  moreover have "sys_steps (\<lambda>x. x) list_lru_api list_lru_api ?s1 ?s2"
    by (rule push_alert_steps) (simp_all add: sys_init_def)
  ultimately have r: "sys_steps (\<lambda>x. x) list_lru_api list_lru_api ?i ?s2"
    by (rule converse_rtranclp_into_rtranclp)
  have q: "sh_alerts (sy_shared ?s2) = [sample_alert]" "pushed ?s2 = [sample_alert]" "popped ?s2 = []" "counted ?s2 = {}"
    by (simp_all add: push_alert_def sys_init_def)
  from alert_queue_account [OF r] show ?thesis unfolding q using r q by (intro exI [of _ ?s2]) simp
qed

end
