(* ===== verification/Link_Worker.thy ===== *)
theory Link_Worker
  imports Float64
begin

text \<open>
  \<open>core-grpc/src/link.rs\<close>: the connection to the analytics service.  A worker thread connects,
  streams batches out and scores in, and after a failure waits with a doubling delay; the exporter
  offers batches and drains scores, and dropping the link shuts the worker down.  The network
  (\<open>tonic\<close>, the server) and the scheduler decide which enabled step happens: they are the
  nondeterminism of the step relation.  The messages are those of \<open>contracts/analytics.proto\<close>.
\<close>

section \<open>Messages\<close>

record flow_features =
  ff_src :: string
  ff_dst :: string
  ff_src_port :: u32
  ff_dst_port :: u32
  ff_proto :: u32
  ff_packets_fwd :: u64
  ff_packets_rev :: u64
  ff_bytes_fwd :: u64
  ff_bytes_rev :: u64
  ff_duration_us :: u64
  ff_tcp_flags :: u32
  ff_last_seen_us :: u64

record flow_batch =
  fb_batch_id :: u64
  fb_window_end_us :: u64
  fb_flows :: "flow_features list"

record anomaly_score =
  as_batch_id :: u64
  as_host :: string
  as_score :: f64
  as_threshold :: f64
  as_reason :: string
  as_ts_us :: u64

section \<open>Constants, states and errors\<close>

text \<open>Durations in milliseconds.\<close>

definition INITIAL_BACKOFF :: nat where "INITIAL_BACKOFF = 500"
definition MAX_BACKOFF :: nat where "MAX_BACKOFF = 30000"
definition BATCH_QUEUE :: usize where "BATCH_QUEUE = 8"

datatype link_state = Disconnected | Connecting | Connected

fun link_state_as_u8 :: "link_state \<Rightarrow> u8" where
  "link_state_as_u8 Disconnected = 0"
| "link_state_as_u8 Connecting = 1"
| "link_state_as_u8 Connected = 2"

definition link_state_from_u8 :: "u8 \<Rightarrow> link_state" where
  "link_state_from_u8 v = (if v = 1 then Connecting else if v = 2 then Connected else Disconnected)"

lemma link_state_from_as [simp]: "link_state_from_u8 (link_state_as_u8 s) = s"
  by (cases s) (simp_all add: link_state_from_u8_def)

datatype link_error = BadEndpoint string | LinkRuntime string

fun show_link_error :: "link_error \<Rightarrow> string" where
  "show_link_error (BadEndpoint e) = ''invalid analytics endpoint: '' @ e"
| "show_link_error (LinkRuntime e) = ''cannot start analytics runtime: '' @ e"

section \<open>The link\<close>

text \<open>
  Where the worker is: before its loop, connecting, in the first or the second loop of \<open>stream\<close>
  (before or after the response started), in \<open>forward\<close> with a batch in hand (and the loop to return
  to), waiting, or ended.  \<open>offering\<close> is the batch of an \<open>offer\<close> that has seen the link connected and
  has not sent yet.  \<open>ln_lost\<close> and \<open>ln_offered\<close> are history: batches that \<open>forward\<close> lost with the
  stream, and all that were offered.
\<close>

datatype loop = Calling | Streaming

datatype worker = WNew | WConnecting | WStream loop | WForward loop flow_batch | WWaiting | WStopped

record link =
  ln_batches :: "flow_batch list"
  ln_scores :: "anomaly_score list"
  ln_state :: u8
  ln_sent :: u64
  ln_dropped :: u64
  ln_reconnects :: u64
  ln_shutdown :: bool
  ln_closed :: bool  \<comment> \<open>the sender of the batches is gone\<close>
  ln_worker :: worker
  ln_backoff :: nat
  ln_tx :: "flow_batch list"
  offering :: "flow_batch option"
  ln_offered :: nat
  ln_lost :: nat

definition link_new :: link where
  "link_new =
     \<lparr>ln_batches = [], ln_scores = [], ln_state = 0, ln_sent = 0, ln_dropped = 0, ln_reconnects = 0,
      ln_shutdown = False, ln_closed = False, ln_worker = WNew, ln_backoff = INITIAL_BACKOFF, ln_tx = [],
      offering = None, ln_offered = 0, ln_lost = 0\<rparr>"

text \<open>\<open>AnalyticsLink::start\<close>: the endpoint must parse, and the runtime and its thread start.\<close>

definition link_start ::
  "(string \<Rightarrow> (string, unit) result) \<Rightarrow> (string, unit) result \<Rightarrow> (string, unit) result \<Rightarrow> string \<Rightarrow>
   (link_error, link) result" where
  "link_start parse_endpoint build_runtime spawn endpoint =
     and_then (map_err BadEndpoint (parse_endpoint endpoint)) (\<lambda>_.
     and_then (map_err LinkRuntime build_runtime) (\<lambda>_.
     and_then (map_err LinkRuntime spawn) (\<lambda>_. Ok link_new)))"

definition set_link_state :: "link_state \<Rightarrow> link \<Rightarrow> link" where
  "set_link_state s l = l\<lparr>ln_state := link_state_as_u8 s\<rparr>"

definition link_state_of :: "link \<Rightarrow> link_state" where
  "link_state_of l = link_state_from_u8 (ln_state l)"

text \<open>Entering the loop, the stream lost, and the loop left.\<close>

definition begin_connect :: "link \<Rightarrow> link" where
  "begin_connect l = set_link_state Connecting (l\<lparr>ln_worker := WConnecting\<rparr>)"

definition lost :: "link \<Rightarrow> link" where
  "lost l = set_link_state Disconnected (l\<lparr>ln_worker := WWaiting, ln_reconnects := ln_reconnects l + 1, ln_tx := []\<rparr>)"

definition stopped :: "link \<Rightarrow> link" where
  "stopped l = set_link_state Disconnected (l\<lparr>ln_worker := WStopped, ln_tx := []\<rparr>)"

inductive link_step :: "link \<Rightarrow> link \<Rightarrow> bool" where
  start: "ln_worker l = WNew \<Longrightarrow> link_step l (begin_connect l)"
| connected: "ln_worker l = WConnecting \<Longrightarrow>
     link_step l (set_link_state Connected
       (l\<lparr>ln_worker := WStream Calling, ln_backoff := INITIAL_BACKOFF, ln_tx := []\<rparr>))"
| not_connected: "ln_worker l = WConnecting \<Longrightarrow> link_step l (lost l)"
| stream_shutdown: "ln_worker l = WStream p \<Longrightarrow> ln_shutdown l \<Longrightarrow> link_step l (stopped l)"
| stream_closed: "ln_worker l = WStream p \<Longrightarrow> ln_closed l \<Longrightarrow> ln_batches l = [] \<Longrightarrow> link_step l (stopped l)"
| recv: "ln_worker l = WStream p \<Longrightarrow> ln_batches l = b # q \<Longrightarrow>
     link_step l (l\<lparr>ln_worker := WForward p b, ln_batches := q\<rparr>)"
| forward: "ln_worker l = WForward p b \<Longrightarrow> length (ln_tx l) < BATCH_QUEUE \<Longrightarrow>
     link_step l (l\<lparr>ln_worker := WStream p, ln_tx := ln_tx l @ [b], ln_sent := ln_sent l + 1\<rparr>)"
| forward_lost: "ln_worker l = WForward p b \<Longrightarrow> link_step l (lost (l\<lparr>ln_lost := ln_lost l + 1\<rparr>))"
| call_started: "ln_worker l = WStream Calling \<Longrightarrow> link_step l (l\<lparr>ln_worker := WStream Streaming\<rparr>)"
| call_failed: "ln_worker l = WStream Calling \<Longrightarrow> link_step l (lost l)"
| score: "ln_worker l = WStream Streaming \<Longrightarrow> link_step l (l\<lparr>ln_scores := ln_scores l @ [s]\<rparr>)"
| stream_ended: "ln_worker l = WStream Streaming \<Longrightarrow> link_step l (lost l)"
| transmit: "ln_tx l = b # q \<Longrightarrow> link_step l (l\<lparr>ln_tx := q\<rparr>)"
| retry: "ln_worker l = WWaiting \<Longrightarrow>
     link_step l (begin_connect (l\<lparr>ln_backoff := min (ln_backoff l * 2) MAX_BACKOFF\<rparr>))"
| wait_shutdown: "ln_worker l = WWaiting \<Longrightarrow> ln_shutdown l \<Longrightarrow> link_step l (stopped l)"
| wait_closed: "ln_worker l = WWaiting \<Longrightarrow> ln_closed l \<Longrightarrow> ln_batches l = [] \<Longrightarrow> link_step l (stopped l)"
| wait_drop: "ln_worker l = WWaiting \<Longrightarrow> ln_batches l = b # q \<Longrightarrow>
     link_step l (l\<lparr>ln_batches := q, ln_dropped := ln_dropped l + 1\<rparr>)"
| offer: "offering l = None \<Longrightarrow> \<not> ln_closed l \<Longrightarrow> link_state_of l = Connected \<Longrightarrow>
     link_step l (l\<lparr>offering := Some b, ln_offered := ln_offered l + 1\<rparr>)"
| offer_refused: "offering l = None \<Longrightarrow> \<not> ln_closed l \<Longrightarrow> link_state_of l \<noteq> Connected \<Longrightarrow>
     link_step l (l\<lparr>ln_dropped := ln_dropped l + 1, ln_offered := ln_offered l + 1\<rparr>)"
| offer_sent: "offering l = Some b \<Longrightarrow> length (ln_batches l) < BATCH_QUEUE \<Longrightarrow> ln_worker l \<noteq> WStopped \<Longrightarrow>
     link_step l (l\<lparr>offering := None, ln_batches := ln_batches l @ [b]\<rparr>)"
| offer_full: "offering l = Some b \<Longrightarrow> length (ln_batches l) \<ge> BATCH_QUEUE \<or> ln_worker l = WStopped \<Longrightarrow>
     link_step l (l\<lparr>offering := None, ln_dropped := ln_dropped l + 1\<rparr>)"
| drain: "link_step l (l\<lparr>ln_scores := []\<rparr>)"
| shutdown: "link_step l (l\<lparr>ln_shutdown := True\<rparr>)"
| close: "ln_worker l = WStopped \<Longrightarrow> ln_shutdown l \<Longrightarrow> offering l = None \<Longrightarrow> link_step l (l\<lparr>ln_closed := True\<rparr>)"

inductive_cases link_stepE: "link_step l l'"

abbreviation link_steps where "link_steps \<equiv> link_step\<^sup>*\<^sup>*"

text \<open>One call of the exporter, undisturbed: \<open>offer\<close> and \<open>drain_scores\<close>.\<close>

definition link_offer :: "link \<Rightarrow> flow_batch \<Rightarrow> link \<times> bool" where
  "link_offer l b =
     (let accepted = link_state_of l = Connected \<and> length (ln_batches l) < BATCH_QUEUE \<and> ln_worker l \<noteq> WStopped in
      ((if accepted then l\<lparr>ln_batches := ln_batches l @ [b]\<rparr> else l\<lparr>ln_dropped := ln_dropped l + 1\<rparr>)
         \<lparr>ln_offered := ln_offered l + 1\<rparr>, accepted))"

definition drain_scores :: "link \<Rightarrow> link \<times> anomaly_score list" where
  "drain_scores l = (l\<lparr>ln_scores := []\<rparr>, ln_scores l)"

text \<open>\<open>Drop\<close> requests the shutdown and waits for the worker to end.\<close>

definition link_drop :: "link \<Rightarrow> link" where
  "link_drop l = l\<lparr>ln_shutdown := True\<rparr>"

lemma link_drop_step: "link_step l (link_drop l)"
  unfolding link_drop_def by (rule link_step.shutdown)

section \<open>Invariants\<close>

text \<open>The state others read is the state the worker is in.\<close>

fun state_of_worker :: "worker \<Rightarrow> link_state" where
  "state_of_worker WNew = Disconnected"
| "state_of_worker WConnecting = Connecting"
| "state_of_worker (WStream _) = Connected"
| "state_of_worker (WForward _ _) = Connected"
| "state_of_worker WWaiting = Disconnected"
| "state_of_worker WStopped = Disconnected"

fun in_hand :: "worker \<Rightarrow> nat" where
  "in_hand (WForward _ _) = 1"
| "in_hand _ = 0"

fun opt_count :: "'a option \<Rightarrow> nat" where
  "opt_count None = 0"
| "opt_count (Some _) = 1"

definition backoff_ok :: "nat \<Rightarrow> bool" where
  "backoff_ok b \<longleftrightarrow> (\<exists>k. b = min (INITIAL_BACKOFF * 2 ^ k) MAX_BACKOFF)"

definition link_inv :: "link \<Rightarrow> bool" where
  "link_inv l \<longleftrightarrow>
     ln_state l = link_state_as_u8 (state_of_worker (ln_worker l)) \<and>
     length (ln_batches l) \<le> BATCH_QUEUE \<and> length (ln_tx l) \<le> BATCH_QUEUE \<and>
     backoff_ok (ln_backoff l) \<and>
     of_nat (ln_offered l) = ln_sent l + ln_dropped l +
       of_nat (length (ln_batches l) + in_hand (ln_worker l) + opt_count (offering l) + ln_lost l)"

lemma backoff_ok_initial: "backoff_ok INITIAL_BACKOFF"
  unfolding backoff_ok_def by (intro exI [of _ 0]) (simp add: INITIAL_BACKOFF_def MAX_BACKOFF_def)

lemma backoff_ok_double: "backoff_ok b \<Longrightarrow> backoff_ok (min (b * 2) MAX_BACKOFF)"
proof -
  assume "backoff_ok b"
  then obtain k where "b = min (INITIAL_BACKOFF * 2 ^ k) MAX_BACKOFF" by (auto simp: backoff_ok_def)
  then have "min (b * 2) MAX_BACKOFF = min (INITIAL_BACKOFF * 2 ^ Suc k) MAX_BACKOFF" by (auto simp: min_def)
  then show ?thesis unfolding backoff_ok_def by blast
qed

lemma backoff_ok_bounds: "backoff_ok b \<Longrightarrow> 500 \<le> b \<and> b \<le> 30000"
proof -
  assume "backoff_ok b"
  then obtain k where k: "b = min (500 * 2 ^ k) 30000"
    by (auto simp: backoff_ok_def INITIAL_BACKOFF_def MAX_BACKOFF_def)
  have "(1 :: nat) \<le> 2 ^ k" by simp
  then show ?thesis unfolding k by linarith
qed

lemma link_inv_new: "link_inv link_new"
  using backoff_ok_initial by (simp add: link_inv_def link_new_def)

lemma link_step_inv: "link_step l l' \<Longrightarrow> link_inv l \<Longrightarrow> link_inv l'"
  by (induction rule: link_step.induct)
    (auto simp: link_inv_def begin_connect_def lost_def stopped_def set_link_state_def
      backoff_ok_initial backoff_ok_double algebra_simps)

lemma link_steps_inv: "link_steps link_new l \<Longrightarrow> link_inv l"
  by (induction rule: rtranclp_induct) (auto simp: link_inv_new link_step_inv)

section \<open>One call of the exporter\<close>

lemma link_offer_steps:
  assumes "offering l = None" and "\<not> ln_closed l" and "link_inv l"
  shows "link_steps l (fst (link_offer l b))"
proof (cases "link_state_of l = Connected")
  case False
  then have "link_step l (fst (link_offer l b))"
    using link_step.offer_refused [OF assms(1,2) False] by (simp add: link_offer_def)
  then show ?thesis by (rule r_into_rtranclp)
next
  case True
  let ?l1 = "l\<lparr>offering := Some b, ln_offered := ln_offered l + 1\<rparr>"
  have s1: "link_step l ?l1" by (rule link_step.offer [OF assms(1,2) True])
  have "link_step ?l1 (fst (link_offer l b))"
  proof (cases "length (ln_batches l) < BATCH_QUEUE \<and> ln_worker l \<noteq> WStopped")
    case fits: True
    have "link_step ?l1 (?l1\<lparr>offering := None, ln_batches := ln_batches ?l1 @ [b]\<rparr>)"
      using fits by (intro link_step.offer_sent) auto
    moreover have "?l1\<lparr>offering := None, ln_batches := ln_batches ?l1 @ [b]\<rparr> = fst (link_offer l b)"
      using True fits assms(1) by (simp add: link_offer_def)
    ultimately show ?thesis by simp
  next
    case False
    have "link_step ?l1 (?l1\<lparr>offering := None, ln_dropped := ln_dropped ?l1 + 1\<rparr>)"
      using False by (intro link_step.offer_full) auto
    moreover have "?l1\<lparr>offering := None, ln_dropped := ln_dropped ?l1 + 1\<rparr> = fst (link_offer l b)"
      using False assms(1) by (cases l) (auto simp: link_offer_def Let_def)
    ultimately show ?thesis by simp
  qed
  with s1 show ?thesis by (meson converse_rtranclp_into_rtranclp r_into_rtranclp)
qed

section \<open>Shutting down\<close>

text \<open>An ended worker stays ended.\<close>

lemma stopped_final: "link_step l l' \<Longrightarrow> ln_worker l = WStopped \<Longrightarrow> ln_worker l' = WStopped \<and> ln_state l' = ln_state l"
  by (erule link_stepE) auto

text \<open>
  Streaming and waiting, the worker can always take the shutdown; in \<open>forward\<close> and in \<open>connect\<close> it
  cannot, and goes on when the stream takes a batch or breaks, or the attempt to connect ends.
\<close>

lemma stop_now:
  assumes "ln_shutdown l" and "(\<exists>p. ln_worker l = WStream p) \<or> ln_worker l = WWaiting"
  shows "link_step l (stopped l)"
  using assms by (auto intro: link_step.stream_shutdown link_step.wait_shutdown)

lemma worker_stopped [simp]: "ln_worker (stopped l) = WStopped" "ln_state (stopped l) = 0"
  by (simp_all add: stopped_def set_link_state_def)

lemma worker_lost [simp]: "ln_worker (lost l) = WWaiting" "ln_shutdown (lost l) = ln_shutdown l"
  by (simp_all add: lost_def set_link_state_def)

lemma can_stop:
  assumes "ln_shutdown l"
  shows "\<exists>l'. link_steps l l' \<and> ln_worker l' = WStopped"
proof -
  have via: ?thesis if "link_step l l1" "ln_shutdown l1" "(\<exists>p. ln_worker l1 = WStream p) \<or> ln_worker l1 = WWaiting" for l1
    using that stop_now [OF that(2,3)]
    by (intro exI [of _ "stopped l1"]) (auto intro: converse_rtranclp_into_rtranclp)
  show ?thesis
  proof (cases "ln_worker l")
    case WNew
    let ?l1 = "begin_connect l"
    have "link_step l ?l1" by (rule link_step.start [OF WNew])
    moreover have "link_step ?l1 (lost ?l1)"
      by (rule link_step.not_connected) (simp add: begin_connect_def set_link_state_def)
    moreover have "link_step (lost ?l1) (stopped (lost ?l1))"
      using assms by (intro stop_now) (simp_all add: begin_connect_def set_link_state_def)
    ultimately show ?thesis
      by (intro exI [of _ "stopped (lost ?l1)"]) (auto intro: converse_rtranclp_into_rtranclp)
  next
    case WConnecting
    then show ?thesis using assms by (intro via [of "lost l"] link_step.not_connected) auto
  next
    case (WStream p)
    then show ?thesis using assms stop_now [of l] by (intro exI [of _ "stopped l"]) auto
  next
    case (WForward p b)
    then show ?thesis
      using assms by (intro via [of "lost (l\<lparr>ln_lost := ln_lost l + 1\<rparr>)"] link_step.forward_lost) auto
  next
    case WWaiting
    then show ?thesis using assms stop_now [of l] by (intro exI [of _ "stopped l"]) auto
  next
    case WStopped
    then show ?thesis by auto
  qed
qed

text \<open>
  While the stream takes nothing and does not break, \<open>forward\<close> waits: with its queue full a shutdown
  changes nothing, and \<open>drop\<close>, which joins the worker, waits with it.
\<close>

lemma forward_ignores_shutdown:
  assumes "link_step l l'" and "ln_worker l = WForward p b" and "length (ln_tx l) = BATCH_QUEUE"
    and "ln_tx l' = ln_tx l"
  shows "ln_worker l' = WForward p b"
  using assms by (elim link_stepE) (auto simp: lost_def set_link_state_def BATCH_QUEUE_def)

section \<open>Properties\<close>





end
