(* ===== verification/Ffi_Types.thy ===== *)
theory Ffi_Types
  imports Engine
begin

text \<open>
  \<open>core-ffi/src/types.rs\<close>: the types that cross the C interface, how flows, alerts, counters and
  devices are converted to them, and \<open>write_cstr\<close>, which copies a string into a fixed buffer.
  A \<open>&str\<close> is the list of its UTF-8 bytes.
\<close>

section \<open>Constants and codes\<close>

definition NC_ABI_VERSION :: u32 where "NC_ABI_VERSION = 1"
definition NC_ADDR_LEN :: usize where "NC_ADDR_LEN = 16"
definition NC_RULE_ID_LEN :: usize where "NC_RULE_ID_LEN = 64"
definition NC_MESSAGE_LEN :: usize where "NC_MESSAGE_LEN = 192"
definition NC_DEVICE_NAME_LEN :: usize where "NC_DEVICE_NAME_LEN = 256"
definition NC_FAMILY_IPV4 :: u8 where "NC_FAMILY_IPV4 = 4"
definition NC_FAMILY_IPV6 :: u8 where "NC_FAMILY_IPV6 = 6"

lemmas nc_consts = NC_ADDR_LEN_def NC_RULE_ID_LEN_def NC_MESSAGE_LEN_def NC_DEVICE_NAME_LEN_def
  NC_FAMILY_IPV4_def NC_FAMILY_IPV6_def

datatype nc_status =
    StOk | StNullArg | StInvalidArg | StState | StIo | StCapture | StNoLibrary | StPermission | StPanic
  | StRules | StFormat

text \<open>An \<open>i32\<close> is a 32-bit word, read with \<open>sint\<close>.\<close>

type_synonym i32 = "32 word"

fun status_as_i32 :: "nc_status \<Rightarrow> i32" where
  "status_as_i32 StOk = 0"
| "status_as_i32 StNullArg = - 1"
| "status_as_i32 StInvalidArg = - 2"
| "status_as_i32 StState = - 3"
| "status_as_i32 StIo = - 4"
| "status_as_i32 StCapture = - 5"
| "status_as_i32 StNoLibrary = - 6"
| "status_as_i32 StPermission = - 7"
| "status_as_i32 StPanic = - 8"
| "status_as_i32 StRules = - 9"
| "status_as_i32 StFormat = - 10"

fun show_status :: "nc_status \<Rightarrow> string" where
  "show_status StOk = ''Ok''"
| "show_status StNullArg = ''NullArg''"
| "show_status StInvalidArg = ''InvalidArg''"
| "show_status StState = ''State''"
| "show_status StIo = ''Io''"
| "show_status StCapture = ''Capture''"
| "show_status StNoLibrary = ''NoLibrary''"
| "show_status StPermission = ''Permission''"
| "show_status StPanic = ''Panic''"
| "show_status StRules = ''Rules''"
| "show_status StFormat = ''Format''"

datatype nc_alert_source = NcRule | NcAnomaly

fun nc_alert_source_as_u32 :: "nc_alert_source \<Rightarrow> u32" where
  "nc_alert_source_as_u32 NcRule = 0"
| "nc_alert_source_as_u32 NcAnomaly = 1"

datatype nc_severity = NcLow | NcMedium | NcHigh | NcCritical

fun nc_severity_as_u32 :: "nc_severity \<Rightarrow> u32" where
  "nc_severity_as_u32 NcLow = 1"
| "nc_severity_as_u32 NcMedium = 2"
| "nc_severity_as_u32 NcHigh = 3"
| "nc_severity_as_u32 NcCritical = 4"

datatype nc_capture_state = CapIdle | CapRunning | CapFinished | CapFailed

fun capture_state_as_u64 :: "nc_capture_state \<Rightarrow> u64" where
  "capture_state_as_u64 CapIdle = 0"
| "capture_state_as_u64 CapRunning = 1"
| "capture_state_as_u64 CapFinished = 2"
| "capture_state_as_u64 CapFailed = 3"

datatype nc_analytics_state = AnOff | AnConnecting | AnConnected

fun analytics_state_as_u64 :: "nc_analytics_state \<Rightarrow> u64" where
  "analytics_state_as_u64 AnOff = 0"
| "analytics_state_as_u64 AnConnecting = 1"
| "analytics_state_as_u64 AnConnected = 2"

datatype nc_scenario = NcMixed | NcPortScan | NcDnsTunnel

fun nc_scenario_as_u32 :: "nc_scenario \<Rightarrow> u32" where
  "nc_scenario_as_u32 NcMixed = 0"
| "nc_scenario_as_u32 NcPortScan = 1"
| "nc_scenario_as_u32 NcDnsTunnel = 2"

section \<open>Structures\<close>

record nc_config =
  nc_max_flows :: u32
  nc_flow_idle_timeout_ms :: u32
  nc_top_n :: u32
  nc_snaplen :: u32
  nc_link_type :: u32

definition nc_config_default :: nc_config where
  "nc_config_default =
     \<lparr>nc_max_flows = 0, nc_flow_idle_timeout_ms = 0, nc_top_n = 0, nc_snaplen = 0, nc_link_type = 0\<rparr>"

record nc_stats =
  ns_packets :: u64
  ns_bytes :: u64
  ns_ipv4 :: u64
  ns_ipv6 :: u64
  ns_tcp :: u64
  ns_udp :: u64
  ns_icmp :: u64
  ns_other_l4 :: u64
  ns_non_ip :: u64
  ns_fragments :: u64
  ns_dns :: u64
  ns_dns_errors :: u64
  ns_parse_errors :: u64
  ns_active_flows :: u64
  ns_evicted_flows :: u64
  ns_expired_flows :: u64
  ns_last_ts_us :: u64
  ns_capture_dropped :: u64
  ns_alerts_total :: u64
  ns_alerts_dropped :: u64
  ns_capture_state :: u64
  ns_rules_loaded :: u64
  ns_analytics_state :: u64
  ns_analytics_sent :: u64
  ns_analytics_dropped :: u64

definition nc_stats_from_counters :: "counters \<Rightarrow> nc_stats" where
  "nc_stats_from_counters c =
     \<lparr>ns_packets = ct_packets c, ns_bytes = ct_bytes c, ns_ipv4 = ct_ipv4 c, ns_ipv6 = ct_ipv6 c,
      ns_tcp = ct_tcp c, ns_udp = ct_udp c, ns_icmp = ct_icmp c, ns_other_l4 = ct_other_l4 c,
      ns_non_ip = ct_non_ip c, ns_fragments = ct_fragments c, ns_dns = ct_dns c,
      ns_dns_errors = ct_dns_errors c, ns_parse_errors = ct_parse_errors c,
      ns_active_flows = 0, ns_evicted_flows = 0, ns_expired_flows = 0, ns_last_ts_us = 0,
      ns_capture_dropped = 0, ns_alerts_total = 0, ns_alerts_dropped = 0, ns_capture_state = 0,
      ns_rules_loaded = 0, ns_analytics_state = 0, ns_analytics_sent = 0, ns_analytics_dropped = 0\<rparr>"

record nc_flow =
  nf_a_addr :: bytes
  nf_b_addr :: bytes
  nf_a_port :: u16
  nf_b_port :: u16
  nf_proto :: u8
  nf_family :: u8
  nf_tcp_flags :: u8
  nf_reserved :: u8
  nf_packets_ab :: u64
  nf_packets_ba :: u64
  nf_bytes_ab :: u64
  nf_bytes_ba :: u64
  nf_first_seen_us :: u64
  nf_last_seen_us :: u64

text \<open>\<open>out[..4].copy_from_slice\<close> into sixteen zeros.\<close>

fun addr_bytes :: "ip_addr \<Rightarrow> bytes \<times> u8" where
  "addr_bytes (V4 os) = (os @ replicate (NC_ADDR_LEN - 4) 0, NC_FAMILY_IPV4)"
| "addr_bytes (V6 os) = (os, NC_FAMILY_IPV6)"

definition nc_flow_new :: "flow_key \<Rightarrow> flow_stats \<Rightarrow> nc_flow" where
  "nc_flow_new key stats =
     (let (a_addr, family) = addr_bytes (ep_addr (fk_a key)); (b_addr, _) = addr_bytes (ep_addr (fk_b key)) in
      \<lparr>nf_a_addr = a_addr, nf_b_addr = b_addr, nf_a_port = ep_port (fk_a key), nf_b_port = ep_port (fk_b key),
       nf_proto = fk_proto key, nf_family = family, nf_tcp_flags = fs_tcp_flags stats, nf_reserved = 0,
       nf_packets_ab = fst (fs_packets stats), nf_packets_ba = snd (fs_packets stats),
       nf_bytes_ab = fst (fs_bytes stats), nf_bytes_ba = snd (fs_bytes stats),
       nf_first_seen_us = first_seen_us stats, nf_last_seen_us = last_seen_us stats\<rparr>)"

section \<open>Strings in buffers\<close>

text \<open>
  \<open>str::is_char_boundary\<close>: the start, the end, or before a byte that does not continue a character.
  \<open>char_boundary\<close> is the \<open>while\<close> of \<open>write_cstr\<close>: it walks back to a boundary.
\<close>

definition continuation :: "u8 \<Rightarrow> bool" where
  "continuation b \<longleftrightarrow> 128 \<le> unat b \<and> unat b < 192"

definition is_char_boundary :: "bytes \<Rightarrow> usize \<Rightarrow> bool" where
  "is_char_boundary s n \<longleftrightarrow> n = 0 \<or> n = length s \<or> n < length s \<and> \<not> continuation (s ! n)"

fun char_boundary :: "bytes \<Rightarrow> usize \<Rightarrow> usize" where
  "char_boundary s 0 = 0"
| "char_boundary s (Suc n) = (if is_char_boundary s (Suc n) then Suc n else char_boundary s n)"

definition write_cstr :: "bytes \<Rightarrow> bytes \<Rightarrow> bytes" where
  "write_cstr dst s =
     (if dst = [] then dst
      else let n = char_boundary s (min (length s) (length dst - 1))
        in take n s @ replicate (length dst - n) 0)"

fun alert_source_as_u32 :: "alert_source \<Rightarrow> u32" where
  "alert_source_as_u32 SourceRule = 0"
| "alert_source_as_u32 SourceAnomaly = 1"

record nc_alert =
  na_ts_us :: u64
  na_score :: f64
  na_severity :: u32
  na_source :: u32
  na_src_addr :: bytes
  na_family :: u8
  na_reserved :: bytes
  na_rule_id :: bytes
  na_message :: bytes

definition str_bytes :: "string \<Rightarrow> bytes" where
  "str_bytes s = map of_char s"

definition nc_alert_new :: "alert \<Rightarrow> nc_alert" where
  "nc_alert_new a =
     (let (src_addr, family) =
            (case map_option addr_bytes (al_src a) of Some p \<Rightarrow> p | None \<Rightarrow> (replicate NC_ADDR_LEN 0, 0)) in
      \<lparr>na_ts_us = al_ts_us a, na_score = al_score a, na_severity = severity_as_u32 (al_severity a),
       na_source = alert_source_as_u32 (al_source a), na_src_addr = src_addr, na_family = family,
       na_reserved = replicate 7 0,
       na_rule_id = write_cstr (replicate NC_RULE_ID_LEN 0) (str_bytes (al_rule_id a)),
       na_message = write_cstr (replicate NC_MESSAGE_LEN 0) (str_bytes (al_message a))\<rparr>)"

record nc_device =
  nd_name :: bytes
  nd_description :: bytes
  nd_flags :: u32

definition nc_device_new :: "string \<Rightarrow> string \<Rightarrow> u32 \<Rightarrow> nc_device" where
  "nc_device_new name description flags =
     \<lparr>nd_name = write_cstr (replicate NC_DEVICE_NAME_LEN 0) (str_bytes name),
      nd_description = write_cstr (replicate NC_DEVICE_NAME_LEN 0) (str_bytes description), nd_flags = flags\<rparr>"

record core_error =
  ce_status :: nc_status
  ce_message :: string

definition core_error_new :: "nc_status \<Rightarrow> string \<Rightarrow> core_error" where
  "core_error_new status message = \<lparr>ce_status = status, ce_message = message\<rparr>"

definition show_core_error :: "core_error \<Rightarrow> string" where
  "show_core_error e = show_status (ce_status e) @ '': '' @ ce_message e"

section \<open>A string in a buffer\<close>

lemma char_boundary_le: "char_boundary s n \<le> n"
  by (induction n) auto

lemma char_boundary_is: "is_char_boundary s (char_boundary s n)"
  by (induction n) (auto simp: is_char_boundary_def)

lemma char_boundary_max: "m \<le> n \<Longrightarrow> is_char_boundary s m \<Longrightarrow> m \<le> char_boundary s n"
  by (induction n) (auto simp: le_Suc_eq)

lemma write_cstr_length [simp]: "length (write_cstr dst s) = length dst"
proof (cases "dst = []")
  case False
  have "char_boundary s (min (length s) (length dst - 1)) \<le> min (length s) (length dst - 1)"
    by (rule char_boundary_le)
  then have "char_boundary s (min (length s) (length dst - 1)) \<le> length s"
    "char_boundary s (min (length s) (length dst - 1)) \<le> length dst" by linarith+
  with False show ?thesis by (simp add: write_cstr_def Let_def)
qed (simp add: write_cstr_def)

text \<open>A well-formed UTF-8 sequence of one character, by its first bytes.\<close>

fun utf8_char :: "bytes \<Rightarrow> bool" where
  "utf8_char [a] \<longleftrightarrow> unat a < 128"
| "utf8_char [a, b] \<longleftrightarrow> 194 \<le> unat a \<and> unat a < 224 \<and> continuation b"
| "utf8_char [a, b, c] \<longleftrightarrow> 224 \<le> unat a \<and> unat a < 240 \<and> continuation b \<and> continuation c \<and>
     (unat a = 224 \<longrightarrow> 160 \<le> unat b) \<and> (unat a = 237 \<longrightarrow> unat b < 160)"
| "utf8_char [a, b, c, d] \<longleftrightarrow> 240 \<le> unat a \<and> unat a < 245 \<and> continuation b \<and> continuation c \<and> continuation d \<and>
     (unat a = 240 \<longrightarrow> 144 \<le> unat b) \<and> (unat a = 244 \<longrightarrow> unat b < 144)"
| "utf8_char _ \<longleftrightarrow> False"

definition utf8 :: "bytes \<Rightarrow> bool" where
  "utf8 s \<longleftrightarrow> (\<exists>cs. list_all utf8_char cs \<and> s = concat cs)"

lemma utf8_char_head: "utf8_char c \<Longrightarrow> c \<noteq> [] \<and> \<not> continuation (hd c)"
  by (cases c rule: utf8_char.cases) (auto simp: continuation_def)

lemma utf8_char_tail: "utf8_char c \<Longrightarrow> 0 < i \<Longrightarrow> i < length c \<Longrightarrow> continuation (c ! i)"
  by (cases c rule: utf8_char.cases) (auto simp: less_Suc_eq nth_Cons split: nat.splits)

text \<open>A prefix that ends at a boundary is again a string.\<close>

lemma utf8_take:
  assumes "list_all utf8_char cs" and "n \<le> length (concat cs)" and "is_char_boundary (concat cs) n"
  shows "\<exists>ds. list_all utf8_char ds \<and> take n (concat cs) = concat ds"
  using assms
proof (induction cs arbitrary: n)
  case Nil
  then show ?case by (auto intro: exI [of _ "[]"])
next
  case (Cons c cs)
  have c: "utf8_char c" "list_all utf8_char cs" using Cons.prems(1) by auto
  consider "n = 0" | "0 < n" "n < length c" | "length c \<le> n" by linarith
  then show ?case
  proof cases
    case 1
    then show ?thesis by (auto intro: exI [of _ "[]"])
  next
    case 2
    then have "continuation (concat (c # cs) ! n)" using utf8_char_tail [OF c(1)] by (simp add: nth_append)
    with 2 Cons.prems(3) show ?thesis by (auto simp: is_char_boundary_def)
  next
    case 3
    have "is_char_boundary (concat cs) (n - length c)"
      using 3 Cons.prems(3) by (auto simp: is_char_boundary_def nth_append)
    moreover have "n - length c \<le> length (concat cs)" using Cons.prems(2) by simp
    ultimately obtain ds where "list_all utf8_char ds" "take (n - length c) (concat cs) = concat ds"
      using Cons.IH c(2) by blast
    with c(1) 3 show ?thesis by (intro exI [of _ "c # ds"]) simp
  qed
qed

text \<open>What C code reads from a buffer: the bytes before the first zero.\<close>

definition c_string :: "bytes \<Rightarrow> bytes" where
  "c_string buf = takeWhile (\<lambda>b. b \<noteq> 0) buf"

lemma c_string_written:
  assumes "0 < length dst" and "0 \<notin> set s"
  shows "c_string (write_cstr dst s) = take (char_boundary s (min (length s) (length dst - 1))) s"
proof -
  let ?n = "char_boundary s (min (length s) (length dst - 1))"
  have "?n \<le> length dst - 1" using char_boundary_le [of s "min (length s) (length dst - 1)"] by simp
  with assms(1) have "length dst - ?n \<noteq> 0" by linarith
  then obtain k where k: "length dst - ?n = Suc k" by (cases "length dst - ?n") auto
  have "\<forall>b \<in> set (take ?n s). b \<noteq> 0" using assms(2) in_set_takeD by metis
  then have "takeWhile (\<lambda>b. b \<noteq> 0) (take ?n s @ 0 # replicate k 0) = take ?n s" by simp
  with k show ?thesis using assms(1) by (auto simp: c_string_def write_cstr_def Let_def)
qed

lemma char_boundary_fits: "length s < n \<Longrightarrow> char_boundary s (min (length s) (n - 1)) = length s"
  using char_boundary_max [of "length s" "min (length s) (n - 1)" s] char_boundary_le [of s "min (length s) (n - 1)"]
  by (simp add: is_char_boundary_def)

section \<open>Flows there and back\<close>

text \<open>What a reader of an \<open>NcFlow\<close> makes of its addresses: as many octets as the family says.\<close>

definition addr_of :: "bytes \<Rightarrow> u8 \<Rightarrow> ip_addr" where
  "addr_of a family = (if family = NC_FAMILY_IPV4 then V4 (take 4 a) else V6 a)"

definition flow_of_nc :: "nc_flow \<Rightarrow> flow_key \<times> flow_stats" where
  "flow_of_nc f =
     (FlowKey (Endpoint (addr_of (nf_a_addr f) (nf_family f)) (nf_a_port f))
        (Endpoint (addr_of (nf_b_addr f) (nf_family f)) (nf_b_port f)) (nf_proto f),
      \<lparr>first_seen_us = nf_first_seen_us f, last_seen_us = nf_last_seen_us f,
       fs_packets = (nf_packets_ab f, nf_packets_ba f), fs_bytes = (nf_bytes_ab f, nf_bytes_ba f),
       fs_tcp_flags = nf_tcp_flags f\<rparr>)"

definition key_wf :: "flow_key \<Rightarrow> bool" where
  "key_wf k \<longleftrightarrow> ip_wf (ep_addr (fk_a k)) \<and> ip_wf (ep_addr (fk_b k)) \<and>
     is_ipv4 (ep_addr (fk_a k)) = is_ipv4 (ep_addr (fk_b k))"

lemma addr_of_bytes: "ip_wf a \<Longrightarrow> addr_of (fst (addr_bytes a)) (snd (addr_bytes a)) = a"
  by (cases a) (auto simp: addr_of_def nc_consts)

lemma addr_bytes_family: "snd (addr_bytes a) = (if is_ipv4 a then NC_FAMILY_IPV4 else NC_FAMILY_IPV6)"
  by (cases a) auto

lemma addr_bytes_length: "ip_wf a \<Longrightarrow> length (fst (addr_bytes a)) = 16"
  by (cases a) (auto simp: nc_consts)

lemma flow_of_nc_new:
  assumes "key_wf key"
  shows "flow_of_nc (nc_flow_new key stats) = (key, stats)"
proof -
  have "addr_of (fst (addr_bytes (ep_addr (fk_b key)))) (snd (addr_bytes (ep_addr (fk_a key)))) = ep_addr (fk_b key)"
    using assms addr_of_bytes [of "ep_addr (fk_b key)"] by (simp add: key_wf_def addr_bytes_family)
  then show ?thesis
    using assms addr_of_bytes [of "ep_addr (fk_a key)"]
    by (cases key) (simp add: key_wf_def nc_flow_new_def flow_of_nc_def case_prod_unfold Let_def)
qed

lemma nc_flow_addrs:
  "nf_a_addr (nc_flow_new key stats) = fst (addr_bytes (ep_addr (fk_a key)))"
  "nf_b_addr (nc_flow_new key stats) = fst (addr_bytes (ep_addr (fk_b key)))"
  by (simp_all add: nc_flow_new_def case_prod_unfold Let_def)

text \<open>The key of every packet's flow qualifies: both addresses are of the packet's IP version.\<close>

lemma flow_update_key_wf:
  assumes "packet_wf p" and "pk_ip p = Some ip"
  shows "key_wf (fu_key (flow_update_of p ip))"
proof -
  have "ip_header_wf ip" using assms by (simp add: packet_wf_def)
  then show ?thesis
    by (auto simp: flow_update_of_def canonical_def key_wf_def ip_header_wf_def Let_def case_prod_unfold)
qed

section \<open>Layout\<close>

text \<open>
  \<open>repr(C)\<close>: a field starts at the next multiple of its alignment, and the size is rounded up to
  the largest alignment.  A field is its size, its alignment and, for an array, its length.
\<close>

definition align_up :: "nat \<Rightarrow> nat \<Rightarrow> nat" where
  "align_up n a = (n + a - 1) div a * a"

fun offsets :: "nat \<Rightarrow> (nat \<times> nat) list \<Rightarrow> nat list" where
  "offsets pos [] = [pos]"
| "offsets pos ((w, k) # fs) = align_up pos w # offsets (align_up pos w + w * k) fs"

definition repr_c_size :: "(nat \<times> nat) list \<Rightarrow> nat" where
  "repr_c_size fs = align_up (List.last (offsets 0 fs)) (Max (insert 1 (fst ` set fs)))"

definition bytes_of_fields :: "(nat \<times> nat) list \<Rightarrow> nat" where
  "bytes_of_fields fs = sum_list (map (\<lambda>(size, k). size * k) fs)"

definition nc_config_layout :: "(nat \<times> nat) list" where
  "nc_config_layout = replicate 5 (4, 1)"

definition nc_stats_layout :: "(nat \<times> nat) list" where
  "nc_stats_layout = replicate 25 (8, 1)"

definition nc_flow_layout :: "(nat \<times> nat) list" where
  "nc_flow_layout = [(1, NC_ADDR_LEN), (1, NC_ADDR_LEN), (2, 1), (2, 1), (1, 1), (1, 1), (1, 1), (1, 1),
     (8, 1), (8, 1), (8, 1), (8, 1), (8, 1), (8, 1)]"

definition nc_alert_layout :: "(nat \<times> nat) list" where
  "nc_alert_layout = [(8, 1), (8, 1), (4, 1), (4, 1), (1, NC_ADDR_LEN), (1, 1), (1, 7), (1, NC_RULE_ID_LEN),
     (1, NC_MESSAGE_LEN)]"

definition nc_device_layout :: "(nat \<times> nat) list" where
  "nc_device_layout = [(1, NC_DEVICE_NAME_LEN), (1, NC_DEVICE_NAME_LEN), (4, 1)]"

section \<open>Properties\<close>

text \<open>C38. A string goes into a buffer whole or cut at a character: the buffer keeps its length; what C code
  reads from it is a prefix of the string, itself valid UTF-8, the longest prefix ending at a character
  that leaves room for the terminating zero, and the whole string when that fits.\<close>

theorem write_cstr_correct:
  assumes "utf8 s" and "0 \<notin> set s" and "0 < length dst"
  shows "length (write_cstr dst s) = length dst \<and>
    (\<exists>n. c_string (write_cstr dst s) = take n s \<and> n \<le> length s \<and> n < length dst \<and> utf8 (take n s) \<and>
       (length s < length dst \<longrightarrow> n = length s) \<and>
       (\<forall>m. m < length dst \<longrightarrow> m \<le> length s \<longrightarrow> is_char_boundary s m \<longrightarrow> m \<le> n))"
proof -
  let ?n = "char_boundary s (min (length s) (length dst - 1))"
  have n: "?n \<le> min (length s) (length dst - 1)" by (rule char_boundary_le)
  obtain cs where cs: "list_all utf8_char cs" "s = concat cs" using assms(1) by (auto simp: utf8_def)
  have "utf8 (take ?n s)"
    using utf8_take [of cs ?n] cs n char_boundary_is [of s] by (auto simp: utf8_def)
  moreover have "m \<le> ?n" if "m < length dst" "m \<le> length s" "is_char_boundary s m" for m
    using that by (intro char_boundary_max) auto
  moreover have "?n < length dst" using n assms(3) by linarith
  ultimately show ?thesis
    using n c_string_written [OF assms(3,2)] char_boundary_fits [of s "length dst"] by (auto intro!: exI [of _ ?n])
qed

lemma write_cstr_correct_witness:
  "c_string (write_cstr (replicate 3 0) [0x61, 0xC3, 0xBC]) = [0x61]"
proof -
  let ?s = "[0x61, 0xC3, 0xBC] :: bytes"
  have "utf8 ?s" unfolding utf8_def
    by (intro exI [of _ "[[0x61], [0xC3, 0xBC]]"]) (simp add: continuation_def)
  moreover have "0 \<notin> set ?s" by simp
  moreover have "0 < length (replicate 3 (0 :: u8))" by simp
  ultimately obtain n where n: "c_string (write_cstr (replicate 3 0) ?s) = take n ?s" "n < 3" "utf8 (take n ?s)"
    "\<forall>m. m < length (replicate 3 (0 :: u8)) \<longrightarrow> m \<le> length ?s \<longrightarrow> is_char_boundary ?s m \<longrightarrow> m \<le> n"
    using write_cstr_correct [of ?s "replicate 3 0"] by auto
  have "is_char_boundary ?s 1" by (simp add: is_char_boundary_def continuation_def)
  with n(4) have "1 \<le> n" by force
  moreover have "n \<noteq> 2"
  proof
    assume "n = 2"
    with n(3) obtain cs where "list_all utf8_char cs" "[0x61, 0xC3] = concat cs" by (auto simp: utf8_def)
    moreover from this obtain c cs' where "cs = c # cs'" by (cases cs) auto
    ultimately show False
      by (cases c rule: utf8_char.cases; cases cs'; cases "hd cs'" rule: utf8_char.cases)
        (auto simp: continuation_def dest!: utf8_char_head)
  qed
  ultimately have "n = 1" using n(2) by linarith
  with n(1) show ?thesis by simp
qed

text \<open>A flow crosses the interface without loss: from the \<open>NcFlow\<close> made of a key and its statistics the
  reader gets both back, for every key of two well-formed addresses of one version; and the key of
  every parsed packet's flow is one.\<close>

theorem nc_flow_round_trip:
  assumes "key_wf key"
  shows "flow_of_nc (nc_flow_new key stats) = (key, stats) \<and>
    length (nf_a_addr (nc_flow_new key stats)) = 16 \<and> length (nf_b_addr (nc_flow_new key stats)) = 16"
  using flow_of_nc_new [OF assms] assms by (simp add: nc_flow_addrs addr_bytes_length key_wf_def)

lemma nc_flow_round_trip_witness:
  "flow_of_nc (nc_flow_new (FlowKey (Endpoint (V4 [10, 0, 0, 1]) 80) (Endpoint (V4 [10, 0, 0, 2]) 4000) 6)
       \<lparr>first_seen_us = 1, last_seen_us = 2, fs_packets = (3, 4), fs_bytes = (5, 6), fs_tcp_flags = 7\<rparr>) =
     (FlowKey (Endpoint (V4 [10, 0, 0, 1]) 80) (Endpoint (V4 [10, 0, 0, 2]) 4000) 6,
      \<lparr>first_seen_us = 1, last_seen_us = 2, fs_packets = (3, 4), fs_bytes = (5, 6), fs_tcp_flags = 7\<rparr>)"
  by (rule conjunct1 [OF nc_flow_round_trip]) (simp add: key_wf_def)


end
