(* ===== verification/Analytics.thy ===== *)
theory Analytics
  imports Shared Link_Worker Ffi_Types "HOL-Library.Mapping"
begin

text \<open>
  \<open>core-ffi/src/analytics.rs\<close>: the exporter thread.  About once a second it sends the flows that
  changed to the analytics link and turns the scores that came back into alerts, at most one per
  host in fifteen seconds.
\<close>

section \<open>Constants\<close>

text \<open>Durations in milliseconds.\<close>

definition EXPORT_INTERVAL :: nat where "EXPORT_INTERVAL = 1000"
definition MAX_FLOWS_PER_BATCH :: usize where "MAX_FLOWS_PER_BATCH = 20000"
definition STOP_POLL :: nat where "STOP_POLL = 50"
definition HIGH_SEVERITY_MARGIN :: f64 where "HIGH_SEVERITY_MARGIN = f64_round (1 / 10)"
definition ANOMALY_RULE_ID :: string where "ANOMALY_RULE_ID = ''ml-anomaly''"
definition ANOMALY_COOLDOWN_US :: u64 where "ANOMALY_COOLDOWN_US = 15000000"
definition MAX_COOLDOWN_HOSTS :: usize where "MAX_COOLDOWN_HOSTS = 10000"

section \<open>One alert per host and cooldown\<close>

type_synonym cooldown = "(string, u64) mapping"  \<comment> \<open>\<open>last_alert_us\<close>\<close>

definition cooldown_admit :: "cooldown \<Rightarrow> string \<Rightarrow> u64 \<Rightarrow> cooldown \<times> bool" where
  "cooldown_admit c host ts =
     (if (case Mapping.lookup c host of
            Some l \<Rightarrow> ts \<ge> l \<and> ts - l < ANOMALY_COOLDOWN_US
          | None \<Rightarrow> False)
      then (c, False)
      else
        let c = (if Mapping.size c \<ge> MAX_COOLDOWN_HOSTS then Mapping.empty else c)
        in (Mapping.update host ts c, True))"

section \<open>Features\<close>

definition features :: "flow_key \<Rightarrow> flow_stats \<Rightarrow> flow_features" where
  "features key stats =
     (let client_is_b =
            (if ep_port (fk_b key) > ep_port (fk_a key) then True
             else if ep_port (fk_b key) < ep_port (fk_a key) then False
             else snd (fs_packets stats) > fst (fs_packets stats));
          (client, server, fwd, rev) =
            (if client_is_b then (fk_b key, fk_a key, BtoA, AtoB) else (fk_a key, fk_b key, AtoB, BtoA))
      in \<lparr>ff_src = show_ip (ep_addr client), ff_dst = show_ip (ep_addr server),
          ff_src_port = ucast (ep_port client), ff_dst_port = ucast (ep_port server),
          ff_proto = ucast (fk_proto key),
          ff_packets_fwd = at_dir fwd (fs_packets stats), ff_packets_rev = at_dir rev (fs_packets stats),
          ff_bytes_fwd = at_dir fwd (fs_bytes stats), ff_bytes_rev = at_dir rev (fs_bytes stats),
          ff_duration_us = duration_us stats, ff_tcp_flags = ucast (fs_tcp_flags stats),
          ff_last_seen_us = last_seen_us stats\<rparr>)"

section \<open>Addresses from text\<close>

text \<open>
  \<open>str::parse::<IpAddr>\<close>, after the parser of the standard library: numbers with a limit of digits,
  four of them with dots, or up to eight hexadecimal groups with one run of zeros as \<open>::\<close> and the last
  two groups possibly as an IPv4 address.  Each function gives its value and the rest of the text.
\<close>

definition hex_digit :: "nat \<Rightarrow> char \<Rightarrow> nat option" where
  "hex_digit radix c =
     (let n = of_char c :: nat;
          d = (if 48 \<le> n \<and> n \<le> 57 then n - 48
               else if 97 \<le> n \<and> n \<le> 102 then n - 87
               else if 65 \<le> n \<and> n \<le> 70 then n - 55 else 16)
      in if d < radix then Some d else None)"

fun read_digits :: "nat \<Rightarrow> string \<Rightarrow> nat list \<times> string" where
  "read_digits radix [] = ([], [])"
| "read_digits radix (c # cs) =
     (case hex_digit radix c of
        None \<Rightarrow> ([], c # cs)
      | Some d \<Rightarrow> (case read_digits radix cs of (ds, rest) \<Rightarrow> (d # ds, rest)))"

definition read_number :: "nat \<Rightarrow> nat \<Rightarrow> bool \<Rightarrow> nat \<Rightarrow> string \<Rightarrow> (nat \<times> string) option" where
  "read_number radix max_digits allow_zero_prefix limit s =
     (case read_digits radix s of (ds, rest) \<Rightarrow>
        let v = foldl (\<lambda>v d. v * radix + d) 0 ds in
        if ds = [] \<or> length ds > max_digits \<or> v \<ge> limit \<or>
           \<not> allow_zero_prefix \<and> length ds > 1 \<and> hd ds = 0
        then None else Some (v, rest))"

definition read_char :: "char \<Rightarrow> string \<Rightarrow> string option" where
  "read_char c s = (case s of x # rest \<Rightarrow> if x = c then Some rest else None | [] \<Rightarrow> None)"

text \<open>\<open>read_separator\<close>: the separator comes before every element but the first.\<close>

definition read_separator :: "char \<Rightarrow> nat \<Rightarrow> (string \<Rightarrow> ('a \<times> string) option) \<Rightarrow> string \<Rightarrow> ('a \<times> string) option" where
  "read_separator c i inner s =
     (case (if i > 0 then read_char c s else Some s) of None \<Rightarrow> None | Some s \<Rightarrow> inner s)"

fun read_octets :: "nat \<Rightarrow> nat \<Rightarrow> string \<Rightarrow> (bytes \<times> string) option" where
  "read_octets 0 i s = Some ([], s)"
| "read_octets (Suc n) i s =
     (case read_separator CHR ''.'' i (read_number 10 3 False 256) s of
        None \<Rightarrow> None
      | Some (v, s) \<Rightarrow>
          (case read_octets n (Suc i) s of None \<Rightarrow> None | Some (os, s) \<Rightarrow> Some (of_nat v # os, s)))"

definition read_ipv4_addr :: "string \<Rightarrow> (bytes \<times> string) option" where
  "read_ipv4_addr s = read_octets 4 0 s"

text \<open>\<open>read_groups\<close> with \<open>n\<close> groups left of \<open>i + n\<close>: the groups read, whether they end in an IPv4 address.\<close>

fun read_groups :: "nat \<Rightarrow> nat \<Rightarrow> string \<Rightarrow> u16 list \<times> bool \<times> string" where
  "read_groups 0 i s = ([], False, s)"
| "read_groups (Suc n) i s =
     (case (if n > 0 then read_separator CHR '':'' i read_ipv4_addr s else None) of
        Some (os, s) \<Rightarrow> ([from_be (take 2 os), from_be (drop 2 os)], True, s)
      | None \<Rightarrow>
          (case read_separator CHR '':'' i (read_number 16 4 True 65536) s of
             None \<Rightarrow> ([], False, s)
           | Some (g, s) \<Rightarrow> (case read_groups n (Suc i) s of (gs, v4, s) \<Rightarrow> (of_nat g # gs, v4, s))))"

definition octets_of :: "u16 list \<Rightarrow> bytes" where
  "octets_of gs = concat (map (to_be 2) gs)"

definition read_ipv6_addr :: "string \<Rightarrow> (bytes \<times> string) option" where
  "read_ipv6_addr s =
     (case read_groups 8 0 s of (head, head_v4, s) \<Rightarrow>
        if length head = 8 then Some (octets_of head, s)
        else if head_v4 then None
        else case read_char CHR '':'' s of None \<Rightarrow> None | Some s \<Rightarrow>
          case read_char CHR '':'' s of None \<Rightarrow> None | Some s \<Rightarrow>
            case read_groups (8 - (length head + 1)) 0 s of (tail, _, s) \<Rightarrow>
              Some (octets_of (head @ replicate (8 - length head - length tail) 0 @ tail), s))"

definition parse_ip_addr :: "string \<Rightarrow> ip_addr option" where
  "parse_ip_addr s =
     (case (case read_ipv4_addr s of
              Some (os, rest) \<Rightarrow> Some (V4 os, rest)
            | None \<Rightarrow> map_option (\<lambda>(os, rest). (V6 os, rest)) (read_ipv6_addr s)) of
        Some (a, []) \<Rightarrow> Some a
      | _ \<Rightarrow> None)"

section \<open>Alerts from scores\<close>

definition to_alert :: "anomaly_score \<Rightarrow> alert" where
  "to_alert s =
     \<lparr>al_ts_us = as_ts_us s, al_source = SourceAnomaly,
      al_severity = (if f64_le (f64_add (as_threshold s) HIGH_SEVERITY_MARGIN) (as_score s) then High else Medium),
      al_rule_id = ANOMALY_RULE_ID,
      al_message = as_host s @ '': anomaly score '' @ show_fixed 2 (as_score s) @ '' ('' @ as_reason s @ '')'',
      al_src = parse_ip_addr (as_host s), al_score = as_score s\<rparr>"

section \<open>The exporter\<close>

record exporter =
  ex_last_export_us :: u64
  ex_batch_id :: u64
  ex_cooldown :: cooldown

definition exporter_new :: exporter where
  "exporter_new = \<lparr>ex_last_export_us = 0, ex_batch_id = 0, ex_cooldown = Mapping.empty\<rparr>"

text \<open>The flows to send: those seen after \<open>since\<close>, the first of them up to the limit.\<close>

definition fresh_flows ::
  "('f, flow_key, flow_stats) lru_api \<Rightarrow> ('f, 'r) engine \<Rightarrow> u64 \<Rightarrow> (flow_key \<times> flow_stats) list" where
  "fresh_flows LF e since =
     take MAX_FLOWS_PER_BATCH (filter (\<lambda>(k, s). last_seen_us s > since) (flow_iter LF (en_flows e)))"

definition export ::
  "('f, flow_key, flow_stats) lru_api \<Rightarrow> ('f, 'r) shared \<Rightarrow> exporter \<Rightarrow> link \<Rightarrow> exporter \<times> link" where
  "export LF sh ex l =
     (if link_state_of l \<noteq> Connected then (ex, l)
      else
        let e = sh_engine sh;
            ex = (if en_last_ts_us e < ex_last_export_us ex then ex\<lparr>ex_last_export_us := 0\<rparr> else ex);
            flows = map (\<lambda>(k, s). features k s) (fresh_flows LF e (ex_last_export_us ex));
            window_end = en_last_ts_us e
        in if flows = [] then (ex, l)
           else
             let ex = ex\<lparr>ex_last_export_us := window_end, ex_batch_id := ex_batch_id ex + 1\<rparr>
             in (ex, fst (link_offer l \<lparr>fb_batch_id = ex_batch_id ex, fb_window_end_us = window_end, fb_flows = flows\<rparr>)))"

text \<open>The \<open>for\<close> over the scores, and one round of \<open>run\<close>.\<close>

fun raise_scores :: "anomaly_score list \<Rightarrow> cooldown \<Rightarrow> ('f, 'r) shared \<Rightarrow> cooldown \<times> ('f, 'r) shared" where
  "raise_scores [] c sh = (c, sh)"
| "raise_scores (s # ss) c sh =
     (case cooldown_admit c (as_host s) (as_ts_us s) of
        (c, admitted) \<Rightarrow> raise_scores ss c (if admitted then push_alert sh (to_alert s) else sh))"

definition exporter_round ::
  "('f, flow_key, flow_stats) lru_api \<Rightarrow> exporter \<times> ('f, 'r) shared \<times> link \<Rightarrow>
   exporter \<times> ('f, 'r) shared \<times> link" where
  "exporter_round LF = (\<lambda>(ex, sh, l).
     case export LF sh ex l of (ex, l) \<Rightarrow>
     case drain_scores l of (l, scores) \<Rightarrow>
     case raise_scores scores (ex_cooldown ex) sh of (c, sh) \<Rightarrow> (ex\<lparr>ex_cooldown := c\<rparr>, sh, l))"

text \<open>
  \<open>sleep_interval\<close>: the stop flag is polled; \<open>polls\<close> gives its value at each poll.  The result says
  whether to go on, and how many polls were made.
\<close>

function sleep_loop :: "(nat \<Rightarrow> bool) \<Rightarrow> nat \<Rightarrow> nat \<Rightarrow> bool \<times> nat" where
  "sleep_loop polls i waited =
     (if waited < EXPORT_INTERVAL then
        if polls i then (False, Suc i) else sleep_loop polls (Suc i) (waited + STOP_POLL)
      else (\<not> polls i, Suc i))"
  by pat_completeness auto
termination
  by (relation "measure (\<lambda>(polls, i, waited). EXPORT_INTERVAL - waited)") (auto simp: STOP_POLL_def)

declare sleep_loop.simps [simp del]

definition sleep_interval :: "(nat \<Rightarrow> bool) \<Rightarrow> nat \<Rightarrow> bool \<times> nat" where
  "sleep_interval polls i = sleep_loop polls i 0"

text \<open>
  \<open>run\<close>, for at most \<open>n\<close> rounds: \<open>others\<close> is what the other threads do to the shared state and the link
  while the exporter sleeps.
\<close>

fun exporter_run ::
  "('f, flow_key, flow_stats) lru_api \<Rightarrow> (nat \<Rightarrow> ('f, 'r) shared \<times> link \<Rightarrow> ('f, 'r) shared \<times> link) \<Rightarrow>
   (nat \<Rightarrow> bool) \<Rightarrow> nat \<Rightarrow> nat \<Rightarrow> exporter \<times> ('f, 'r) shared \<times> link \<Rightarrow>
   (exporter \<times> ('f, 'r) shared \<times> link) \<times> bool" where
  "exporter_run LF others polls i 0 st = (st, False)"
| "exporter_run LF others polls i (Suc n) st =
     (case sleep_interval polls i of
        (go_on, i) \<Rightarrow>
          (case st of (ex, sh, l) \<Rightarrow>
           case others n (sh, l) of (sh, l) \<Rightarrow>
             if go_on then exporter_run LF others polls i n (exporter_round LF (ex, sh, l))
             else ((ex, sh, l), True)))"

section \<open>Starting and dropping\<close>

record analytics =
  an_link :: link
  an_stop :: bool
  an_exporter :: "exporter option"

definition analytics_start ::
  "(string \<Rightarrow> (link_error, link) result) \<Rightarrow> (string, unit) result \<Rightarrow> string \<Rightarrow> (core_error, analytics) result" where
  "analytics_start start_link spawn endpoint =
     and_then (map_err (\<lambda>e. core_error_new StInvalidArg (show_link_error e)) (start_link endpoint)) (\<lambda>l.
     and_then (map_err (\<lambda>e. core_error_new StCapture (''cannot start exporter: '' @ e)) spawn) (\<lambda>_.
       Ok \<lparr>an_link = l, an_stop = False, an_exporter = Some exporter_new\<rparr>))"

definition analytics_drop :: "analytics \<Rightarrow> analytics" where
  "analytics_drop a =
     a\<lparr>an_stop := True, an_exporter := None, an_link := link_drop (an_link a)\<rparr>"

section \<open>The cooldown table\<close>

lemma mapping_size: "finite (Mapping.keys c) \<Longrightarrow> Mapping.size c = card (Mapping.keys c)"
  by (simp add: Mapping.size_def)

lemma admit_finite: "finite (Mapping.keys c) \<Longrightarrow> finite (Mapping.keys (fst (cooldown_admit c h ts)))"
  by (auto simp: cooldown_admit_def Let_def)

lemma admit_size: "finite (Mapping.keys c) \<Longrightarrow> Mapping.size c \<le> 10000 \<Longrightarrow> Mapping.size (fst (cooldown_admit c h ts)) \<le> 10000"
proof -
  assume f: "finite (Mapping.keys c)" and s: "Mapping.size c \<le> 10000"
  have "card (insert h (Mapping.keys c)) \<le> Suc (card (Mapping.keys c))" by (rule card_insert_le_m1 [of "Suc _", simplified]) simp
  with f s show ?thesis
    by (auto simp: cooldown_admit_def Let_def mapping_size MAX_COOLDOWN_HOSTS_def)
qed

text \<open>A history of calls, newest first, with what each was told.\<close>

type_synonym admissions = "(string \<times> u64 \<times> bool) list"

fun admit_call :: "cooldown \<times> admissions \<Rightarrow> string \<times> u64 \<Rightarrow> cooldown \<times> admissions" where
  "admit_call (c, hist) (host, ts) = (case cooldown_admit c host ts of (c, ok) \<Rightarrow> (c, (host, ts, ok) # hist))"

definition admit_calls :: "(string \<times> u64) list \<Rightarrow> cooldown \<times> admissions" where
  "admit_calls calls = foldl admit_call (Mapping.empty, []) calls"

fun last_admitted :: "string \<Rightarrow> admissions \<Rightarrow> u64 option" where
  "last_admitted host [] = None"
| "last_admitted host ((h, ts, ok) # hist) = (if h = host \<and> ok then Some ts else last_admitted host hist)"

definition within_cooldown :: "u64 option \<Rightarrow> u64 \<Rightarrow> bool" where
  "within_cooldown before ts \<longleftrightarrow>
     (case before of None \<Rightarrow> False | Some l \<Rightarrow> l \<le> ts \<and> unat ts < unat l + 15000000)"

lemma admitted_iff: "snd (cooldown_admit c h ts) \<longleftrightarrow> \<not> within_cooldown (Mapping.lookup c h) ts"
proof (cases "Mapping.lookup c h")
  case (Some l)
  have "ts - l < 15000000 \<longleftrightarrow> unat ts < unat l + 15000000" if "l \<le> ts"
    using that by (auto simp: word_less_nat_alt unat_sub word_le_nat_alt)
  then show ?thesis by (auto simp: cooldown_admit_def within_cooldown_def Some ANOMALY_COOLDOWN_US_def Let_def)
qed (simp add: cooldown_admit_def within_cooldown_def Let_def)

lemma admit_lookup:
  assumes "finite (Mapping.keys c)" and "card (Mapping.keys c) < 10000"
  shows "Mapping.lookup (fst (cooldown_admit c h ts)) h' =
    (if h' = h \<and> snd (cooldown_admit c h ts) then Some ts else Mapping.lookup c h')"
  using assms by (auto simp: cooldown_admit_def Let_def mapping_size MAX_COOLDOWN_HOSTS_def lookup_update lookup_update_neq)

lemma admit_keys: "Mapping.keys (fst (cooldown_admit c h ts)) \<subseteq> insert h (Mapping.keys c)"
  by (auto simp: cooldown_admit_def Let_def)

lemma admit_calls_snoc:
  "admit_calls (calls @ [(h, ts)]) =
     (fst (cooldown_admit (fst (admit_calls calls)) h ts),
      (h, ts, snd (cooldown_admit (fst (admit_calls calls)) h ts)) # snd (admit_calls calls))"
  by (cases "admit_calls calls") (simp add: admit_calls_def case_prod_unfold)

lemma admit_calls_inv:
  "finite (Mapping.keys (fst (admit_calls calls))) \<and> Mapping.size (fst (admit_calls calls)) \<le> 10000 \<and>
   Mapping.keys (fst (admit_calls calls)) \<subseteq> fst ` set calls"
proof (induction calls rule: rev_induct)
  case Nil
  then show ?case by (simp add: admit_calls_def mapping_size)
next
  case (snoc x calls)
  obtain h ts where x: "x = (h, ts)" by force
  show ?case unfolding x admit_calls_snoc
    using snoc admit_finite admit_size admit_keys [of "fst (admit_calls calls)" h ts] by fastforce
qed

lemma admit_calls_lookup:
  assumes "card (fst ` set calls) < 10000"
  shows "Mapping.lookup (fst (admit_calls calls)) h = last_admitted h (snd (admit_calls calls))"
  using assms
proof (induction calls arbitrary: h rule: rev_induct)
  case Nil
  then show ?case by (simp add: admit_calls_def)
next
  case (snoc x calls)
  obtain h' ts where x: "x = (h', ts)" by force
  have "card (fst ` set calls) \<le> card (fst ` set (calls @ [x]))" by (rule card_mono) auto
  then have c: "card (fst ` set calls) < 10000" using snoc.prems by linarith
  have "card (Mapping.keys (fst (admit_calls calls))) \<le> card (fst ` set calls)"
    using admit_calls_inv [of calls] by (intro card_mono) auto
  with c have "card (Mapping.keys (fst (admit_calls calls))) < 10000" by linarith
  with snoc.IH [OF c] show ?case
    unfolding x admit_calls_snoc using admit_calls_inv [of calls] by (auto simp: admit_lookup)
qed

section \<open>Sleeping and stopping\<close>

lemma sleep_loop_spec:
  assumes "waited = 1000 - 50 * k" and "k \<le> 20"
  shows "sleep_loop polls i waited =
    (case List.find polls [i..<Suc (i + k)] of Some j \<Rightarrow> (False, Suc j) | None \<Rightarrow> (True, Suc (i + k)))"
  using assms
proof (induction k arbitrary: i waited)
  case 0
  then show ?case by (subst sleep_loop.simps) (simp add: EXPORT_INTERVAL_def)
next
  case (Suc k)
  have "[i..<Suc (i + Suc k)] = i # [Suc i..<Suc (Suc i + k)]" by (simp add: upt_conv_Cons del: upt_Suc)
  moreover have "waited < EXPORT_INTERVAL" using Suc.prems by (simp add: EXPORT_INTERVAL_def)
  moreover have "waited + STOP_POLL = 1000 - 50 * k" using Suc.prems by (simp add: STOP_POLL_def)
  moreover have "sleep_loop polls (Suc i) (waited + STOP_POLL) =
      (case List.find polls [Suc i..<Suc (Suc i + k)] of Some j \<Rightarrow> (False, Suc j) | None \<Rightarrow> (True, Suc (Suc i + k)))"
    using Suc.IH [OF calculation(3)] Suc.prems by simp
  ultimately show ?case
    by (cases "polls i") (subst sleep_loop.simps, simp del: upt_Suc split: option.split)+
qed

lemma sleep_interval_spec:
  "sleep_interval polls i =
     (case List.find polls [i..<i + 21] of Some j \<Rightarrow> (False, Suc j) | None \<Rightarrow> (True, i + 21))"
proof -
  have "sleep_loop polls i 0 =
      (case List.find polls [i..<Suc (i + 20)] of Some j \<Rightarrow> (False, Suc j) | None \<Rightarrow> (True, Suc (i + 20)))"
    by (rule sleep_loop_spec) simp_all
  moreover have "Suc (i + 20) = i + 21" by simp
  ultimately show ?thesis unfolding sleep_interval_def by (simp only:)
qed

lemma exporter_run_stops:
  "(\<forall>j. t \<le> j \<longrightarrow> polls j) \<Longrightarrow> 0 < n \<Longrightarrow> t < i + 21 * n \<Longrightarrow> snd (exporter_run LF others polls i n st)"
proof (induction n arbitrary: i st)
  case (Suc n)
  obtain ex sh l where st: "st = (ex, sh, l)" by (cases st)
  obtain sh1 l1 where o: "others n (sh, l) = (sh1, l1)" by (metis surj_pair)
  show ?case
  proof (cases "List.find polls [i..<i + 21]")
    case None
    then have none: "\<not> polls j" if "i \<le> j" "j < i + 21" for j using that by (auto simp: find_None_iff)
    have "i + 20 < t"
    proof (rule ccontr)
      assume "\<not> i + 20 < t"
      then have "polls (i + 20)" using Suc.prems(1) by simp
      then show False using none [of "i + 20"] by simp
    qed
    then have "0 < n" "t < (i + 21) + 21 * n" using Suc.prems(3) by (cases n, auto)
    then show ?thesis
      using Suc.IH [OF Suc.prems(1), of "i + 21" "exporter_round LF (ex, sh1, l1)"] None
      by (simp add: st o sleep_interval_spec del: upt_Suc)
  next
    case (Some j)
    then show ?thesis by (simp add: st o sleep_interval_spec del: upt_Suc)
  qed
qed simp

section \<open>Addresses read back\<close>

lemma read_digits_append:
  "read_digits radix s = (ds, []) \<Longrightarrow> rest = [] \<or> hex_digit radix (hd rest) = None \<Longrightarrow>
   read_digits radix (s @ rest) = (ds, rest)"
proof (induction s arbitrary: ds)
  case Nil
  then show ?case by (cases rest) auto
next
  case (Cons c s)
  then show ?case by (auto split: option.splits prod.splits)
qed

lemma read_number_append:
  "read_number radix m z limit s = Some (v, []) \<Longrightarrow> rest = [] \<or> hex_digit radix (hd rest) = None \<Longrightarrow>
   read_number radix m z limit (s @ rest) = Some (v, rest)"
  using read_digits_append [of radix s _ rest]
  by (auto simp: read_number_def Let_def split: prod.splits if_splits)

lemma hex_digit_char: "d < 10 \<Longrightarrow> hex_digit 10 (digit_char d) = Some d"
  by (simp add: hex_digit_def digit_char_def Let_def)

lemma show_nat_small:
  "n < 1000 \<Longrightarrow>
   show_nat n =
     (if n < 10 then [digit_char n]
      else if n < 100 then [digit_char (n div 10), digit_char (n mod 10)]
      else [digit_char (n div 100), digit_char (n div 10 mod 10), digit_char (n mod 10)])"
proof -
  assume n: "n < 1000"
  then have "n div 10 < 100" by linarith
  then have "n div 10 div 10 < 10" by linarith
  moreover have "n div 10 div 10 = n div 100" by (simp add: div_mult2_eq [symmetric])
  moreover have "n div 10 < 10 \<longleftrightarrow> n < 100" by linarith
  ultimately show ?thesis
    unfolding show_nat_def
    by (simp add: show_base.simps [of 10 n] show_base.simps [of 10 "n div 10"] show_base.simps [of 10 "n div 100"])
qed

lemma read_octet: "n < 256 \<Longrightarrow> read_number 10 3 False 256 (show_nat n) = Some (n, [])"
proof -
  assume n: "n < 256"
  consider "n < 10" | "10 \<le> n" "n < 100" | "100 \<le> n" by linarith
  then show ?thesis
  proof cases
    case 1
    then show ?thesis by (simp add: show_nat_small read_number_def hex_digit_char)
  next
    case 2
    then have "n div 10 < 10" "n div 10 \<noteq> 0" "n div 10 * 10 + n mod 10 = n" by simp_all
    with 2 n show ?thesis by (simp add: show_nat_small read_number_def hex_digit_char Let_def)
  next
    case 3
    with n have "n div 100 < 10" "n div 100 \<noteq> 0" by (auto simp: div_eq_0_iff)
    moreover have "(n div 100 * 10 + n div 10 mod 10) * 10 + n mod 10 = n"
    proof -
      have "n div 10 div 10 * 10 + n div 10 mod 10 = n div 10" by simp
      moreover have "n div 10 div 10 = n div 100" by (simp add: div_mult2_eq [symmetric])
      ultimately show ?thesis by simp
    qed
    ultimately show ?thesis using 3 n by (simp add: show_nat_small read_number_def hex_digit_char Let_def)
  qed
qed

lemma parse_show_ipv4: "length os = 4 \<Longrightarrow> parse_ip_addr (show_ip (V4 os)) = Some (V4 os)"
proof -
  assume "length os = 4"
  then obtain a b c d where os: "os = [a, b, c, d]" by (auto simp: length_Suc_conv eval_nat_numeral)
  have n: "read_number 10 3 False 256 (show_nat (unat x) @ rest) = Some (unat x, rest)"
    if "rest = [] \<or> hd rest = CHR ''.''" for x :: u8 and rest
    using that by (intro read_number_append read_octet unat_u8) (auto simp: hex_digit_def)
  have four: "(4 :: nat) = Suc (Suc (Suc (Suc 0)))" by simp
  have "read_ipv4_addr (show_ip (V4 os)) = Some (os, [])"
    using n [of "[]" d] unfolding read_ipv4_addr_def four
    by (simp add: os show_ipv4_def read_separator_def read_char_def n)
  then show ?thesis by (simp add: parse_ip_addr_def)
qed

section \<open>What an export sends\<close>

definition export_since :: "('f, 'r) shared \<Rightarrow> exporter \<Rightarrow> u64" where
  "export_since sh ex =
     (if en_last_ts_us (sh_engine sh) < ex_last_export_us ex then 0 else ex_last_export_us ex)"

definition export_batch :: "('f, flow_key, flow_stats) lru_api \<Rightarrow> ('f, 'r) shared \<Rightarrow> exporter \<Rightarrow> flow_batch" where
  "export_batch LF sh ex =
     \<lparr>fb_batch_id = ex_batch_id ex + 1, fb_window_end_us = en_last_ts_us (sh_engine sh),
      fb_flows = map (\<lambda>(k, s). features k s) (fresh_flows LF (sh_engine sh) (export_since sh ex))\<rparr>"

lemma export_sends:
  "link_state_of l = Connected \<Longrightarrow> fresh_flows LF (sh_engine sh) (export_since sh ex) \<noteq> [] \<Longrightarrow>
   export LF sh ex l =
     (ex\<lparr>ex_last_export_us := en_last_ts_us (sh_engine sh), ex_batch_id := ex_batch_id ex + 1\<rparr>,
      fst (link_offer l (export_batch LF sh ex)))"
  by (auto simp: export_def export_since_def export_batch_def Let_def)

lemma export_idle:
  "link_state_of l \<noteq> Connected \<or> fresh_flows LF (sh_engine sh) (export_since sh ex) = [] \<Longrightarrow>
   snd (export LF sh ex l) = l \<and> ex_batch_id (fst (export LF sh ex l)) = ex_batch_id ex"
  by (auto simp: export_def export_since_def Let_def)

lemma fresh_flows_spec:
  "length (fresh_flows LF e since) \<le> 20000"
  "(k, s) \<in> set (fresh_flows LF e since) \<Longrightarrow> (k, s) \<in> set (flow_iter LF (en_flows e)) \<and> since < last_seen_us s"
  "length (flow_iter LF (en_flows e)) \<le> 20000 \<Longrightarrow>
   set (fresh_flows LF e since) = {(k, s). (k, s) \<in> set (flow_iter LF (en_flows e)) \<and> since < last_seen_us s}"
proof -
  show "length (fresh_flows LF e since) \<le> 20000" by (simp add: fresh_flows_def MAX_FLOWS_PER_BATCH_def)
  show "(k, s) \<in> set (fresh_flows LF e since) \<Longrightarrow> (k, s) \<in> set (flow_iter LF (en_flows e)) \<and> since < last_seen_us s"
    by (auto simp: fresh_flows_def dest!: in_set_takeD)
  assume "length (flow_iter LF (en_flows e)) \<le> 20000"
  then have "length (filter (\<lambda>(k, s). since < last_seen_us s) (flow_iter LF (en_flows e))) \<le> 20000"
    using length_filter_le [of _ "flow_iter LF (en_flows e)"] order_trans by blast
  then show "set (fresh_flows LF e since) = {(k, s). (k, s) \<in> set (flow_iter LF (en_flows e)) \<and> since < last_seen_us s}"
    by (auto simp: fresh_flows_def MAX_FLOWS_PER_BATCH_def)
qed

text \<open>
  The limit drops what is beyond it: a flow that did not fit and was not seen after the clock of that
  export is in no later one, as \<open>last_export_us\<close> has moved to that clock.
\<close>

lemma export_skips_rest:
  assumes "link_state_of l = Connected" and "fresh_flows LF (sh_engine sh) (export_since sh ex) \<noteq> []"
    and "export LF sh ex l = (ex', l')" and "last_seen_us s \<le> en_last_ts_us (sh_engine sh)"
    and "en_last_ts_us (sh_engine sh) \<le> en_last_ts_us (sh_engine sh')"
  shows "(k, s) \<notin> set (fresh_flows LF (sh_engine sh') (export_since sh' ex'))"
proof
  assume "(k, s) \<in> set (fresh_flows LF (sh_engine sh') (export_since sh' ex'))"
  then have "export_since sh' ex' < last_seen_us s" by (rule fresh_flows_spec(2) [THEN conjunct2])
  moreover have "ex_last_export_us ex' = en_last_ts_us (sh_engine sh)"
    using export_sends [OF assms(1,2)] assms(3) by auto
  moreover have "\<not> en_last_ts_us (sh_engine sh') < en_last_ts_us (sh_engine sh)" using assms(5) by (rule leD)
  ultimately have "en_last_ts_us (sh_engine sh) < last_seen_us s" by (simp add: export_since_def)
  with assms(4) show False by (simp add: leD)
qed

text \<open>The link is used as \<open>Link_Worker\<close> has it: an undisturbed round is steps of the link.\<close>

lemma exporter_round_link:
  assumes "exporter_round LF (ex, sh, l) = (ex', sh', l')"
    and "offering l = None" and "\<not> ln_closed l" and "link_inv l"
  shows "link_steps l l'"
proof -
  let ?l1 = "snd (export LF sh ex l)"
  have "l' = ?l1\<lparr>ln_scores := []\<rparr>"
    using assms(1) by (auto simp: exporter_round_def drain_scores_def split: prod.splits)
  moreover have "link_steps l ?l1"
  proof (cases "link_state_of l \<noteq> Connected \<or> fresh_flows LF (sh_engine sh) (export_since sh ex) = []")
    case True
    then show ?thesis using export_idle by (metis rtranclp.rtrancl_refl)
  next
    case False
    then show ?thesis using export_sends [of l LF sh ex] link_offer_steps [OF assms(2-4)] by simp
  qed
  ultimately show ?thesis using link_step.drain by (metis rtranclp.rtrancl_into_rtrancl)
qed

section \<open>Properties\<close>


definition idle_shared ::
  "((flow_key, flow_stats) list_lru, (ip_addr, source_state) list_lru) shared" where
  "idle_shared = \<lparr>sh_engine = engine_new list_lru_api engine_config_default, sh_alerts = [], sh_alerts_total = 0,
     sh_alerts_dropped = 0\<rparr>"


text \<open>C36. A host raises at most one anomaly alert per cooldown: whatever the calls, the table has at most
  10,000 hosts; and while fewer than 10,000 have been seen, a score is admitted exactly when the last
  admitted score of its host is not within the 15 seconds before it (or there is none, or time went back).\<close>

theorem cooldown_admits:
  "Mapping.size (fst (admit_calls calls)) \<le> 10000 \<and>
   (card (fst ` set calls) < 10000 \<longrightarrow>
    (snd (cooldown_admit (fst (admit_calls calls)) host ts) \<longleftrightarrow>
     (case last_admitted host (snd (admit_calls calls)) of
        None \<Rightarrow> True
      | Some l \<Rightarrow> \<not> (l \<le> ts \<and> unat ts < unat l + 15000000))))"
  using admit_calls_inv [of calls] admit_calls_lookup [of calls host]
  by (auto simp: admitted_iff within_cooldown_def split: option.splits)

lemma cooldown_admits_witness:
  "\<not> snd (cooldown_admit (fst (admit_calls [(''a'', 1)])) ''a'' 15000000) \<and>
   snd (cooldown_admit (fst (admit_calls [(''a'', 1)])) ''a'' 15000001)"
proof -
  have "snd (admit_calls [(''a'', 1)]) = [(''a'', 1, True)]"
    by (simp add: admit_calls_def cooldown_admit_def Let_def)
  then show ?thesis
    using cooldown_admits [of "[(''a'', 1)]" "''a''" 15000000] cooldown_admits [of "[(''a'', 1)]" "''a''" 15000001]
    by simp
qed

text \<open>C37. The features of a flow are told from its client's side: source and destination are the two ends of
  the flow, the source the one with the higher port, or with equal ports the one that sent at least as
  many packets; the forward counters count what the source sent, the reverse counters what the
  destination sent; and an IPv4 source reads back from its text.\<close>

theorem features_oriented:
  "\<exists>client server d.
     (client, server, d) \<in> {(fk_a key, fk_b key, AtoB), (fk_b key, fk_a key, BtoA)} \<and>
     ep_port server \<le> ep_port client \<and>
     (ep_port server = ep_port client \<longrightarrow> at_dir (flip d) (fs_packets stats) \<le> at_dir d (fs_packets stats)) \<and>
     ff_src (features key stats) = show_ip (ep_addr client) \<and> ff_dst (features key stats) = show_ip (ep_addr server) \<and>
     unat (ff_src_port (features key stats)) = unat (ep_port client) \<and>
     unat (ff_dst_port (features key stats)) = unat (ep_port server) \<and>
     ff_packets_fwd (features key stats) = at_dir d (fs_packets stats) \<and>
     ff_packets_rev (features key stats) = at_dir (flip d) (fs_packets stats) \<and>
     ff_bytes_fwd (features key stats) = at_dir d (fs_bytes stats) \<and>
     ff_bytes_rev (features key stats) = at_dir (flip d) (fs_bytes stats) \<and>
     (case ep_addr client of
        V4 os \<Rightarrow> length os = 4 \<longrightarrow> parse_ip_addr (ff_src (features key stats)) = Some (V4 os)
      | V6 os \<Rightarrow> True)"
proof -
  have u: "unat (ucast p :: u32) = unat p" for p :: u16
    using unat_u16 [of p] by (simp add: unsigned_ucast_eq take_bit_nat_eq_self)
  let ?b = "ep_port (fk_b key) > ep_port (fk_a key) \<or>
    ep_port (fk_b key) = ep_port (fk_a key) \<and> snd (fs_packets stats) > fst (fs_packets stats)"
  let ?r = "if ?b then (fk_b key, fk_a key, BtoA) else (fk_a key, fk_b key, AtoB)"
  show ?thesis
    by (intro exI [of _ "fst ?r"] exI [of _ "fst (snd ?r)"] exI [of _ "snd (snd ?r)"])
      (auto simp: features_def Let_def u parse_show_ipv4 simp del: show_ip.simps split: ip_addr.splits)
qed

lemma features_oriented_witness:
  "\<exists>client server. {client, server} = {Endpoint (V4 [10, 0, 0, 5]) 22, Endpoint (V4 [10, 0, 0, 66]) 49152} \<and>
     ep_port server \<le> ep_port client \<and>
     ff_src (features (FlowKey (Endpoint (V4 [10, 0, 0, 5]) 22) (Endpoint (V4 [10, 0, 0, 66]) 49152) 6)
       \<lparr>first_seen_us = 0, last_seen_us = 0, fs_packets = (3, 1), fs_bytes = (300, 60), fs_tcp_flags = 2\<rparr>) =
       show_ip (ep_addr client)"
  using features_oriented [of "FlowKey (Endpoint (V4 [10, 0, 0, 5]) 22) (Endpoint (V4 [10, 0, 0, 66]) 49152) 6"
      "\<lparr>first_seen_us = 0, last_seen_us = 0, fs_packets = (3, 1), fs_bytes = (300, 60), fs_tcp_flags = 2\<rparr>"]
  by (auto simp del: show_ip.simps)

text \<open>C34. The exporter thread ends after a stop is requested: if the flag is set from the \<open>t\<close>-th poll on, \<open>run\<close>
  returns within \<open>t div 21 + 1\<close> rounds, whatever the other threads do meanwhile (a round polls at most 21
  times, every 50 ms).  So the join in \<open>Drop\<close> returns.\<close>

theorem exporter_stops:
  assumes "\<forall>j. t \<le> j \<longrightarrow> polls j"
  shows "snd (exporter_run LF others polls 0 (t div 21 + 1) st)"
  by (rule exporter_run_stops [OF assms]) presburger+

lemma exporter_stops_witness:
  "snd (exporter_run list_lru_api (\<lambda>n s. s) (\<lambda>j. 30 \<le> j) 0 2 (exporter_new, idle_shared, link_new))"
  using exporter_stops [of 30 "\<lambda>j. 30 \<le> j" list_lru_api "\<lambda>n s. s" "(exporter_new, idle_shared, link_new)"]
  by (simp add: numeral_2_eq_2)

end
