(* ===== verification/Sniffer.thy ===== *)
theory Sniffer
  imports Ffi_Types
begin

text \<open>
  \<open>core-ffi/src/sniffer.rs\<close>: the safe wrapper of the C capture library.  The library is the
  parameter \<open>C\<close>, a record of its functions over a state \<open>'w\<close> of its own (a handle is a number, a null
  pointer is \<open>None\<close>, a buffer the function fills is part of its result).
\<close>

section \<open>Lossy UTF-8\<close>

text \<open>
  \<open>String::from_utf8_lossy\<close>: well-formed characters stay, each maximal part of a character that is
  cut short or out of range becomes U+FFFD.
\<close>

definition second_ok :: "u8 \<Rightarrow> u8 \<Rightarrow> bool" where
  "second_ok a b \<longleftrightarrow> 224 \<le> unat a \<and> unat a < 245 \<and> continuation b \<and>
     (unat a = 224 \<longrightarrow> 160 \<le> unat b) \<and> (unat a = 237 \<longrightarrow> unat b < 160) \<and>
     (unat a = 240 \<longrightarrow> 144 \<le> unat b) \<and> (unat a = 244 \<longrightarrow> unat b < 144)"

fun bad_len :: "bytes \<Rightarrow> nat" where
  "bad_len (a # b # c # _) = (if second_ok a b then if 240 \<le> unat a \<and> continuation c then 3 else 2 else 1)"
| "bad_len [a, b] = (if second_ok a b then 2 else 1)"
| "bad_len _ = 1"

definition char_len :: "bytes \<Rightarrow> nat option" where
  "char_len bs =
     (let fits = (\<lambda>k. k \<le> length bs \<and> utf8_char (take k bs)) in
      if fits 1 then Some 1 else if fits 2 then Some 2 else if fits 3 then Some 3
      else if fits 4 then Some 4 else None)"

definition REPLACEMENT :: bytes where "REPLACEMENT = [0xEF, 0xBF, 0xBD]"

lemma char_len_pos: "char_len bs = Some k \<Longrightarrow> 0 < k \<and> k \<le> length bs \<and> utf8_char (take k bs)"
  by (auto simp: char_len_def Let_def split: if_splits)

function from_utf8_lossy :: "bytes \<Rightarrow> bytes" where
  "from_utf8_lossy bs =
     (if bs = [] then []
      else case char_len bs of
          Some k \<Rightarrow> take k bs @ from_utf8_lossy (drop k bs)
        | None \<Rightarrow> REPLACEMENT @ from_utf8_lossy (drop (bad_len bs) bs))"
  by pat_completeness auto
termination
proof (relation "measure length")
  fix bs :: bytes assume "bs \<noteq> []"
  moreover have "0 < bad_len bs" by (cases bs rule: bad_len.cases) auto
  ultimately show "(drop (bad_len bs) bs, bs) \<in> measure length" by (cases bs) auto
next
  fix bs :: bytes and k assume "bs \<noteq> []" "char_len bs = Some k"
  then show "(drop k bs, bs) \<in> measure length" using char_len_pos [of bs k] by (cases bs) auto
qed simp

declare from_utf8_lossy.simps [simp del]

definition byte_string :: "bytes \<Rightarrow> string" where
  "byte_string bs = map (\<lambda>b. char_of (unat b)) bs"

section \<open>The library\<close>

record c_stats =
  cs_delivered :: u64
  cs_received :: u32
  cs_dropped :: u32
  cs_if_dropped :: u32

record c_device =
  cd_name :: bytes
  cd_description :: bytes
  cd_flags :: u32

type_synonym handle = nat

record 'w sniffer_c =
  sniffer_list_devices :: "'w \<Rightarrow> usize \<Rightarrow> 'w \<times> i32 \<times> c_device list \<times> usize \<times> bytes"
  sniffer_open_live :: "'w \<Rightarrow> bytes \<Rightarrow> i32 \<Rightarrow> i32 \<Rightarrow> 'w \<times> i32 \<times> handle option \<times> bytes"
  sniffer_open_file :: "'w \<Rightarrow> bytes \<Rightarrow> 'w \<times> i32 \<times> handle option \<times> bytes"
  sniffer_set_callback :: "'w \<Rightarrow> handle \<Rightarrow> 'w \<times> i32"
  sniffer_set_realtime :: "'w \<Rightarrow> handle \<Rightarrow> i32 \<Rightarrow> 'w \<times> i32"
  sniffer_start :: "'w \<Rightarrow> handle \<Rightarrow> 'w \<times> i32"
  sniffer_stop :: "'w \<Rightarrow> handle \<Rightarrow> 'w \<times> i32"
  sniffer_poll_finished :: "'w \<Rightarrow> handle \<Rightarrow> 'w \<times> i32 \<times> i32"
  sniffer_link_type :: "'w \<Rightarrow> handle \<Rightarrow> i32"
  sniffer_get_stats :: "'w \<Rightarrow> handle \<Rightarrow> 'w \<times> i32 \<times> c_stats"
  sniffer_last_error :: "'w \<Rightarrow> handle \<Rightarrow> bytes"
  sniffer_close :: "'w \<Rightarrow> handle \<Rightarrow> 'w"

section \<open>The wrapper\<close>

definition NAME_LEN :: usize where "NAME_LEN = 256"

record device_info =
  di_name :: string
  di_description :: string
  di_flags :: u32

record sniffer =
  sf_raw :: handle
  sf_running :: bool

definition map_status :: "i32 \<Rightarrow> nc_status" where
  "map_status code =
     (if code = - 1 then StInvalidArg
      else if code = - 2 then StNoLibrary
      else if code = - 4 then StPermission
      else if code = - 5 then StState
      else if code = - 7 then StIo
      else if code = - 8 then StFormat
      else StCapture)"

definition errbuf_message :: "bytes \<Rightarrow> string" where
  "errbuf_message buf = byte_string (from_utf8_lossy (takeWhile (\<lambda>c. c \<noteq> 0) buf))"

definition cstring_new :: "string \<Rightarrow> string \<Rightarrow> (core_error, bytes) result" where
  "cstring_new value what =
     (if 0 \<in> set (str_bytes value) then Err (core_error_new StInvalidArg (what @ '' contains a NUL byte''))
      else Ok (str_bytes value))"

definition opened :: "i32 \<Rightarrow> handle option \<Rightarrow> bytes \<Rightarrow> (core_error, sniffer) result" where
  "opened code raw errbuf =
     (case raw of
        Some h \<Rightarrow> if code = 0 then Ok \<lparr>sf_raw = h, sf_running = False\<rparr>
                  else Err (core_error_new (map_status code) (errbuf_message errbuf))
      | None \<Rightarrow> Err (core_error_new (map_status code) (errbuf_message errbuf)))"

text \<open>Every operation threads the state of the library.\<close>

definition sniffer_new_live ::
  "'w sniffer_c \<Rightarrow> 'w \<Rightarrow> string \<Rightarrow> u32 \<Rightarrow> bool \<Rightarrow> 'w \<times> (core_error, sniffer) result" where
  "sniffer_new_live C w iface snaplen promisc =
     (case cstring_new iface ''interface name'' of
        Err e \<Rightarrow> (w, Err e)
      | Panic \<Rightarrow> (w, Panic)
      | Ok name \<Rightarrow>
          if unat snaplen \<ge> 2 ^ 31 then (w, Err (core_error_new StInvalidArg ''snaplen too large''))
          else (case sniffer_open_live C w name snaplen (if promisc then 1 else 0) of
              (w, code, raw, err) \<Rightarrow> (w, opened code raw err)))"

definition sniffer_new_file :: "'w sniffer_c \<Rightarrow> 'w \<Rightarrow> string \<Rightarrow> 'w \<times> (core_error, sniffer) result" where
  "sniffer_new_file C w path =
     (case cstring_new path ''path'' of
        Err e \<Rightarrow> (w, Err e)
      | Panic \<Rightarrow> (w, Panic)
      | Ok path \<Rightarrow> (case sniffer_open_file C w path of (w, code, raw, err) \<Rightarrow> (w, opened code raw err)))"

definition sniffer_check :: "'w sniffer_c \<Rightarrow> 'w \<Rightarrow> sniffer \<Rightarrow> i32 \<Rightarrow> (core_error, unit) result" where
  "sniffer_check C w s code =
     (if code = 0 then Ok ()
      else Err (core_error_new (map_status code)
             (byte_string (from_utf8_lossy (c_string (sniffer_last_error C w (sf_raw s)))))))"

definition set_callback :: "'w sniffer_c \<Rightarrow> 'w \<Rightarrow> sniffer \<Rightarrow> 'w \<times> (core_error, unit) result" where
  "set_callback C w s =
     (case sniffer_set_callback C w (sf_raw s) of (w, code) \<Rightarrow> (w, sniffer_check C w s code))"

definition set_realtime :: "'w sniffer_c \<Rightarrow> 'w \<Rightarrow> sniffer \<Rightarrow> bool \<Rightarrow> 'w \<times> (core_error, unit) result" where
  "set_realtime C w s enabled =
     (case sniffer_set_realtime C w (sf_raw s) (if enabled then 1 else 0) of
        (w, code) \<Rightarrow> (w, sniffer_check C w s code))"

definition sn_start :: "'w sniffer_c \<Rightarrow> 'w \<Rightarrow> sniffer \<Rightarrow> 'w \<times> sniffer \<times> (core_error, unit) result" where
  "sn_start C w s =
     (case sniffer_start C w (sf_raw s) of
        (w, code) \<Rightarrow>
          (case sniffer_check C w s code of
             Ok _ \<Rightarrow> (w, s\<lparr>sf_running := True\<rparr>, Ok ())
           | r \<Rightarrow> (w, s, r)))"

definition sn_stop :: "'w sniffer_c \<Rightarrow> 'w \<Rightarrow> sniffer \<Rightarrow> 'w \<times> sniffer \<times> (core_error, unit) result" where
  "sn_stop C w s =
     (case sniffer_stop C w (sf_raw s) of
        (w, code) \<Rightarrow> let s = s\<lparr>sf_running := False\<rparr> in (w, s, sniffer_check C w s code))"

definition sn_finished :: "'w sniffer_c \<Rightarrow> 'w \<Rightarrow> sniffer \<Rightarrow> 'w \<times> (core_error, unit) result option" where
  "sn_finished C w s =
     (case sniffer_poll_finished C w (sf_raw s) of
        (w, done, status) \<Rightarrow> (w, if done = 1 then Some (sniffer_check C w s status) else None))"

definition sn_link_type :: "'w sniffer_c \<Rightarrow> 'w \<Rightarrow> sniffer \<Rightarrow> i32" where
  "sn_link_type C w s = sniffer_link_type C w (sf_raw s)"

definition sn_stats :: "'w sniffer_c \<Rightarrow> 'w \<Rightarrow> sniffer \<Rightarrow> 'w \<times> (core_error, u64) result" where
  "sn_stats C w s =
     (case sniffer_get_stats C w (sf_raw s) of
        (w, code, st) \<Rightarrow>
          (w, and_then (sniffer_check C w s code) (\<lambda>_. Ok (ucast (cs_dropped st) + ucast (cs_if_dropped st)))))"

definition sn_drop :: "'w sniffer_c \<Rightarrow> 'w \<Rightarrow> sniffer \<Rightarrow> 'w" where
  "sn_drop C w s = sniffer_close C w (sf_raw s)"

text \<open>
  Two calls: one that only counts, and one into as many zeroed entries.  The second overwrites the
  first entries and the count.
\<close>

definition zero_device :: c_device where
  "zero_device = \<lparr>cd_name = replicate NAME_LEN 0, cd_description = replicate NAME_LEN 0, cd_flags = 0\<rparr>"

definition device_info_of :: "c_device \<Rightarrow> device_info" where
  "device_info_of d =
     \<lparr>di_name = errbuf_message (cd_name d), di_description = errbuf_message (cd_description d), di_flags = cd_flags d\<rparr>"

definition list_devices :: "'w sniffer_c \<Rightarrow> 'w \<Rightarrow> 'w \<times> (core_error, device_info list) result" where
  "list_devices C w =
     (case sniffer_list_devices C w 0 of
        (w, code, _, found, err) \<Rightarrow>
          if code \<noteq> 0 then (w, Err (core_error_new (map_status code) (errbuf_message err)))
          else
            let devices = replicate found zero_device in
            (case sniffer_list_devices C w (length devices) of
               (w, code, out, found, err) \<Rightarrow>
                 if code \<noteq> 0 then (w, Err (core_error_new (map_status code) (errbuf_message err)))
                 else
                   let devices = out @ drop (length out) devices
                   in (w, Ok (map device_info_of (take found devices)))))"

section \<open>Messages are valid UTF-8\<close>

lemma utf8_append: "utf8 xs \<Longrightarrow> utf8 ys \<Longrightarrow> utf8 (xs @ ys)"
  unfolding utf8_def by (metis concat_append list_all_append)

lemma utf8_single: "utf8_char c \<Longrightarrow> utf8 c"
  unfolding utf8_def by (intro exI [of _ "[c]"]) simp

lemma utf8_Nil: "utf8 []"
  unfolding utf8_def by (intro exI [of _ "[]"]) simp

lemma lossy_utf8: "utf8 (from_utf8_lossy bs)"
proof (induction bs rule: from_utf8_lossy.induct)
  case (1 bs)
  have "utf8_char REPLACEMENT" by (simp add: REPLACEMENT_def continuation_def)
  then show ?case
    using 1 by (subst from_utf8_lossy.simps)
      (auto simp: utf8_Nil intro!: utf8_append intro: utf8_single dest: char_len_pos split: option.split)
qed

text \<open>One character is not a proper prefix of another, so a string is read as it was written.\<close>

lemma utf8_char_prefix: "utf8_char (take k c) \<Longrightarrow> utf8_char c \<Longrightarrow> k \<le> length c \<Longrightarrow> k = length c"
  by (cases c rule: utf8_char.cases; cases k) (auto simp: take_Cons' split: if_splits)

lemma char_len_of_char: "utf8_char c \<Longrightarrow> char_len (c @ rest) = Some (length c)"
proof -
  assume c: "utf8_char c"
  then have len: "length c \<in> {1, 2, 3, 4}" by (cases c rule: utf8_char.cases) auto
  have small: "\<not> utf8_char (take k c)" if "k < length c" for k using utf8_char_prefix [OF _ c] that by fastforce
  from len consider "length c = 1" | "length c = 2" | "length c = 3" | "length c = 4" by auto
  then show ?thesis
    using c small [of 1] small [of 2] small [of 3] by cases (simp_all add: char_len_def Let_def)
qed

lemma lossy_valid: "utf8 s \<Longrightarrow> from_utf8_lossy s = s"
proof -
  assume "utf8 s"
  then obtain cs where "list_all utf8_char cs" "s = concat cs" by (auto simp: utf8_def)
  then show ?thesis
  proof (induction cs arbitrary: s)
    case (Cons c cs)
    have "c \<noteq> []" using Cons.prems(1) utf8_char_head by auto
    then show ?case
      using Cons char_len_of_char [of c "concat cs"] by (subst from_utf8_lossy.simps) simp
  qed (simp add: from_utf8_lossy.simps)
qed

lemma lossy_no_zero: "0 \<notin> set bs \<Longrightarrow> 0 \<notin> set (from_utf8_lossy bs)"
proof (induction bs rule: from_utf8_lossy.induct)
  case (1 bs)
  have d: "0 \<notin> set (take k bs)" "0 \<notin> set (drop k bs)" for k
    using 1(3) in_set_takeD [of 0 k bs] in_set_dropD [of 0 k bs] by auto
  show ?case
    using 1(1) [OF _ _ d(2)] 1(2) [OF _ _ d(2)] d
    by (subst from_utf8_lossy.simps) (auto simp: REPLACEMENT_def split: option.split)
qed

lemma byte_string_bytes: "str_bytes (byte_string bs) = bs"
proof -
  have "of_char (char_of (unat b)) = b" for b :: u8
  proof -
    have "(of_char (char_of (unat b)) :: u8) = of_nat (of_char (char_of (unat b)))"
      by (rule of_nat_of_char [symmetric])
    also have "\<dots> = of_nat (unat b mod 256)" by (simp only: of_char_of)
    also have "\<dots> = b" using unat_u8 [of b] by (simp add: mod_less)
    finally show ?thesis .
  qed
  then show ?thesis by (simp add: str_bytes_def byte_string_def comp_def)
qed

lemma errbuf_message_wf: "utf8 (str_bytes (errbuf_message buf)) \<and> 0 \<notin> set (str_bytes (errbuf_message buf))"
proof -
  have "0 \<notin> set (takeWhile (\<lambda>c. c \<noteq> 0) buf)" by (auto dest: set_takeWhileD)
  then show ?thesis by (simp add: errbuf_message_def byte_string_bytes lossy_utf8 lossy_no_zero)
qed

section \<open>What the wrapper guarantees\<close>

lemma map_status_not_ok: "map_status code \<noteq> StOk"
  by (simp add: map_status_def)

lemma opened_iffs:
  "opened code raw err = Ok s \<longleftrightarrow> code = 0 \<and> raw \<noteq> None \<and> s = \<lparr>sf_raw = the raw, sf_running = False\<rparr>"
  "opened code raw err \<noteq> Panic"
  by (auto simp: opened_def split: option.splits)

lemma cstring_new_iffs:
  "cstring_new v what = Ok bs \<longleftrightarrow> 0 \<notin> set (str_bytes v) \<and> bs = str_bytes v" "cstring_new v what \<noteq> Panic"
  by (auto simp: cstring_new_def)

lemma sniffer_check_iffs:
  "sniffer_check C w s code = Ok u \<longleftrightarrow> code = 0" "sniffer_check C w s code \<noteq> Panic"
  by (auto simp: sniffer_check_def)

text \<open>
  \<open>list_devices\<close>: as many devices as both calls counted, each with text that is valid UTF-8 without
  zero bytes, however the library fills its buffers.
\<close>

lemma list_devices_Ok:
  assumes "list_devices C w = (w', Ok ds)"
  obtains w1 code1 out1 n1 err1 code2 out2 n2 err2 where
    "sniffer_list_devices C w 0 = (w1, code1, out1, n1, err1)" "code1 = 0"
    "sniffer_list_devices C w1 n1 = (w', code2, out2, n2, err2)" "code2 = 0"
    "length out2 \<le> n1 \<Longrightarrow> length ds = min n1 n2"
    "list_all (\<lambda>d. utf8 (str_bytes (di_name d)) \<and> 0 \<notin> set (str_bytes (di_name d))) ds"
proof -
  obtain w1 code1 out1 n1 err1 where 1: "sniffer_list_devices C w 0 = (w1, code1, out1, n1, err1)"
    by (metis prod_cases5)
  moreover obtain w2 code2 out2 n2 err2 where 2: "sniffer_list_devices C w1 n1 = (w2, code2, out2, n2, err2)"
    by (metis prod_cases5)
  ultimately have c: "code1 = 0" "code2 = 0" "w' = w2"
    and ds: "ds = map device_info_of (take n2 (out2 @ drop (length out2) (replicate n1 zero_device)))"
    using assms by (auto simp: list_devices_def Let_def split: if_splits)
  have "list_all (\<lambda>d. utf8 (str_bytes (di_name d)) \<and> 0 \<notin> set (str_bytes (di_name d))) ds"
    unfolding ds by (auto simp: list_all_iff device_info_of_def errbuf_message_wf)
  with 1 2 c ds that show thesis by force
qed

end
