(* ===== verification/Ffi_Core.thy ===== *)
theory Ffi_Core
  imports Analytics Sniffer Cli
begin

text \<open>
  \<open>core-ffi/src/core.rs\<close>: one instance of the monitor, with its engine and alert queue, its capture
  source, its analytics connection, its rules and its last error.  An operation gives the new state,
  the new state of the capture library, and its result.
\<close>

section \<open>The environment\<close>

text \<open>
  What the instance uses of other code: the caches, \<open>log2\<close>, the YAML reader and the bundled rules, files,
  the analytics endpoint and its threads, and the C capture library.
\<close>

record ('f, 'r, 'w) core_env =
  ev_log2 :: "f64 \<Rightarrow> f64"
  ev_lf :: "('f, flow_key, flow_stats) lru_api"
  ev_lr :: "('r, ip_addr, source_state) lru_api"
  ev_yaml :: "string \<Rightarrow> (string, rule_file) result"
  ev_default_yaml :: string
  ev_read_to_string :: "string \<Rightarrow> (string, string) result"
  ev_create :: "string \<Rightarrow> (io_error, sink) result"
  ev_flush :: "sink \<Rightarrow> sink \<times> (io_error, unit) result"
  ev_start_link :: "string \<Rightarrow> (link_error, link) result"
  ev_spawn :: "(string, unit) result"
  ev_c :: "'w sniffer_c"

section \<open>Rules and configuration\<close>

definition parse_builtin :: "('f, 'r, 'w) core_env \<Rightarrow> (core_error, rule_spec list) result" where
  "parse_builtin env =
     (case rules_parse (ev_yaml env) (ev_default_yaml env) of Ok specs \<Rightarrow> Ok specs | _ \<Rightarrow> Panic)"

definition parse_file :: "('f, 'r, 'w) core_env \<Rightarrow> string \<Rightarrow> (core_error, rule_spec list) result" where
  "parse_file env path =
     map_err (\<lambda>e. core_error_new StRules (show_rule_error e)) (rules_load (ev_read_to_string env) (ev_yaml env) path)"

definition DEFAULT_SNAPLEN :: u32 where "DEFAULT_SNAPLEN = 65535"
definition MICROS_PER_MILLI :: u64 where "MICROS_PER_MILLI = 1000"

definition nc_engine_config :: "nc_config \<Rightarrow> (core_error, engine_config) result" where
  "nc_engine_config cfg =
     (let c = engine_config_default;
          c = (if nc_max_flows cfg \<noteq> 0 then c\<lparr>ec_max_flows := unat (nc_max_flows cfg)\<rparr> else c);
          c = (if nc_flow_idle_timeout_ms cfg \<noteq> 0
               then c\<lparr>ec_flow_idle_timeout_us := ucast (nc_flow_idle_timeout_ms cfg) * MICROS_PER_MILLI\<rparr> else c);
          c = (if nc_top_n cfg \<noteq> 0 then c\<lparr>ec_top_n := unat (nc_top_n cfg)\<rparr> else c)
      in and_then
           (if nc_link_type cfg = 0 then Ok LinkEthernet
            else ok_or (link_from_raw (nc_link_type cfg))
              (core_error_new StInvalidArg (''unsupported link type '' @ show_nat (unat (nc_link_type cfg)))))
           (\<lambda>link. Ok (c\<lparr>ec_link := link\<rparr>)))"

section \<open>The instance\<close>

record ('f, 'r) nc_core =
  co_analytics :: "analytics option"
  co_capture :: "sniffer option"
  co_shared :: "('f, 'r) shared"
  co_config :: engine_config
  co_snaplen :: u32
  co_rule_specs :: "rule_spec list"
  co_last_error :: string

definition core_new :: "('f, 'r, 'w) core_env \<Rightarrow> nc_config \<Rightarrow> (core_error, ('f, 'r) nc_core) result" where
  "core_new env cfg =
     and_then (nc_engine_config cfg) (\<lambda>config.
     and_then (parse_builtin env) (\<lambda>specs.
       Ok \<lparr>co_analytics = None, co_capture = None,
           co_shared =
             \<lparr>sh_engine = engine_with_rules (engine_new (ev_lf env) config) (rules_from_specs (ev_lr env) specs),
              sh_alerts = [], sh_alerts_total = 0, sh_alerts_dropped = 0\<rparr>,
           co_config = config,
           co_snaplen = (if nc_snaplen cfg = 0 then DEFAULT_SNAPLEN else nc_snaplen cfg),
           co_rule_specs = specs, co_last_error = []\<rparr>))"

definition set_error :: "('f, 'r) nc_core \<Rightarrow> string \<Rightarrow> ('f, 'r) nc_core" where
  "set_error co message = co\<lparr>co_last_error := message\<rparr>"

text \<open>
  \<open>slice::from_raw_parts\<close> of a pointer and a length, with the empty slice for a length of zero or a null
  pointer: a pointer is the memory it points at, which its caller promises is as long.
\<close>

definition raw_slice :: "bytes option \<Rightarrow> u32 \<Rightarrow> bytes" where
  "raw_slice data n = (case data of Some m \<Rightarrow> if n = 0 then [] else take (unat n) m | None \<Rightarrow> [])"

section \<open>Frames\<close>

record c_frame =
  cf_ts_us :: u64
  cf_caplen :: u32
  cf_len :: u32
  cf_data :: "bytes option"

text \<open>The callback of the capture thread, for its two pointers: the frame and the shared state.\<close>

definition on_frame ::
  "('f, 'r, 'w) core_env \<Rightarrow> c_frame option \<Rightarrow> ('f, 'r) shared option \<Rightarrow> ('f, 'r) shared option" where
  "on_frame env frame user =
     (case (frame, user) of
        (Some f, Some sh) \<Rightarrow>
          Some (ingest (ev_log2 env) (ev_lf env) (ev_lr env) sh (cf_ts_us f) (cf_len f)
                  (raw_slice (cf_data f) (cf_caplen f)))
      | _ \<Rightarrow> user)"

definition core_feed ::
  "('f, 'r, 'w) core_env \<Rightarrow> ('f, 'r) nc_core \<Rightarrow> u64 \<Rightarrow> bytes \<Rightarrow> u32 \<Rightarrow> ('f, 'r) nc_core" where
  "core_feed env co ts data wire_len =
     co\<lparr>co_shared := ingest (ev_log2 env) (ev_lf env) (ev_lr env) (co_shared co) ts wire_len data\<rparr>"

section \<open>The capture source\<close>

definition is_running :: "sniffer option \<Rightarrow> bool" where
  "is_running c = (case c of Some s \<Rightarrow> sf_running s | None \<Rightarrow> False)"

definition raw_link_of :: "i32 \<Rightarrow> u32" where
  "raw_link_of v = (if 0 \<le> sint v then v else - 1)"

text \<open>Dropping the sniffer of an \<open>Option\<close>, if there is one, closes it.\<close>

definition drop_capture :: "('f, 'r, 'w) core_env \<Rightarrow> 'w \<Rightarrow> sniffer option \<Rightarrow> 'w" where
  "drop_capture env w c = (case c of Some s \<Rightarrow> sn_drop (ev_c env) w s | None \<Rightarrow> w)"

text \<open>The engine of a new capture: the configured one with the link type and the rules loaded last.\<close>

definition fresh_engine :: "('f, 'r, 'w) core_env \<Rightarrow> ('f, 'r) nc_core \<Rightarrow> link_type \<Rightarrow> ('f, 'r) engine" where
  "fresh_engine env co link =
     engine_with_rules (engine_new (ev_lf env) ((co_config co)\<lparr>ec_link := link\<rparr>))
       (rules_from_specs (ev_lr env) (co_rule_specs co))"

definition install ::
  "('f, 'r, 'w) core_env \<Rightarrow> ('w \<Rightarrow> 'w \<times> (core_error, sniffer) result) \<Rightarrow> ('f, 'r) nc_core \<Rightarrow> 'w \<Rightarrow>
   ('f, 'r) nc_core \<times> 'w \<times> (core_error, unit) result" where
  "install env opener co w =
     (if is_running (co_capture co) then (co, w, Err (core_error_new StState ''stop the running capture first''))
      else
        let w = drop_capture env w (co_capture co); co = co\<lparr>co_capture := None\<rparr> in
        (case opener w of
           (w, Err e) \<Rightarrow> (co, w, Err e)
         | (w, Panic) \<Rightarrow> (co, w, Panic)
         | (w, Ok s) \<Rightarrow>
             let raw_link = raw_link_of (sn_link_type (ev_c env) w s) in
             (case link_from_raw raw_link of
                None \<Rightarrow>
                  (co, sn_drop (ev_c env) w s,
                   Err (core_error_new StFormat (''unsupported link type '' @ show_nat (unat raw_link))))
              | Some link \<Rightarrow>
                  let co = co\<lparr>co_shared := (co_shared co)\<lparr>sh_engine := fresh_engine env co link\<rparr>\<rparr> in
                  (case set_callback (ev_c env) w s of
                     (w, Ok _) \<Rightarrow> (co\<lparr>co_capture := Some s\<rparr>, w, Ok ())
                   | (w, Err e) \<Rightarrow> (co, sn_drop (ev_c env) w s, Err e)
                   | (w, Panic) \<Rightarrow> (co, sn_drop (ev_c env) w s, Panic)))))"

definition open_live ::
  "('f, 'r, 'w) core_env \<Rightarrow> string \<Rightarrow> bool \<Rightarrow> ('f, 'r) nc_core \<Rightarrow> 'w \<Rightarrow>
   ('f, 'r) nc_core \<times> 'w \<times> (core_error, unit) result" where
  "open_live env iface promisc co w =
     install env (\<lambda>w. sniffer_new_live (ev_c env) w iface (co_snaplen co) promisc) co w"

text \<open>The closure of \<open>open_file\<close>; a sniffer that cannot be set to real time is dropped.\<close>

definition open_replay ::
  "('f, 'r, 'w) core_env \<Rightarrow> string \<Rightarrow> bool \<Rightarrow> 'w \<Rightarrow> 'w \<times> (core_error, sniffer) result" where
  "open_replay env path realtime w =
     (case sniffer_new_file (ev_c env) w path of
        (w, Ok s) \<Rightarrow>
          (case set_realtime (ev_c env) w s realtime of
             (w, Ok _) \<Rightarrow> (w, Ok s)
           | (w, Err e) \<Rightarrow> (sn_drop (ev_c env) w s, Err e)
           | (w, Panic) \<Rightarrow> (sn_drop (ev_c env) w s, Panic))
      | (w, r) \<Rightarrow> (w, r))"

definition open_file ::
  "('f, 'r, 'w) core_env \<Rightarrow> string \<Rightarrow> bool \<Rightarrow> ('f, 'r) nc_core \<Rightarrow> 'w \<Rightarrow>
   ('f, 'r) nc_core \<times> 'w \<times> (core_error, unit) result" where
  "open_file env path realtime co w = install env (open_replay env path realtime) co w"

definition core_load ::
  "('f, 'r, 'w) core_env \<Rightarrow> string \<Rightarrow> ('f, 'r) nc_core \<Rightarrow> ('f, 'r) nc_core \<times> (core_error, usize) result" where
  "core_load env path co =
     (case parse_file env path of
        Err e \<Rightarrow> (co, Err e)
      | Panic \<Rightarrow> (co, Panic)
      | Ok specs \<Rightarrow>
          let rules = rules_from_specs (ev_lr env) specs; active = length rules; sh = co_shared co in
          (co\<lparr>co_shared := sh\<lparr>sh_engine := engine_set_rules (sh_engine sh) (Some rules)\<rparr>,
              co_rule_specs := specs\<rparr>, Ok active))"

section \<open>Analytics\<close>

text \<open>The old connection is dropped before the new one starts.\<close>

definition connect_analytics ::
  "('f, 'r, 'w) core_env \<Rightarrow> string \<Rightarrow> ('f, 'r) nc_core \<Rightarrow> ('f, 'r) nc_core \<times> (core_error, unit) result" where
  "connect_analytics env endpoint co =
     (let co = co\<lparr>co_analytics := None\<rparr> in
      case analytics_start (ev_start_link env) (ev_spawn env) endpoint of
        Ok a \<Rightarrow> (co\<lparr>co_analytics := Some a\<rparr>, Ok ())
      | Err e \<Rightarrow> (co, Err e)
      | Panic \<Rightarrow> (co, Panic))"

definition disconnect_analytics :: "('f, 'r) nc_core \<Rightarrow> ('f, 'r) nc_core" where
  "disconnect_analytics co = co\<lparr>co_analytics := None\<rparr>"

section \<open>Starting and stopping\<close>

definition capture_start ::
  "('f, 'r, 'w) core_env \<Rightarrow> ('f, 'r) nc_core \<Rightarrow> 'w \<Rightarrow> ('f, 'r) nc_core \<times> 'w \<times> (core_error, unit) result" where
  "capture_start env co w =
     (case co_capture co of
        None \<Rightarrow> (co, w, Err (core_error_new StState ''no capture source opened''))
      | Some s \<Rightarrow> (case sn_start (ev_c env) w s of (w, s, r) \<Rightarrow> (co\<lparr>co_capture := Some s\<rparr>, w, r)))"

definition capture_stop ::
  "('f, 'r, 'w) core_env \<Rightarrow> ('f, 'r) nc_core \<Rightarrow> 'w \<Rightarrow> ('f, 'r) nc_core \<times> 'w \<times> (core_error, unit) result" where
  "capture_stop env co w =
     (case co_capture co of
        Some s \<Rightarrow>
          if sf_running s
          then (case sn_stop (ev_c env) w s of (w, s, r) \<Rightarrow> (co\<lparr>co_capture := Some s\<rparr>, w, r))
          else (co, w, Err (core_error_new StState ''capture is not running''))
      | None \<Rightarrow> (co, w, Err (core_error_new StState ''capture is not running'')))"

section \<open>Statistics, flows and alerts\<close>

definition capture_state ::
  "('f, 'r, 'w) core_env \<Rightarrow> ('f, 'r) nc_core \<Rightarrow> 'w \<Rightarrow> sniffer \<Rightarrow> ('f, 'r) nc_core \<times> 'w \<times> nc_capture_state" where
  "capture_state env co w s =
     (if \<not> sf_running s then (co, w, CapIdle)
      else (case sn_finished (ev_c env) w s of
          (w, None) \<Rightarrow> (co, w, CapRunning)
        | (w, Some (Err e)) \<Rightarrow> (set_error co (ce_message e), w, CapFailed)
        | (w, Some _) \<Rightarrow> (co, w, CapFinished)))"

text \<open>The part of \<open>stats\<close> that reads the engine, the queue and the analytics link.\<close>

definition engine_stats :: "('f, 'r, 'w) core_env \<Rightarrow> ('f, 'r) nc_core \<Rightarrow> nc_stats" where
  "engine_stats env co =
     (let e = sh_engine (co_shared co) in
      (nc_stats_from_counters (en_counters e))
        \<lparr>ns_rules_loaded := of_nat (case en_rules e of None \<Rightarrow> 0 | Some rules \<Rightarrow> length rules),
         ns_active_flows := of_nat (flow_len (ev_lf env) (en_flows e)),
         ns_evicted_flows := evicted (en_flows e), ns_expired_flows := expired (en_flows e),
         ns_last_ts_us := en_last_ts_us e,
         ns_alerts_total := sh_alerts_total (co_shared co), ns_alerts_dropped := sh_alerts_dropped (co_shared co)\<rparr>)"

definition analytics_stats :: "analytics option \<Rightarrow> nc_stats \<Rightarrow> nc_stats" where
  "analytics_stats slot out =
     (case slot of
        None \<Rightarrow> out
      | Some a \<Rightarrow>
          out\<lparr>ns_analytics_state := analytics_state_as_u64
                 (case link_state_of (an_link a) of Connected \<Rightarrow> AnConnected | _ \<Rightarrow> AnConnecting),
              ns_analytics_sent := ln_sent (an_link a), ns_analytics_dropped := ln_dropped (an_link a)\<rparr>)"

definition core_stats ::
  "('f, 'r, 'w) core_env \<Rightarrow> ('f, 'r) nc_core \<Rightarrow> 'w \<Rightarrow> ('f, 'r) nc_core \<times> 'w \<times> nc_stats" where
  "core_stats env co w =
     (let out = analytics_stats (co_analytics co) (engine_stats env co) in
      case co_capture co of
        None \<Rightarrow> (co, w, out)
      | Some s \<Rightarrow>
          (case sn_stats (ev_c env) w s of (w, r) \<Rightarrow>
             let out = out\<lparr>ns_capture_dropped := (case r of Ok d \<Rightarrow> d | _ \<Rightarrow> 0)\<rparr> in
             (case capture_state env co w s of
                (co, w, st) \<Rightarrow> (co, w, out\<lparr>ns_capture_state := capture_state_as_u64 st\<rparr>))))"

text \<open>The slots after the call and how many flows there were for them.\<close>

definition core_top_flows ::
  "('f, 'r, 'w) core_env \<Rightarrow> ('f, 'r) nc_core \<Rightarrow> nc_flow list \<Rightarrow> nc_flow list \<times> usize" where
  "core_top_flows env co out =
     (let top_flows = top_by_bytes (ev_lf env) (en_flows (sh_engine (co_shared co))) (length out);
          new = map (\<lambda>(key, stats). nc_flow_new key stats) top_flows
      in (take (length out) new @ drop (length new) out, length top_flows))"

definition core_pop_alert :: "('f, 'r) nc_core \<Rightarrow> ('f, 'r) nc_core \<times> alert option" where
  "core_pop_alert co = (case pop_alert (co_shared co) of (sh, a) \<Rightarrow> (co\<lparr>co_shared := sh\<rparr>, a))"

text \<open>\<open>Drop\<close>: the analytics go first, then the capture is closed.\<close>

definition core_drop :: "('f, 'r, 'w) core_env \<Rightarrow> ('f, 'r) nc_core \<Rightarrow> 'w \<Rightarrow> 'w" where
  "core_drop env co w = drop_capture env w (co_capture (disconnect_analytics co))"

end
