(* ===== verification/Ffi.thy ===== *)
theory Ffi
  imports Ffi_Core
begin

text \<open>
  \<open>core-ffi/src/lib.rs\<close>: the functions of the C interface.  A pointer argument is \<open>None\<close> when it is null
  and otherwise what it points at; an instance is \<open>None\<close> for a null handle.  A call gives back what it
  may have changed (the instance, the capture library, the memory of its out parameters) and its
  status.
\<close>

section \<open>Arguments and results\<close>

definition DEMO_SNAPLEN :: u32 where "DEMO_SNAPLEN = 65535"

text \<open>\<open>guarded\<close>: \<open>'s\<close> is the rest of what the call works on.\<close>

definition guarded ::
  "('f, 'r) nc_core option \<Rightarrow> 's \<Rightarrow>
   (('f, 'r) nc_core \<Rightarrow> 's \<Rightarrow> ('f, 'r) nc_core \<times> 's \<times> (core_error, i32) result) \<Rightarrow>
   ('f, 'r) nc_core option \<times> 's \<times> i32" where
  "guarded core s f =
     (case core of
        None \<Rightarrow> (None, s, status_as_i32 StNullArg)
      | Some c \<Rightarrow>
          (case f c s of
             (c, s, Ok value) \<Rightarrow> (Some c, s, value)
           | (c, s, Err e) \<Rightarrow> (Some (set_error c (ce_message e)), s, status_as_i32 (ce_status e))
           | (c, s, Panic) \<Rightarrow> (Some (set_error c ''internal panic in netcore''), s, status_as_i32 StPanic)))"

definition status_ok :: "(core_error, i32) result" where
  "status_ok = Ok (status_as_i32 StOk)"

definition null_arg :: "string \<Rightarrow> core_error" where
  "null_arg what = core_error_new StNullArg (what @ '' is null'')"

text \<open>\<open>CStr::to_str\<close>: the bytes before the NUL, when they are UTF-8.\<close>

function is_utf8 :: "bytes \<Rightarrow> bool" where
  "is_utf8 bs = (if bs = [] then True else case char_len bs of None \<Rightarrow> False | Some k \<Rightarrow> is_utf8 (drop k bs))"
  by pat_completeness auto
termination
proof (relation "measure length")
  fix bs :: bytes and k assume "bs \<noteq> []" "char_len bs = Some k"
  then show "(drop k bs, bs) \<in> measure length" using char_len_pos [of bs k] by (cases bs) auto
qed simp

declare is_utf8.simps [simp del]

definition utf8_arg :: "bytes option \<Rightarrow> string \<Rightarrow> (core_error, string) result" where
  "utf8_arg p what =
     (case p of
        None \<Rightarrow> Err (core_error_new StNullArg (what @ '' is null''))
      | Some m \<Rightarrow>
          if is_utf8 (c_string m) then Ok (byte_string (c_string m))
          else Err (core_error_new StInvalidArg (what @ '' is not valid utf-8'')))"

definition core_abi_version :: u32 where
  "core_abi_version = NC_ABI_VERSION"

section \<open>Creating and destroying\<close>

definition core_create :: "('f, 'r, 'w) core_env \<Rightarrow> nc_config option \<Rightarrow> ('f, 'r) nc_core option" where
  "core_create env config =
     (let cfg = (case config of Some c \<Rightarrow> c | None \<Rightarrow> nc_config_default) in
      case core_new env cfg of Ok core \<Rightarrow> Some core | _ \<Rightarrow> None)"

definition core_destroy :: "('f, 'r, 'w) core_env \<Rightarrow> ('f, 'r) nc_core option \<Rightarrow> 'w \<Rightarrow> 'w" where
  "core_destroy env core w = (case core of None \<Rightarrow> w | Some c \<Rightarrow> core_drop env c w)"

section \<open>Calls on an instance\<close>

definition core_feed_packet ::
  "('f, 'r, 'w) core_env \<Rightarrow> u64 \<Rightarrow> bytes option \<Rightarrow> u32 \<Rightarrow> u32 \<Rightarrow> ('f, 'r) nc_core option \<Rightarrow> 'w \<Rightarrow>
   ('f, 'r) nc_core option \<times> 'w \<times> i32" where
  "core_feed_packet env ts data caplen wire_len core w =
     guarded core w (\<lambda>c w.
       if data = None \<and> caplen \<noteq> 0 then (c, w, Err (null_arg ''data''))
       else (core_feed env c ts (raw_slice data caplen) (max wire_len caplen), w, status_ok))"

definition core_open_live ::
  "('f, 'r, 'w) core_env \<Rightarrow> bytes option \<Rightarrow> u8 \<Rightarrow> ('f, 'r) nc_core option \<Rightarrow> 'w \<Rightarrow>
   ('f, 'r) nc_core option \<times> 'w \<times> i32" where
  "core_open_live env iface promisc core w =
     guarded core w (\<lambda>c w.
       case utf8_arg iface ''iface'' of
         Err e \<Rightarrow> (c, w, Err e)
       | Panic \<Rightarrow> (c, w, Panic)
       | Ok iface \<Rightarrow>
           (case open_live env iface (promisc \<noteq> 0) c w of (c, w, r) \<Rightarrow> (c, w, and_then r (\<lambda>_. status_ok))))"

definition core_open_file ::
  "('f, 'r, 'w) core_env \<Rightarrow> bytes option \<Rightarrow> u8 \<Rightarrow> ('f, 'r) nc_core option \<Rightarrow> 'w \<Rightarrow>
   ('f, 'r) nc_core option \<times> 'w \<times> i32" where
  "core_open_file env path realtime core w =
     guarded core w (\<lambda>c w.
       case utf8_arg path ''path'' of
         Err e \<Rightarrow> (c, w, Err e)
       | Panic \<Rightarrow> (c, w, Panic)
       | Ok path \<Rightarrow>
           (case open_file env path (realtime \<noteq> 0) c w of (c, w, r) \<Rightarrow> (c, w, and_then r (\<lambda>_. status_ok))))"

text \<open>\<open>i32::try_from(active).unwrap_or(i32::MAX)\<close>\<close>

definition clamp_i32 :: "usize \<Rightarrow> i32" where
  "clamp_i32 n = (if n < 2 ^ 31 then of_nat n else 2147483647)"

definition core_load_rules ::
  "('f, 'r, 'w) core_env \<Rightarrow> bytes option \<Rightarrow> ('f, 'r) nc_core option \<Rightarrow> 'w \<Rightarrow>
   ('f, 'r) nc_core option \<times> 'w \<times> i32" where
  "core_load_rules env path core w =
     guarded core w (\<lambda>c w.
       case utf8_arg path ''path'' of
         Err e \<Rightarrow> (c, w, Err e)
       | Panic \<Rightarrow> (c, w, Panic)
       | Ok path \<Rightarrow> (case core_load env path c of (c, r) \<Rightarrow> (c, w, and_then r (\<lambda>active. Ok (clamp_i32 active)))))"

definition core_connect_analytics ::
  "('f, 'r, 'w) core_env \<Rightarrow> bytes option \<Rightarrow> ('f, 'r) nc_core option \<Rightarrow> 'w \<Rightarrow>
   ('f, 'r) nc_core option \<times> 'w \<times> i32" where
  "core_connect_analytics env endpoint core w =
     guarded core w (\<lambda>c w.
       case utf8_arg endpoint ''endpoint'' of
         Err e \<Rightarrow> (c, w, Err e)
       | Panic \<Rightarrow> (c, w, Panic)
       | Ok endpoint \<Rightarrow> (case connect_analytics env endpoint c of (c, r) \<Rightarrow> (c, w, and_then r (\<lambda>_. status_ok))))"

definition core_disconnect_analytics ::
  "('f, 'r) nc_core option \<Rightarrow> 'w \<Rightarrow> ('f, 'r) nc_core option \<times> 'w \<times> i32" where
  "core_disconnect_analytics core w = guarded core w (\<lambda>c w. (disconnect_analytics c, w, status_ok))"

definition core_start ::
  "('f, 'r, 'w) core_env \<Rightarrow> ('f, 'r) nc_core option \<Rightarrow> 'w \<Rightarrow> ('f, 'r) nc_core option \<times> 'w \<times> i32" where
  "core_start env core w =
     guarded core w (\<lambda>c w. case capture_start env c w of (c, w, r) \<Rightarrow> (c, w, and_then r (\<lambda>_. status_ok)))"

definition core_stop ::
  "('f, 'r, 'w) core_env \<Rightarrow> ('f, 'r) nc_core option \<Rightarrow> 'w \<Rightarrow> ('f, 'r) nc_core option \<times> 'w \<times> i32" where
  "core_stop env core w =
     guarded core w (\<lambda>c w. case capture_stop env c w of (c, w, r) \<Rightarrow> (c, w, and_then r (\<lambda>_. status_ok)))"

section \<open>Polling\<close>

definition core_poll_stats ::
  "('f, 'r, 'w) core_env \<Rightarrow> nc_stats option \<Rightarrow> ('f, 'r) nc_core option \<Rightarrow> 'w \<Rightarrow>
   ('f, 'r) nc_core option \<times> ('w \<times> nc_stats option) \<times> i32" where
  "core_poll_stats env out core w =
     guarded core (w, out) (\<lambda>c (w, out).
       case out of
         None \<Rightarrow> (c, (w, out), Err (null_arg ''out''))
       | Some _ \<Rightarrow> (case core_stats env c w of (c, w, st) \<Rightarrow> (c, (w, Some st), status_ok)))"

text \<open>The caller's array is as long as it says; what is behind the capacity is not touched.\<close>

definition core_poll_top_flows ::
  "('f, 'r, 'w) core_env \<Rightarrow> nc_flow list option \<Rightarrow> u32 \<Rightarrow> u32 option \<Rightarrow> ('f, 'r) nc_core option \<Rightarrow>
   ('f, 'r) nc_core option \<times> (nc_flow list option \<times> u32 option) \<times> i32" where
  "core_poll_top_flows env out capacity written core =
     guarded core (out, written) (\<lambda>c (out, written).
       case written of
         None \<Rightarrow> (c, (out, None), Err (null_arg ''written''))
       | Some _ \<Rightarrow>
           if capacity = 0 then (c, (out, Some 0), status_ok)
           else (case out of
               None \<Rightarrow> (c, (None, Some 0), Err (null_arg ''out''))
             | Some slots \<Rightarrow>
                 (case core_top_flows env c (take (unat capacity) slots) of
                    (new, n) \<Rightarrow> (c, (Some (new @ drop (unat capacity) slots), Some (of_nat n)), status_ok))))"

definition core_poll_alert ::
  "nc_alert option \<Rightarrow> ('f, 'r) nc_core option \<Rightarrow> ('f, 'r) nc_core option \<times> nc_alert option \<times> i32" where
  "core_poll_alert out core =
     guarded core out (\<lambda>c out.
       case out of
         None \<Rightarrow> (c, None, Err (null_arg ''out''))
       | Some _ \<Rightarrow>
           (case core_pop_alert c of
              (c, Some a) \<Rightarrow> (c, Some (nc_alert_new a), Ok 1)
            | (c, None) \<Rightarrow> (c, out, Ok 0)))"

definition core_last_error ::
  "bytes option \<Rightarrow> u32 \<Rightarrow> ('f, 'r) nc_core option \<Rightarrow> ('f, 'r) nc_core option \<times> bytes option \<times> i32" where
  "core_last_error buf n core =
     guarded core buf (\<lambda>c buf.
       case buf of
         None \<Rightarrow> (c, None, Err (null_arg ''buf''))
       | Some m \<Rightarrow>
           if n = 0 then (c, Some m, Err (null_arg ''buf''))
           else (c, Some (write_cstr (take (unat n) m) (str_bytes (co_last_error c)) @ drop (unat n) m), status_ok))"

section \<open>Calls without an instance\<close>

definition plain_status :: "(nc_status, unit) result \<Rightarrow> i32" where
  "plain_status r =
     (case r of Ok _ \<Rightarrow> status_as_i32 StOk | Err st \<Rightarrow> status_as_i32 st | Panic \<Rightarrow> status_as_i32 StPanic)"

definition scenario_of_u32 :: "u32 \<Rightarrow> (nc_status, scenario) result" where
  "scenario_of_u32 s =
     (if s = nc_scenario_as_u32 NcMixed then Ok ScMixed
      else if s = nc_scenario_as_u32 NcPortScan then Ok ScPortScan
      else if s = nc_scenario_as_u32 NcDnsTunnel then Ok ScDnsTunnel
      else Err StInvalidArg)"

text \<open>The file as it is left, if it was created, and the status.\<close>

definition write_demo ::
  "('f, 'r, 'w) core_env \<Rightarrow> string \<Rightarrow> scenario \<Rightarrow> u32 \<Rightarrow> u64 \<Rightarrow> sink option \<times> (nc_status, unit) result" where
  "write_demo env path scenario packets seed =
     (case ev_create env path of
        Err e \<Rightarrow> (None, Err StIo)
      | Panic \<Rightarrow> (None, Panic)
      | Ok file \<Rightarrow>
          (case pcap_writer_new file LinkEthernet DEMO_SNAPLEN of
             (w, Err e) \<Rightarrow> (Some w, Err StIo)
           | (w, Panic) \<Rightarrow> (Some w, Panic)
           | (w, Ok _) \<Rightarrow>
               (case generate pcap_write_record scenario (unat packets) seed w of
                  (w, Err e) \<Rightarrow> (Some w, Err StIo)
                | (w, Panic) \<Rightarrow> (Some w, Panic)
                | (w, Ok _) \<Rightarrow> (case ev_flush env w of (w, r) \<Rightarrow> (Some w, map_err (\<lambda>_. StIo) r)))))"

definition core_write_demo_pcap ::
  "('f, 'r, 'w) core_env \<Rightarrow> bytes option \<Rightarrow> u32 \<Rightarrow> u32 \<Rightarrow> u64 \<Rightarrow> sink option \<times> i32" where
  "core_write_demo_pcap env path scenario packets seed =
     (case and_then (map_err ce_status (utf8_arg path ''path'')) (\<lambda>path.
           and_then (scenario_of_u32 scenario) (\<lambda>scenario. Ok (path, scenario))) of
        Ok (path, scenario) \<Rightarrow>
          (case write_demo env path scenario packets seed of (f, r) \<Rightarrow> (f, plain_status r))
      | Err st \<Rightarrow> (None, plain_status (Err st))
      | Panic \<Rightarrow> (None, plain_status Panic))"

definition core_list_devices ::
  "('f, 'r, 'w) core_env \<Rightarrow> nc_device list option \<Rightarrow> u32 \<Rightarrow> u32 option \<Rightarrow> 'w \<Rightarrow>
   'w \<times> nc_device list option \<times> u32 option \<times> i32" where
  "core_list_devices env out capacity found w =
     (case found of
        None \<Rightarrow> (w, out, None, plain_status (Err StNullArg))
      | Some _ \<Rightarrow>
          (case list_devices (ev_c env) w of
             (w, Err e) \<Rightarrow> (w, out, found, plain_status (Err (ce_status e)))
           | (w, Panic) \<Rightarrow> (w, out, found, plain_status Panic)
           | (w, Ok devices) \<Rightarrow>
               let found = Some (of_nat (length devices)) in
               if capacity = 0 then (w, out, found, plain_status (Ok ()))
               else (case out of
                   None \<Rightarrow> (w, None, found, plain_status (Err StNullArg))
                 | Some slots \<Rightarrow>
                     let new = map (\<lambda>d. nc_device_new (di_name d) (di_description d) (di_flags d)) devices;
                         n = min (unat capacity) (length slots)
                     in (w, Some (take n new @ drop (min n (length new)) slots), found, plain_status (Ok ())))))"

definition core_status_str :: "i32 \<Rightarrow> string" where
  "core_status_str status =
     (if status = 0 then ''ok''
      else if status = - 1 then ''null argument''
      else if status = - 2 then ''invalid argument''
      else if status = - 3 then ''invalid state''
      else if status = - 4 then ''i/o error''
      else if status = - 5 then ''capture error''
      else if status = - 6 then ''capture library (npcap/libpcap) not installed''
      else if status = - 7 then ''permission denied''
      else if status = - 8 then ''internal panic''
      else if status = - 9 then ''rules error''
      else if status = - 10 then ''bad file format''
      else ''unknown status'')"

lemma is_utf8_iff: "is_utf8 bs \<longleftrightarrow> utf8 bs"
proof
  show "is_utf8 bs \<Longrightarrow> utf8 bs"
  proof (induction bs rule: is_utf8.induct)
    case (1 bs)
    show ?case
    proof (cases "bs = []")
      case False
      with 1(2) obtain k where k: "char_len bs = Some k" "is_utf8 (drop k bs)"
        by (subst (asm) is_utf8.simps) (auto split: option.splits)
      then have "utf8 (take k bs @ drop k bs)"
        using 1(1) [OF False k] char_len_pos [OF k(1)] utf8_append utf8_single by blast
      then show ?thesis by simp
    qed (simp add: utf8_Nil)
  qed
  assume "utf8 bs"
  then obtain cs where "list_all utf8_char cs" "bs = concat cs" by (auto simp: utf8_def)
  then show "is_utf8 bs"
  proof (induction cs arbitrary: bs)
    case (Cons c cs)
    have "c \<noteq> []" using Cons.prems(1) utf8_char_head by auto
    then show ?case using Cons char_len_of_char [of c "concat cs"] by (subst is_utf8.simps) simp
  qed (simp add: is_utf8.simps)
qed

text \<open>A string argument is accepted exactly when its bytes before the NUL are UTF-8, and read as they are.\<close>

lemma utf8_arg_Ok:
  "utf8_arg p what = Ok s \<longleftrightarrow> (\<exists>m. p = Some m \<and> utf8 (c_string m) \<and> s = byte_string (c_string m))"
  by (auto simp: utf8_arg_def is_utf8_iff split: option.splits)

end
