(* ===== verification/Ffi_Api.thy ===== *)
theory Ffi_Api
  imports Ffi
begin

text \<open>
  The C interface as a machine: sequences of calls on one instance, with the capture thread's frames
  and the exporter's alerts between them.  An invariant of the instance's operations is an invariant of
  every such sequence; two are shown, one of the instance and one of the handles of the capture library.
\<close>

section \<open>Calls\<close>

datatype api_call =
    CallFeed u64 "bytes option" u32 u32
  | CallOpenLive "bytes option" u8
  | CallOpenFile "bytes option" u8
  | CallLoadRules "bytes option"
  | CallConnect "bytes option"
  | CallDisconnect
  | CallStart
  | CallStop
  | CallPollStats "nc_stats option"
  | CallPollTopFlows "nc_flow list option" u32 "u32 option"
  | CallPollAlert "nc_alert option"
  | CallLastError "bytes option" u32
  | CaptureFrame "c_frame option"
  | AnomalyAlert alert

text \<open>The capture thread delivers frames while the capture runs.\<close>

definition deliver :: "('f, 'r, 'w) core_env \<Rightarrow> c_frame option \<Rightarrow> ('f, 'r) nc_core \<Rightarrow> ('f, 'r) nc_core" where
  "deliver env frame c =
     (if is_running (co_capture c)
      then (case on_frame env frame (Some (co_shared c)) of Some sh \<Rightarrow> c\<lparr>co_shared := sh\<rparr> | None \<Rightarrow> c)
      else c)"

definition raise_anomaly :: "alert \<Rightarrow> ('f, 'r) nc_core \<Rightarrow> ('f, 'r) nc_core" where
  "raise_anomaly a c = c\<lparr>co_shared := push_alert (co_shared c) a\<rparr>"

fun api_step ::
  "('f, 'r, 'w) core_env \<Rightarrow> api_call \<Rightarrow> ('f, 'r) nc_core option \<Rightarrow> 'w \<Rightarrow> ('f, 'r) nc_core option \<times> 'w \<times> i32" where
  "api_step env (CallFeed ts data caplen wire_len) core w = core_feed_packet env ts data caplen wire_len core w"
| "api_step env (CallOpenLive iface promisc) core w = core_open_live env iface promisc core w"
| "api_step env (CallOpenFile path realtime) core w = core_open_file env path realtime core w"
| "api_step env (CallLoadRules path) core w = core_load_rules env path core w"
| "api_step env (CallConnect endpoint) core w = core_connect_analytics env endpoint core w"
| "api_step env CallDisconnect core w = core_disconnect_analytics core w"
| "api_step env CallStart core w = core_start env core w"
| "api_step env CallStop core w = core_stop env core w"
| "api_step env (CallPollStats out) core w = (case core_poll_stats env out core w of (core, (w, _), r) \<Rightarrow> (core, w, r))"
| "api_step env (CallPollTopFlows out capacity written) core w =
     (case core_poll_top_flows env out capacity written core of (core, _, r) \<Rightarrow> (core, w, r))"
| "api_step env (CallPollAlert out) core w = (case core_poll_alert out core of (core, _, r) \<Rightarrow> (core, w, r))"
| "api_step env (CallLastError buf n) core w = (case core_last_error buf n core of (core, _, r) \<Rightarrow> (core, w, r))"
| "api_step env (CaptureFrame frame) core w = (map_option (deliver env frame) core, w, 0)"
| "api_step env (AnomalyAlert a) core w = (map_option (raise_anomaly a) core, w, 0)"

fun api_run ::
  "('f, 'r, 'w) core_env \<Rightarrow> api_call list \<Rightarrow> ('f, 'r) nc_core option \<Rightarrow> 'w \<Rightarrow> ('f, 'r) nc_core option \<times> 'w" where
  "api_run env [] core w = (core, w)"
| "api_run env (c # cs) core w = (case api_step env c core w of (core, w, _) \<Rightarrow> api_run env cs core w)"

section \<open>\<open>guarded\<close>\<close>

text \<open>What holds after the body of a call, and after its error is noted, holds after the call.\<close>

lemma guarded_induct:
  assumes "guarded core s f = (core', s', r)" and "pred_option (\<lambda>c. P c s) core"
    and "\<And>c c' s' r. P c s \<Longrightarrow> f c s = (c', s', r) \<Longrightarrow> P c' s'"
    and "\<And>c m. P c s' \<Longrightarrow> P (set_error c m) s'"
  shows "pred_option (\<lambda>c. P c s') core'"
  using assms by (cases core) (auto simp: guarded_def split: prod.splits result.splits)

lemma guarded_Some:
  "guarded (Some c) s f =
     (case f c s of
        (c, s, Ok value) \<Rightarrow> (Some c, s, value)
      | (c, s, Err e) \<Rightarrow> (Some (set_error c (ce_message e)), s, status_as_i32 (ce_status e))
      | (c, s, Panic) \<Rightarrow> (Some (set_error c ''internal panic in netcore''), s, status_as_i32 StPanic))"
  unfolding guarded_def option.case(2) ..

section \<open>Invariants of an instance\<close>

text \<open>
  An invariant of the operations of an instance, with the state of the capture library, is an
  invariant of the machine.
\<close>

locale instance_invariant =
  fixes env :: "('f, 'r, 'w) core_env" and inv :: "('f, 'r) nc_core \<Rightarrow> 'w \<Rightarrow> bool"
  assumes inv_feed: "inv c w \<Longrightarrow> inv (core_feed env c ts data n) w"
    and inv_live: "inv c w \<Longrightarrow> open_live env iface promisc c w = (c', w', r) \<Longrightarrow> inv c' w'"
    and inv_file: "inv c w \<Longrightarrow> open_file env path realtime c w = (c', w', r) \<Longrightarrow> inv c' w'"
    and inv_load: "inv c w \<Longrightarrow> core_load env path c = (c', n') \<Longrightarrow> inv c' w"
    and inv_connect: "inv c w \<Longrightarrow> inv (c\<lparr>co_analytics := a\<rparr>) w"
    and inv_start: "inv c w \<Longrightarrow> capture_start env c w = (c', w', r) \<Longrightarrow> inv c' w'"
    and inv_stop: "inv c w \<Longrightarrow> capture_stop env c w = (c', w', r) \<Longrightarrow> inv c' w'"
    and inv_stats: "inv c w \<Longrightarrow> core_stats env c w = (c', w', st) \<Longrightarrow> inv c' w'"
    and inv_pop: "inv c w \<Longrightarrow> core_pop_alert c = (c', x) \<Longrightarrow> inv c' w"
    and inv_push: "inv c w \<Longrightarrow> inv (c\<lparr>co_shared := push_alert (co_shared c) al\<rparr>) w"
    and inv_error: "inv c w \<Longrightarrow> inv (set_error c m) w"
begin

lemma inv_step:
  assumes "api_step env call core w = (core', w', r)" and "pred_option (\<lambda>c. inv c w) core"
  shows "pred_option (\<lambda>c. inv c w') core'"
proof (cases call)
  case (CallFeed ts data caplen wire_len)
  show ?thesis using assms(1) unfolding CallFeed api_step.simps core_feed_packet_def
    by (rule guarded_induct [where P = inv, OF _ assms(2)]) (auto split: if_splits intro: inv_feed inv_error)
next
  case (CallOpenLive iface promisc)
  show ?thesis using assms(1) unfolding CallOpenLive api_step.simps core_open_live_def
    by (rule guarded_induct [where P = inv, OF _ assms(2)])
      (auto split: result.splits prod.splits intro: inv_live inv_error)
next
  case (CallOpenFile path realtime)
  show ?thesis using assms(1) unfolding CallOpenFile api_step.simps core_open_file_def
    by (rule guarded_induct [where P = inv, OF _ assms(2)])
      (auto split: result.splits prod.splits intro: inv_file inv_error)
next
  case (CallLoadRules path)
  show ?thesis using assms(1) unfolding CallLoadRules api_step.simps core_load_rules_def
    by (rule guarded_induct [where P = inv, OF _ assms(2)])
      (auto split: result.splits prod.splits intro: inv_load inv_error)
next
  case (CallConnect endpoint)
  have "inv c' w" if "inv c w" "connect_analytics env e c = (c', x)" for c c' e x
    using that inv_connect by (auto simp: connect_analytics_def Let_def split: result.splits)
  then show ?thesis using assms(1) unfolding CallConnect api_step.simps core_connect_analytics_def
    by - (rule guarded_induct [where P = inv, OF _ assms(2)], auto split: result.splits prod.splits intro: inv_error)
next
  case CallDisconnect
  show ?thesis using assms(1) unfolding CallDisconnect api_step.simps core_disconnect_analytics_def
    by (rule guarded_induct [where P = inv, OF _ assms(2)]) (auto simp: disconnect_analytics_def intro: inv_connect inv_error)
next
  case CallStart
  show ?thesis using assms(1) unfolding CallStart api_step.simps core_start_def
    by (rule guarded_induct [where P = inv, OF _ assms(2)]) (auto split: prod.splits intro: inv_start inv_error)
next
  case CallStop
  show ?thesis using assms(1) unfolding CallStop api_step.simps core_stop_def
    by (rule guarded_induct [where P = inv, OF _ assms(2)]) (auto split: prod.splits intro: inv_stop inv_error)
next
  case (CallPollStats out)
  obtain out' where g: "core_poll_stats env out core w = (core', (w', out'), r)"
    using assms(1) by (auto simp: CallPollStats split: prod.splits)
  have "pred_option (\<lambda>c. inv c (fst (w, out))) core" using assms(2) by simp
  with g [unfolded core_poll_stats_def] have "pred_option (\<lambda>c. inv c (fst (w', out'))) core'"
    by (rule guarded_induct [where P = "\<lambda>c s. inv c (fst s)"])
      (auto split: option.splits prod.splits intro: inv_stats inv_error)
  then show ?thesis by simp
next
  case (CallPollTopFlows out capacity written)
  obtain s' where g: "core_poll_top_flows env out capacity written core = (core', s', r)" and [simp]: "w' = w"
    using assms(1) by (auto simp: CallPollTopFlows split: prod.splits)
  from g [unfolded core_poll_top_flows_def] assms(2) show ?thesis
    by - (rule guarded_induct [where P = "\<lambda>c s. inv c w'"],
      auto split: option.splits prod.splits if_splits intro: inv_error)
next
  case (CallPollAlert out)
  obtain s' where g: "core_poll_alert out core = (core', s', r)" and [simp]: "w' = w"
    using assms(1) by (auto simp: CallPollAlert split: prod.splits)
  from g [unfolded core_poll_alert_def] assms(2) show ?thesis
    by - (rule guarded_induct [where P = "\<lambda>c s. inv c w'"],
      auto split: option.splits prod.splits intro: inv_error inv_pop)
next
  case (CallLastError buf n)
  obtain s' where g: "core_last_error buf n core = (core', s', r)" and [simp]: "w' = w"
    using assms(1) by (auto simp: CallLastError split: prod.splits)
  from g [unfolded core_last_error_def] assms(2) show ?thesis
    by - (rule guarded_induct [where P = "\<lambda>c s. inv c w'"],
      auto split: option.splits if_splits intro: inv_error)
next
  case (CaptureFrame frame)
  have "inv (deliver env frame c) w" if "inv c w" for c
    using that inv_feed [OF that] by (auto simp: deliver_def on_frame_def core_feed_def split: option.splits)
  then show ?thesis using assms by (cases core) (auto simp: CaptureFrame)
next
  case (AnomalyAlert a)
  then show ?thesis using assms inv_push by (cases core) (auto simp: raise_anomaly_def)
qed

lemma inv_run:
  "pred_option (\<lambda>c. inv c w) core \<Longrightarrow> api_run env calls core w = (core', w') \<Longrightarrow> pred_option (\<lambda>c. inv c w') core'"
proof (induction calls arbitrary: core w)
  case (Cons call calls)
  obtain core1 w1 r where s: "api_step env call core w = (core1, w1, r)" by (metis prod_cases3)
  from Cons.IH [OF inv_step [OF s Cons.prems(1)]] show ?case using Cons.prems(2) s by simp
qed simp

end

text \<open>What the operations change of the instance itself.\<close>

lemma install_changes:
  assumes "install env opener c w = (c', w', r)"
  shows "(\<exists>x. c' = c\<lparr>co_capture := x\<rparr>) \<or>
    (\<exists>x link. c' = c\<lparr>co_capture := x, co_shared := (co_shared c)\<lparr>sh_engine := fresh_engine env c link\<rparr>\<rparr>)"
proof (cases "is_running (co_capture c)")
  case True
  then have "c' = c\<lparr>co_capture := co_capture c\<rparr>" using assms by (simp add: install_def)
  then show ?thesis by blast
next
  case False
  let ?c = "c\<lparr>co_capture := None\<rparr>"
  have f: "fresh_engine env ?c link = fresh_engine env c link" for link by (simp add: fresh_engine_def)
  have "c' = ?c \<or> (\<exists>x link. c' = ?c\<lparr>co_shared := (co_shared c)\<lparr>sh_engine := fresh_engine env c link\<rparr>, co_capture := x\<rparr>)
      \<or> (\<exists>link. c' = ?c\<lparr>co_shared := (co_shared c)\<lparr>sh_engine := fresh_engine env c link\<rparr>\<rparr>)"
    using assms False by (auto simp: install_def Let_def f split: prod.splits result.splits option.splits)
  then show ?thesis
  proof (elim disjE exE)
    fix x link
    assume "c' = ?c\<lparr>co_shared := (co_shared c)\<lparr>sh_engine := fresh_engine env c link\<rparr>, co_capture := x\<rparr>"
    then have "c' = c\<lparr>co_capture := x, co_shared := (co_shared c)\<lparr>sh_engine := fresh_engine env c link\<rparr>\<rparr>" by simp
    then show ?thesis by blast
  qed blast+
qed

lemma start_changes: "capture_start env c w = (c', w', r) \<Longrightarrow> \<exists>x. c' = c\<lparr>co_capture := x\<rparr>"
  by (auto simp: capture_start_def split: option.splits prod.splits intro: exI [of _ None])

lemma stop_changes: "capture_stop env c w = (c', w', r) \<Longrightarrow> \<exists>x. c' = c\<lparr>co_capture := x\<rparr>"
  by (cases "co_capture c")
    (auto simp: capture_stop_def split: if_splits prod.splits intro: exI [of _ "co_capture c"])

lemma stats_changes: "core_stats env c w = (c', w', st) \<Longrightarrow> c' = c \<or> (\<exists>m. c' = set_error c m)"
  by (auto simp: core_stats_def capture_state_def Let_def split: option.splits prod.splits if_splits result.splits)

text \<open>An invariant of the instance alone.\<close>

locale core_invariant =
  fixes env :: "('f, 'r, 'w) core_env" and cinv :: "('f, 'r) nc_core \<Rightarrow> bool"
  assumes cinv_feed: "cinv c \<Longrightarrow> cinv (core_feed env c ts data n)"
    and cinv_engine: "cinv c \<Longrightarrow> cinv (c\<lparr>co_shared := (co_shared c)\<lparr>sh_engine := fresh_engine env c link\<rparr>\<rparr>)"
    and cinv_load: "cinv c \<Longrightarrow> core_load env path c = (c', n') \<Longrightarrow> cinv c'"
    and cinv_capture: "cinv c \<Longrightarrow> cinv (c\<lparr>co_capture := x\<rparr>)"
    and cinv_analytics: "cinv c \<Longrightarrow> cinv (c\<lparr>co_analytics := a\<rparr>)"
    and cinv_pop: "cinv c \<Longrightarrow> core_pop_alert c = (c', al) \<Longrightarrow> cinv c'"
    and cinv_push: "cinv c \<Longrightarrow> cinv (c\<lparr>co_shared := push_alert (co_shared c) a'\<rparr>)"
    and cinv_error: "cinv c \<Longrightarrow> cinv (set_error c m)"

sublocale core_invariant \<subseteq> instance_invariant env "\<lambda>c w. cinv c"
proof unfold_locales
  have inst: "cinv c'" if "cinv c" "install env opener c w = (c', w', r)" for opener c c' w w' r
    using install_changes [OF that(2)] that(1) cinv_capture cinv_engine [of "c\<lparr>co_capture := x\<rparr>" for x]
    by (auto simp: fresh_engine_def)
  show "open_live env iface promisc c w = (c', w', r) \<Longrightarrow> cinv c \<Longrightarrow> cinv c'" for c w iface promisc c' w' r
    by (auto simp: open_live_def intro: inst)
  show "open_file env path realtime c w = (c', w', r) \<Longrightarrow> cinv c \<Longrightarrow> cinv c'" for c w path realtime c' w' r
    by (auto simp: open_file_def intro: inst)
qed (auto intro: cinv_feed cinv_load cinv_analytics cinv_pop cinv_push cinv_error cinv_capture
  dest!: start_changes stop_changes stats_changes)

context core_invariant
begin

lemma core_run:
  "pred_option cinv core \<Longrightarrow> api_run env calls core w = (core', w') \<Longrightarrow> pred_option cinv core'"
  by (rule inv_run)

end

section \<open>The engine, the rules and the queue\<close>

lemma rules_evaluate_specs: "map cr_spec (fst (rules_evaluate log2 L rules p out)) = map cr_spec rules"
  by (simp add: rules_evaluate_def rule_evaluate_spec comp_def)

lemma engine_process_rules:
  "map_option (map cr_spec) (en_rules (fst (engine_process log2 LF LR e f))) = map_option (map cr_spec) (en_rules e)"
  using rules_evaluate_specs [of log2 LR "the (en_rules e)"]
  by (cases "parse (ec_link (en_config e)) f"; cases "en_rules e")
    (simp_all add: engine_process_def advance_clock_frame Let_def case_prod_unfold)

lemma ingest_shared:
  "ingest log2 LF LR sh ts n data =
     (let e = fst (engine_process log2 LF LR (sh_engine sh) \<lparr>fr_ts_us = ts, fr_wire_len = n, fr_data = data\<rparr>)
      in foldl push_alert (sh\<lparr>sh_engine := with_alerts e []\<rparr>) (en_alerts e))"
  by (simp add: ingest_def ingest_engine_def drain_alerts_def with_alerts_def Let_def)

lemma ingest_engine_of:
  "sh_engine (ingest log2 LF LR sh ts n data) =
     with_alerts (fst (engine_process log2 LF LR (sh_engine sh) \<lparr>fr_ts_us = ts, fr_wire_len = n, fr_data = data\<rparr>)) []"
  by (simp add: ingest_shared Let_def push_alerts_rest)

lemma ingest_queue: "length (sh_alerts sh) \<le> 1024 \<Longrightarrow> length (sh_alerts (ingest log2 LF LR sh ts n data)) \<le> 1024"
  by (simp add: ingest_shared Let_def alert_queue.items_puts)

text \<open>
  The engine runs the rules that were loaded last, under the configuration of the instance but for the link
  type; no alert waits in the engine between calls; the queue is bounded.
\<close>

definition core_inv :: "('f, 'r) nc_core \<Rightarrow> bool" where
  "core_inv c \<longleftrightarrow>
     (let e = sh_engine (co_shared c) in
      map_option (map cr_spec) (en_rules e) = Some (filter rs_enabled (co_rule_specs c)) \<and>
      en_config e = (co_config c)\<lparr>ec_link := ec_link (en_config e)\<rparr> \<and>
      en_alerts e = [] \<and> length (sh_alerts (co_shared c)) \<le> 1024)"

lemma from_specs_specs: "map cr_spec (rules_from_specs L specs) = filter rs_enabled specs"
  by (simp add: rules_from_specs_def compiled_rule_new_def comp_def)

interpretation core_state: core_invariant env core_inv for env
proof (unfold_locales, goal_cases)
  case (1 c ts data n)
  then show ?case
    by (auto simp: core_inv_def core_feed_def ingest_engine_of engine_process_rules engine_process_config
      ingest_queue Let_def simp del: map_option_eq_Some)
next
  case (3 c path c' n')
  then show ?case
    by (auto simp: core_inv_def core_load_def engine_set_rules_def from_specs_specs Let_def split: result.splits)
next
  case (7 c a')
  then show ?case
    using alert_queue.items_puts [of "co_shared c" "[a']"] by (auto simp: core_inv_def Let_def)
qed (auto simp: core_inv_def fresh_engine_def engine_with_rules_def engine_new_def from_specs_specs set_error_def
  core_pop_alert_def pop_alert_def Let_def split: list.splits)

text \<open>With a cache as documented, the flow table stays well formed and within the configured size.\<close>

context flow_cache
begin

definition table_inv :: "('c, 'r) nc_core \<Rightarrow> bool" where
  "table_inv c \<longleftrightarrow>
     0 < ec_max_flows (co_config c) \<and>
     table_ok (ec_max_flows (co_config c)) (ec_flow_idle_timeout_us (co_config c)) (en_flows (sh_engine (co_shared c)))"

lemma table_inv_core: "ev_lf env = api \<Longrightarrow> core_invariant env table_inv"
  by unfold_locales
    (auto simp: table_inv_def core_feed_def ingest_engine_of table_ok_process table_ok_new fresh_engine_def
      engine_with_rules_def engine_new_def core_load_def engine_set_rules_def core_pop_alert_def pop_alert_def
      set_error_def Let_def split: result.splits list.splits)

lemma table_inv_flows:
  "table_inv c \<Longrightarrow> flow_len api (en_flows (sh_engine (co_shared c))) \<le> ec_max_flows (co_config c)"
  using within_cap [of "flows (en_flows (sh_engine (co_shared c)))"] len [of "flows (en_flows (sh_engine (co_shared c)))"]
  by (simp add: table_inv_def table_ok_def flow_len_def)

end

section \<open>The handles of the capture library\<close>

text \<open>
  The library with a record of which handles are open and whether every call so far was for an open
  one.  A handle is open from the call that gives it with a status of zero until it is closed.
\<close>

definition note_opened :: "i32 \<Rightarrow> handle option \<Rightarrow> handle set \<Rightarrow> handle set" where
  "note_opened code raw hs = (case raw of Some h \<Rightarrow> if code = 0 then insert h hs else hs | None \<Rightarrow> hs)"

definition tracked :: "'w sniffer_c \<Rightarrow> ('w \<times> handle set \<times> bool) sniffer_c" where
  "tracked C =
     \<lparr>sniffer_list_devices = (\<lambda>(w, hs, ok) n. case sniffer_list_devices C w n of (w, r) \<Rightarrow> ((w, hs, ok), r)),
      sniffer_open_live = (\<lambda>(w, hs, ok) name snaplen promisc.
        case sniffer_open_live C w name snaplen promisc of
          (w, code, raw, err) \<Rightarrow> ((w, note_opened code raw hs, ok), code, raw, err)),
      sniffer_open_file = (\<lambda>(w, hs, ok) path.
        case sniffer_open_file C w path of (w, code, raw, err) \<Rightarrow> ((w, note_opened code raw hs, ok), code, raw, err)),
      sniffer_set_callback = (\<lambda>(w, hs, ok) h.
        case sniffer_set_callback C w h of (w, code) \<Rightarrow> ((w, hs, ok \<and> h \<in> hs), code)),
      sniffer_set_realtime = (\<lambda>(w, hs, ok) h v.
        case sniffer_set_realtime C w h v of (w, code) \<Rightarrow> ((w, hs, ok \<and> h \<in> hs), code)),
      sniffer_start = (\<lambda>(w, hs, ok) h. case sniffer_start C w h of (w, code) \<Rightarrow> ((w, hs, ok \<and> h \<in> hs), code)),
      sniffer_stop = (\<lambda>(w, hs, ok) h. case sniffer_stop C w h of (w, code) \<Rightarrow> ((w, hs, ok \<and> h \<in> hs), code)),
      sniffer_poll_finished = (\<lambda>(w, hs, ok) h.
        case sniffer_poll_finished C w h of (w, r) \<Rightarrow> ((w, hs, ok \<and> h \<in> hs), r)),
      sniffer_link_type = (\<lambda>(w, hs, ok) h. sniffer_link_type C w h),
      sniffer_get_stats = (\<lambda>(w, hs, ok) h. case sniffer_get_stats C w h of (w, r) \<Rightarrow> ((w, hs, ok \<and> h \<in> hs), r)),
      sniffer_last_error = (\<lambda>(w, hs, ok) h. sniffer_last_error C w h),
      sniffer_close = (\<lambda>(w, hs, ok) h. (sniffer_close C w h, hs - {h}, ok \<and> h \<in> hs))\<rparr>"

definition handles_of :: "sniffer option \<Rightarrow> handle set" where
  "handles_of capture = (case capture of None \<Rightarrow> {} | Some s \<Rightarrow> {sf_raw s})"

definition handles_inv :: "('f, 'r) nc_core \<Rightarrow> 'w \<times> handle set \<times> bool \<Rightarrow> bool" where
  "handles_inv c = (\<lambda>(w, hs, ok). hs = handles_of (co_capture c) \<and> ok)"

text \<open>Each operation on the state of the tracked library.\<close>

lemma tracked_ops:
  "sniffer_set_callback (tracked C) (w, hs, ok) h =
     ((fst (sniffer_set_callback C w h), hs, ok \<and> h \<in> hs), snd (sniffer_set_callback C w h))"
  "sniffer_set_realtime (tracked C) (w, hs, ok) h v =
     ((fst (sniffer_set_realtime C w h v), hs, ok \<and> h \<in> hs), snd (sniffer_set_realtime C w h v))"
  "sniffer_start (tracked C) (w, hs, ok) h =
     ((fst (sniffer_start C w h), hs, ok \<and> h \<in> hs), snd (sniffer_start C w h))"
  "sniffer_stop (tracked C) (w, hs, ok) h =
     ((fst (sniffer_stop C w h), hs, ok \<and> h \<in> hs), snd (sniffer_stop C w h))"
  "sniffer_poll_finished (tracked C) (w, hs, ok) h =
     ((fst (sniffer_poll_finished C w h), hs, ok \<and> h \<in> hs), snd (sniffer_poll_finished C w h))"
  "sniffer_get_stats (tracked C) (w, hs, ok) h =
     ((fst (sniffer_get_stats C w h), hs, ok \<and> h \<in> hs), snd (sniffer_get_stats C w h))"
  "sniffer_close (tracked C) (w, hs, ok) h = (sniffer_close C w h, hs - {h}, ok \<and> h \<in> hs)"
  by (simp_all add: tracked_def case_prod_unfold)

lemma tracked_drop: "sn_drop (tracked C) (w, {sf_raw s}, True) s = (sniffer_close C w (sf_raw s), {}, True)"
  by (simp add: sn_drop_def tracked_ops)

lemma tracked_set:
  "set_callback (tracked C) (w, {sf_raw s}, True) s = (st, r) \<Longrightarrow> \<exists>w'. st = (w', {sf_raw s}, True)"
  "set_realtime (tracked C) (w, {sf_raw s}, True) s v = (st, r) \<Longrightarrow> \<exists>w'. st = (w', {sf_raw s}, True)"
  by (auto simp: set_callback_def set_realtime_def tracked_ops)

lemma tracked_live:
  "sniffer_new_live (tracked C) (w, {}, True) iface n p = ((w', hs, ok), r) \<Longrightarrow>
   ok \<and> hs = (case r of Ok s \<Rightarrow> {sf_raw s} | _ \<Rightarrow> {})"
  by (auto simp: sniffer_new_live_def tracked_def note_opened_def opened_def
      split: result.splits prod.splits if_splits option.splits)

lemma tracked_file:
  "sniffer_new_file (tracked C) (w, {}, True) path = ((w', hs, ok), r) \<Longrightarrow>
   ok \<and> hs = (case r of Ok s \<Rightarrow> {sf_raw s} | _ \<Rightarrow> {})"
  by (auto simp: sniffer_new_file_def tracked_def note_opened_def opened_def
      split: result.splits prod.splits if_splits option.splits)

text \<open>What opening a source leaves open: the handle of the sniffer it gives, and nothing if it fails.\<close>

definition opens_one :: "'w \<times> handle set \<times> bool \<Rightarrow> (core_error, sniffer) result \<Rightarrow> bool" where
  "opens_one st r \<longleftrightarrow> (\<exists>w. st = (w, (case r of Ok s \<Rightarrow> {sf_raw s} | _ \<Rightarrow> {}), True))"

lemma tracked_replay:
  assumes "open_replay (e\<lparr>ev_c := tracked C\<rparr>) path realtime (w, {}, True) = (st, r)"
  shows "opens_one st r"
proof -
  obtain w1 hs1 ok1 r1 where 1: "sniffer_new_file (tracked C) (w, {}, True) path = ((w1, hs1, ok1), r1)"
    by (metis prod_cases4 surj_pair)
  from tracked_file [OF 1] have 2: "ok1" "hs1 = (case r1 of Ok s \<Rightarrow> {sf_raw s} | _ \<Rightarrow> {})" by auto
  show ?thesis
  proof (cases r1)
    case (Ok s)
    obtain st2 r2 where 3: "set_realtime (tracked C) (w1, {sf_raw s}, True) s realtime = (st2, r2)" by (metis surj_pair)
    from tracked_set(2) [OF 3] obtain w2 where "st2 = (w2, {sf_raw s}, True)" by blast
    then show ?thesis
      using assms 2 3 by (cases r2) (auto simp: open_replay_def 1 Ok tracked_drop opens_one_def)
  qed (use assms 1 2 in \<open>auto simp: open_replay_def opens_one_def\<close>)
qed

lemma tracked_install:
  assumes o: "\<And>w st r. opener (w, {}, True) = (st, r) \<Longrightarrow> opens_one st r"
    and inv: "handles_inv c st" and i: "install (e\<lparr>ev_c := tracked C\<rparr>) opener c st = (c', st', r)"
  shows "handles_inv c' st'"
proof (cases "is_running (co_capture c)")
  case True
  then show ?thesis using inv i by (simp add: install_def)
next
  case False
  obtain w0 where d: "drop_capture (e\<lparr>ev_c := tracked C\<rparr>) st (co_capture c) = (w0, {}, True)"
    using inv by (cases st; cases "co_capture c")
      (auto simp: handles_inv_def handles_of_def drop_capture_def tracked_drop)
  obtain st1 r1 where 1: "opener (w0, {}, True) = (st1, r1)" by (metis surj_pair)
  then have "opens_one st1 r1" by (rule o)
  show ?thesis
  proof (cases r1)
    case (Ok s)
    with \<open>opens_one st1 r1\<close> obtain w1 where w1: "st1 = (w1, {sf_raw s}, True)" by (auto simp: opens_one_def)
    obtain st2 r2 where 2: "set_callback (tracked C) (w1, {sf_raw s}, True) s = (st2, r2)" by (metis surj_pair)
    from tracked_set(1) [OF 2] obtain w2 where "st2 = (w2, {sf_raw s}, True)" by blast
    then show ?thesis
      using i False by (cases "link_from_raw (raw_link_of (sn_link_type (tracked C) st1 s))"; cases r2)
        (auto simp: install_def Let_def d 1 Ok w1 2 tracked_drop handles_inv_def handles_of_def)
  qed (use i False \<open>opens_one st1 r1\<close> in
      \<open>auto simp: install_def Let_def d 1 opens_one_def handles_inv_def handles_of_def\<close>)
qed

interpretation handle_use: instance_invariant "e\<lparr>ev_c := tracked C\<rparr>" handles_inv for e C
proof (unfold_locales, goal_cases)
  case (2 c w iface promisc c' w' r)
  have "opens_one st r" if "sniffer_new_live (tracked C) (w, {}, True) iface n p = (st, r)" for w n p st r
    using tracked_live [of C w iface n p] that by (cases st) (auto simp: opens_one_def)
  note live = this
  have "install (e\<lparr>ev_c := tracked C\<rparr>) (\<lambda>w. sniffer_new_live (tracked C) w iface (co_snaplen c) promisc) c w = (c', w', r)"
    using 2(2) by (simp add: open_live_def)
  then show ?case by (rule tracked_install [rotated 2]) (auto intro: live 2(1))
next
  case (3 c w path realtime c' w' r)
  then show ?case by (auto simp: open_file_def intro: tracked_install tracked_replay)
qed (auto simp: handles_inv_def handles_of_def core_feed_def core_load_def capture_start_def capture_stop_def
  sn_start_def sn_stop_def core_stats_def capture_state_def sn_stats_def sn_finished_def tracked_ops
  core_pop_alert_def set_error_def Let_def split: result.splits prod.splits option.splits if_splits)

section \<open>Properties\<close>

lemma core_new_parts:
  assumes "core_new env cfg = Ok c"
  shows "co_capture c = None" "co_analytics c = None" "sh_alerts (co_shared c) = []"
    "sh_alerts_total (co_shared c) = 0" "sh_alerts_dropped (co_shared c) = 0"
    "sh_engine (co_shared c) =
       engine_with_rules (engine_new (ev_lf env) (co_config c)) (rules_from_specs (ev_lr env) (co_rule_specs c))"
    "0 < ec_max_flows (co_config c)"
proof -
  have "0 < ec_max_flows config" if "nc_engine_config cfg = Ok config" for config
    using that
    by (auto simp: nc_engine_config_def Let_def and_then_Ok_iff engine_config_default_def DEFAULT_MAX_FLOWS_def
        unat_gt_0 split: if_splits)
  then show "co_capture c = None" "co_analytics c = None" "sh_alerts (co_shared c) = []"
    "sh_alerts_total (co_shared c) = 0" "sh_alerts_dropped (co_shared c) = 0"
    "sh_engine (co_shared c) =
       engine_with_rules (engine_new (ev_lf env) (co_config c)) (rules_from_specs (ev_lr env) (co_rule_specs c))"
    "0 < ec_max_flows (co_config c)"
    using assms by (auto simp: core_new_def and_then_Ok_iff)
qed

lemma core_create_Some: "core_create env config = Some c \<Longrightarrow> \<exists>cfg. core_new env cfg = Ok c"
  by (auto simp: core_create_def Let_def split: result.splits)

lemma core_inv_new: "core_new env cfg = Ok c \<Longrightarrow> core_inv c"
  using core_new_parts [of env cfg c]
  by (auto simp: core_inv_def engine_with_rules_def engine_new_def from_specs_specs)

text \<open>An instance stays an instance.\<close>

lemma guarded_is_Some: "guarded (Some c) s f = (core', s', r) \<Longrightarrow> \<exists>c'. core' = Some c'"
  by (auto simp: guarded_def split: prod.splits result.splits)

lemma api_step_live: "\<exists>c' w' r. api_step env call (Some c) w = (Some c', w', r)"
proof -
  obtain core' w' r where s: "api_step env call (Some c) w = (core', w', r)" by (metis prod_cases3)
  have "\<exists>c'. core' = Some c'"
    using s by (cases call)
      (auto simp: core_feed_packet_def core_open_live_def core_open_file_def core_load_rules_def
        core_connect_analytics_def core_disconnect_analytics_def core_start_def core_stop_def core_poll_stats_def
        core_poll_top_flows_def core_poll_alert_def core_last_error_def split: prod.splits dest!: guarded_is_Some)
  with s show ?thesis by blast
qed

lemma api_run_live: "\<exists>c' w'. api_run env calls (Some c) w = (Some c', w')"
proof (induction calls arbitrary: c w)
  case (Cons call calls)
  obtain c' w' r where "api_step env call (Some c) w = (Some c', w', r)" using api_step_live [of env call c w] by blast
  with Cons.IH [of c' w'] show ?case by simp
qed simp



text \<open>A library with one source, and an instance without rules.\<close>

definition sample_c :: "nat sniffer_c" where
  "sample_c =
     \<lparr>sniffer_list_devices = (\<lambda>w n. (w, 0, [], 0, [])),
      sniffer_open_live = (\<lambda>w name snaplen promisc. (Suc w, 0, Some w, [])),
      sniffer_open_file = (\<lambda>w path. (Suc w, 0, Some w, [])),
      sniffer_set_callback = (\<lambda>w h. (w, 0)), sniffer_set_realtime = (\<lambda>w h v. (w, 0)),
      sniffer_start = (\<lambda>w h. (w, 0)), sniffer_stop = (\<lambda>w h. (w, 0)),
      sniffer_poll_finished = (\<lambda>w h. (w, 0, 0)), sniffer_link_type = (\<lambda>w h. 1),
      sniffer_get_stats = (\<lambda>w h. (w, 0, \<lparr>cs_delivered = 0, cs_received = 0, cs_dropped = 0, cs_if_dropped = 0\<rparr>)),
      sniffer_last_error = (\<lambda>w h. []), sniffer_close = (\<lambda>w h. w)\<rparr>"

definition sample_core_env ::
  "((flow_key, flow_stats) list_lru, (ip_addr, source_state) list_lru, nat) core_env" where
  "sample_core_env =
     \<lparr>ev_log2 = (\<lambda>x. x), ev_lf = list_lru_api, ev_lr = list_lru_api,
      ev_yaml = (\<lambda>t. Ok \<lparr>rf_version = 1, rf_rules = []\<rparr>), ev_default_yaml = [],
      ev_read_to_string = (\<lambda>path. Ok []), ev_create = (\<lambda>path. Ok \<lparr>sk_written = [], sk_room = None\<rparr>),
      ev_flush = (\<lambda>s. (s, Ok ())), ev_start_link = (\<lambda>e. Ok link_new), ev_spawn = Ok (), ev_c = sample_c\<rparr>"

definition sample_core :: "((flow_key, flow_stats) list_lru, (ip_addr, source_state) list_lru) nc_core" where
  "sample_core =
     \<lparr>co_analytics = None, co_capture = None,
      co_shared =
        \<lparr>sh_engine = engine_with_rules (engine_new list_lru_api engine_config_default) [],
         sh_alerts = [], sh_alerts_total = 0, sh_alerts_dropped = 0\<rparr>,
      co_config = engine_config_default, co_snaplen = 65535, co_rule_specs = [], co_last_error = []\<rparr>"

lemma sample_core_created: "core_create sample_core_env None = Some sample_core"
  by (simp add: core_create_def core_new_def nc_config_default_def nc_engine_config_def parse_builtin_def
      rules_parse_def sample_core_env_def sample_core_def SUPPORTED_VERSION_def rules_from_specs_def
      DEFAULT_SNAPLEN_def engine_config_default_def Let_def)


end
