(* ===== verification/Ffi_Contract.thy ===== *)
theory Ffi_Contract
  imports Ffi_Api "HOL-Library.Sublist"
begin

text \<open>
  What the C interface promises its caller: the states of the capture source and which calls move between
  them, how errors come back, and that feeding frames is running the engine.
\<close>

section \<open>The result of a call\<close>

text \<open>
  How the result of a call's body becomes the status of the call, and the errors the bodies give: never
  the codes for success or a panic.
\<close>

definition concluded ::
  "('f, 'r) nc_core \<Rightarrow> (core_error, i32) result \<Rightarrow> ('f, 'r) nc_core \<Rightarrow> i32 \<Rightarrow> bool" where
  "concluded c res c' r \<longleftrightarrow>
     (case res of
        Ok v \<Rightarrow> c' = c \<and> r = v
      | Err e \<Rightarrow> c' = set_error c (ce_message e) \<and> r = status_as_i32 (ce_status e)
      | Panic \<Rightarrow> c' = set_error c ''internal panic in netcore'' \<and> r = status_as_i32 StPanic)"

definition proper_error :: "core_error \<Rightarrow> bool" where
  "proper_error e \<longleftrightarrow> ce_status e \<noteq> StOk \<and> ce_status e \<noteq> StPanic"

definition proper :: "(core_error, 'a) result \<Rightarrow> bool" where
  "proper res \<longleftrightarrow> (case res of Ok _ \<Rightarrow> True | Err e \<Rightarrow> proper_error e | Panic \<Rightarrow> False)"

lemma guarded_concluded:
  "guarded (Some c) s f = (Some c', s', r) \<Longrightarrow> \<exists>c1 res. f c s = (c1, s', res) \<and> concluded c1 res c' r"
  by (cases "f c s"; cases "snd (snd (f c s))") (auto simp: guarded_def concluded_def)

lemma core_error_new_simps [simp]: "ce_status (core_error_new st m) = st" "ce_message (core_error_new st m) = m"
  by (simp_all add: core_error_new_def)

lemma proper_simps [simp]:
  "proper (Ok x)" "proper (Err e) \<longleftrightarrow> proper_error e" "\<not> proper Panic"
  "proper_error (core_error_new st m) \<longleftrightarrow> st \<noteq> StOk \<and> st \<noteq> StPanic"
  by (auto simp: proper_def proper_error_def)

lemma map_status_proper [simp]: "map_status code \<noteq> StOk" "map_status code \<noteq> StPanic"
  by (simp_all add: map_status_def)

lemma proper_then: "proper m \<Longrightarrow> (\<And>x. m = Ok x \<Longrightarrow> proper (f x)) \<Longrightarrow> proper (and_then m f)"
  by (cases m) auto

lemma proper_check [simp]: "proper (sniffer_check C w s code)"
  by (simp add: sniffer_check_def)

lemma proper_opened [simp]: "proper (opened code raw err)"
  by (auto simp: opened_def split: option.split)

lemma proper_cstring [simp]: "proper (cstring_new v what)"
  by (simp add: cstring_new_def)

lemma proper_utf8_arg [simp]: "proper (utf8_arg p what)"
  by (auto simp: utf8_arg_def split: option.split)

lemma new_file_result:
  assumes "sniffer_new_file C w path = (w', r)"
  shows "proper r \<and> (\<forall>s. r = Ok s \<longrightarrow> \<not> sf_running s)"
proof -
  have "proper (cstring_new path ''path'')" by simp
  then show ?thesis
    using assms by (cases "cstring_new path ''path''")
      (auto simp: sniffer_new_file_def opened_iffs split: prod.splits)
qed

lemma new_live_result:
  assumes "sniffer_new_live C w iface n p = (w', r)"
  shows "proper r \<and> (\<forall>s. r = Ok s \<longrightarrow> \<not> sf_running s)"
proof -
  have "proper (cstring_new iface ''interface name'')" by simp
  then show ?thesis
    using assms by (cases "cstring_new iface ''interface name''"; cases "2 ^ 31 \<le> unat n")
      (auto simp: sniffer_new_live_def opened_iffs split: prod.splits)
qed

lemma open_replay_result:
  assumes "open_replay env path realtime w = (w', r)"
  shows "proper r \<and> (\<forall>s. r = Ok s \<longrightarrow> \<not> sf_running s)"
proof -
  obtain w1 r1 where 1: "sniffer_new_file (ev_c env) w path = (w1, r1)" by (metis surj_pair)
  note r1 = new_file_result [OF 1]
  show ?thesis
  proof (cases r1)
    case (Ok s)
    obtain w2 r2 where 2: "set_realtime (ev_c env) w1 s realtime = (w2, r2)" by (metis surj_pair)
    then have "proper r2" by (auto simp: set_realtime_def split: prod.splits)
    then show ?thesis using assms r1 by (cases r2) (auto simp: open_replay_def 1 2 Ok)
  qed (use assms r1 1 in \<open>auto simp: open_replay_def\<close>)
qed

section \<open>The states of the capture source\<close>

datatype phase = NoSource | SourceOpened | SourceRunning

datatype call_kind = KOpen | KStart | KStop | KOther

definition phase_of :: "('f, 'r) nc_core \<Rightarrow> phase" where
  "phase_of c =
     (case co_capture c of None \<Rightarrow> NoSource | Some s \<Rightarrow> if sf_running s then SourceRunning else SourceOpened)"

fun kind_of :: "api_call \<Rightarrow> call_kind" where
  "kind_of (CallOpenLive _ _) = KOpen"
| "kind_of (CallOpenFile _ _) = KOpen"
| "kind_of CallStart = KStart"
| "kind_of CallStop = KStop"
| "kind_of _ = KOther"

text \<open>
  What a caller may rely on: the state before, the status of the call, the state after.  A source is
  opened only while none runs; opening closes the old one even when the new one fails, unless its name
  was refused; a running source is stopped whatever the library says.
\<close>

inductive lifecycle :: "call_kind \<Rightarrow> phase \<Rightarrow> i32 \<Rightarrow> phase \<Rightarrow> bool" where
  bad_name: "r = status_as_i32 StNullArg \<or> r = status_as_i32 StInvalidArg \<Longrightarrow> lifecycle KOpen p r p"
| open_refused: "lifecycle KOpen SourceRunning (status_as_i32 StState) SourceRunning"
| open_failed: "p \<noteq> SourceRunning \<Longrightarrow> r \<noteq> 0 \<Longrightarrow> lifecycle KOpen p r NoSource"
| open_ok: "p \<noteq> SourceRunning \<Longrightarrow> lifecycle KOpen p 0 SourceOpened"
| start_refused: "lifecycle KStart NoSource (status_as_i32 StState) NoSource"
| start_failed: "p \<noteq> NoSource \<Longrightarrow> r \<noteq> 0 \<Longrightarrow> lifecycle KStart p r p"
| start_ok: "p \<noteq> NoSource \<Longrightarrow> lifecycle KStart p 0 SourceRunning"
| stop_refused: "p \<noteq> SourceRunning \<Longrightarrow> lifecycle KStop p (status_as_i32 StState) p"
| stop: "lifecycle KStop SourceRunning r SourceOpened"
| other: "lifecycle KOther p r p"

inductive_cases lifecycle_openE: "lifecycle KOpen p r p'"
inductive_cases lifecycle_startE: "lifecycle KStart p r p'"

text \<open>The same by the result of the body: an error's code is not zero.\<close>

definition status_of :: "(core_error, 'a) result \<Rightarrow> i32" where
  "status_of res = (case res of Ok _ \<Rightarrow> 0 | Err e \<Rightarrow> status_as_i32 (ce_status e) | Panic \<Rightarrow> status_as_i32 StPanic)"

lemma status_nonzero: "st \<noteq> StOk \<Longrightarrow> status_as_i32 st \<noteq> 0"
  by (cases st) simp_all

lemma status_of_proper: "proper res \<Longrightarrow> status_of res = 0 \<longleftrightarrow> (\<exists>x. res = Ok x)"
  by (cases res) (auto simp: proper_error_def status_of_def status_nonzero)

lemma phase_of_set [simp]:
  "phase_of (set_error c m) = phase_of c" "phase_of (c\<lparr>co_shared := sh\<rparr>) = phase_of c"
  "phase_of (c\<lparr>co_capture := None\<rparr>) = NoSource" "phase_of (c\<lparr>co_analytics := a\<rparr>) = phase_of c"
  "phase_of (c\<lparr>co_rule_specs := specs\<rparr>) = phase_of c" "phase_of (core_feed env c ts data n) = phase_of c"
  by (simp_all add: phase_of_def set_error_def core_feed_def)

lemma running_phase: "is_running (co_capture c) \<longleftrightarrow> phase_of c = SourceRunning"
  by (auto simp: is_running_def phase_of_def split: option.split)

lemma install_lifecycle:
  assumes o: "\<And>w w' r. opener w = (w', r) \<Longrightarrow> proper r \<and> (\<forall>s. r = Ok s \<longrightarrow> \<not> sf_running s)"
    and i: "install env opener c w = (c', w', res)"
  shows "proper res \<and> lifecycle KOpen (phase_of c) (status_of res) (phase_of c')"
proof (cases "phase_of c = SourceRunning")
  case True
  then show ?thesis
    using i lifecycle.open_refused by (auto simp: install_def running_phase status_of_def)
next
  case False
  have failed: "?thesis" if "phase_of c' = NoSource" "proper res" "\<forall>x. res \<noteq> Ok x"
    using that False status_of_proper [OF that(2)] lifecycle.open_failed [of "phase_of c" "status_of res"] by simp
  let ?w = "drop_capture env w (co_capture c)"
  obtain w1 r1 where 1: "opener ?w = (w1, r1)" by (metis surj_pair)
  note r1 = o [OF 1]
  show ?thesis
  proof (cases r1)
    case (Ok s)
    obtain w2 r2 where 2: "set_callback (ev_c env) w1 s = (w2, r2)" by (metis surj_pair)
    then have p: "proper r2" by (auto simp: set_callback_def split: prod.splits)
    show ?thesis
    proof (cases "link_from_raw (raw_link_of (sn_link_type (ev_c env) w1 s))")
      case None
      then show ?thesis using i False by (intro failed) (auto simp: install_def running_phase Let_def 1 Ok)
    next
      case (Some link)
      show ?thesis
      proof (cases r2)
        case r2: (Ok u)
        have "res = Ok ()" "phase_of c' = SourceOpened"
          using i False r1 by (auto simp: install_def running_phase Let_def 1 Ok 2 r2 Some phase_of_def)
        then show ?thesis using lifecycle.open_ok [OF False] by (simp add: status_of_def)
      next
        case (Err e)
        then show ?thesis using i False p
          by (intro failed) (auto simp: install_def running_phase Let_def 1 Ok 2 Some)
      next
        case Panic
        then show ?thesis using p by simp
      qed
    qed
  next
    case (Err e)
    then show ?thesis using i False r1 by (intro failed) (auto simp: install_def running_phase Let_def 1)
  next
    case Panic
    then show ?thesis using r1 by simp
  qed
qed

section \<open>Every call\<close>

text \<open>The other code does not panic: the YAML reader, reading a file, and starting the analytics threads.\<close>

definition quiet :: "('f, 'r, 'w) core_env \<Rightarrow> bool" where
  "quiet env \<longleftrightarrow>
     (\<forall>t. ev_yaml env t \<noteq> Panic) \<and> (\<forall>p. ev_read_to_string env p \<noteq> Panic) \<and>
     (\<forall>e. ev_start_link env e \<noteq> Panic) \<and> ev_spawn env \<noteq> Panic"

lemma proper_map_err: "m \<noteq> Panic \<Longrightarrow> (\<And>e. proper_error (f e)) \<Longrightarrow> proper (map_err f m)"
  by (cases m) auto

lemma rules_parse_not_panic: "yaml t \<noteq> Panic \<Longrightarrow> rules_parse yaml t \<noteq> Panic"
  by (auto simp: rules_parse_def and_then_Panic_iff panic_free Let_def)

lemma parse_file_proper: "quiet env \<Longrightarrow> proper (parse_file env path)"
  unfolding parse_file_def
  by (rule proper_map_err)
    (auto simp: quiet_def rules_load_def and_then_Panic_iff rules_parse_not_panic)

lemma analytics_start_proper: "quiet env \<Longrightarrow> proper (analytics_start (ev_start_link env) (ev_spawn env) endpoint)"
  unfolding analytics_start_def by (intro proper_then proper_map_err) (auto simp: quiet_def)

lemma clamp_i32_nonneg: "0 \<le> sint (clamp_i32 n)"
proof (cases "n < 2 ^ 31")
  case True
  then have "sint (word_of_nat n :: i32) = int n"
    by (simp add: signed_of_nat signed_take_bit_int_eq_self)
  then show ?thesis using True by (simp add: clamp_i32_def)
qed (simp add: clamp_i32_def)

text \<open>The body's result is a success with a status that is not negative, or a proper error.\<close>

definition fine :: "(core_error, i32) result \<Rightarrow> bool" where
  "fine res \<longleftrightarrow> proper res \<and> (\<forall>v. res = Ok v \<longrightarrow> 0 \<le> sint v)"

lemma fine_simps [simp]:
  "fine (Err e) \<longleftrightarrow> proper_error e" "fine (Ok v) \<longleftrightarrow> 0 \<le> sint v" "fine status_ok" "\<not> fine Panic"
  by (auto simp: fine_def status_ok_def)

lemma fine_then: "proper m \<Longrightarrow> (\<And>x. m = Ok x \<Longrightarrow> fine (f x)) \<Longrightarrow> fine (and_then m f)"
  by (cases m) auto

lemma null_arg_proper [simp]: "proper_error (null_arg what)"
  by (simp add: null_arg_def)

lemma load_fine:
  assumes "core_load env path c = (c', res)" and "quiet env"
  shows "fine (and_then res (\<lambda>n. Ok (clamp_i32 n)))"
proof (rule fine_then)
  show "proper res" using assms(1) parse_file_proper [OF assms(2), of path]
    by (auto simp: core_load_def Let_def split: result.splits)
qed (simp add: clamp_i32_nonneg)

lemma connect_fine:
  assumes "connect_analytics env endpoint c = (c', res)" and "quiet env"
  shows "fine (and_then res (\<lambda>_. status_ok))"
proof (rule fine_then)
  show "proper res" using assms(1) analytics_start_proper [OF assms(2), of endpoint]
    by (auto simp: connect_analytics_def Let_def split: result.splits)
qed simp

lemma open_live_lifecycle:
  assumes "open_live env iface p c w = (c', w', res)"
  shows "proper res \<and> lifecycle KOpen (phase_of c) (status_of res) (phase_of c')"
proof (rule install_lifecycle)
  show "install env (\<lambda>w. sniffer_new_live (ev_c env) w iface (co_snaplen c) p) c w = (c', w', res)"
    using assms by (simp only: open_live_def)
  show "sniffer_new_live (ev_c env) w iface (co_snaplen c) p = (w', r) \<Longrightarrow>
      proper r \<and> (\<forall>s. r = Ok s \<longrightarrow> \<not> sf_running s)" for w w' r
    by (rule new_live_result)
qed

lemma open_file_lifecycle:
  assumes "open_file env path p c w = (c', w', res)"
  shows "proper res \<and> lifecycle KOpen (phase_of c) (status_of res) (phase_of c')"
proof (rule install_lifecycle)
  show "install env (open_replay env path p) c w = (c', w', res)"
    using assms by (simp only: open_file_def)
  show "open_replay env path p w = (w', r) \<Longrightarrow> proper r \<and> (\<forall>s. r = Ok s \<longrightarrow> \<not> sf_running s)" for w w' r
    by (rule open_replay_result)
qed

lemma start_lifecycle:
  assumes "capture_start env c w = (c', w', res)"
  shows "proper res \<and> lifecycle KStart (phase_of c) (status_of res) (phase_of c')"
proof (cases "co_capture c")
  case None
  then show ?thesis using assms lifecycle.start_refused
    by (auto simp: capture_start_def phase_of_def status_of_def)
next
  case (Some s)
  obtain w1 code where 1: "sniffer_start (ev_c env) w (sf_raw s) = (w1, code)" by (metis surj_pair)
  have src: "phase_of c \<noteq> NoSource" using Some by (simp add: phase_of_def)
  show ?thesis
  proof (cases "sniffer_check (ev_c env) w1 s code")
    case (Ok u)
    then have "res = Ok ()" "phase_of c' = SourceRunning"
      using assms by (auto simp: capture_start_def Some sn_start_def 1 phase_of_def)
    then show ?thesis using lifecycle.start_ok [OF src] by (simp add: status_of_def)
  next
    case (Err e)
    then have "res = Err e" "phase_of c' = phase_of c"
      using assms by (auto simp: capture_start_def Some sn_start_def 1 phase_of_def)
    moreover have "proper (Err e :: (core_error, unit) result)" using Err proper_check by metis
    ultimately show ?thesis using lifecycle.start_failed [OF src] status_of_proper [of res] by auto
  next
    case Panic
    then show ?thesis using sniffer_check_iffs(2) by metis
  qed
qed

lemma stop_lifecycle:
  assumes "capture_stop env c w = (c', w', res)"
  shows "proper res \<and> lifecycle KStop (phase_of c) (status_of res) (phase_of c')"
proof (cases "phase_of c = SourceRunning")
  case False
  then have "res = Err (core_error_new StState ''capture is not running'')" "c' = c"
    using assms by (auto simp: capture_stop_def phase_of_def split: option.splits if_splits)
  then show ?thesis using lifecycle.stop_refused [OF False] by (simp add: status_of_def)
next
  case True
  then obtain s where s: "co_capture c = Some s" "sf_running s"
    by (auto simp: phase_of_def split: option.splits if_splits)
  obtain w1 code where 1: "sniffer_stop (ev_c env) w (sf_raw s) = (w1, code)" by (metis surj_pair)
  then have "proper res" "phase_of c' = SourceOpened"
    using assms s by (auto simp: capture_stop_def sn_stop_def Let_def phase_of_def)
  then show ?thesis using lifecycle.stop by (simp add: True)
qed

lemma status_of_then: "status_of (and_then m (\<lambda>_. status_ok)) = status_of m"
  by (cases m) (simp_all add: status_of_def status_ok_def)

lemma fine_then_ok [simp]: "fine (and_then m (\<lambda>_. status_ok)) \<longleftrightarrow> proper m"
  by (cases m) simp_all

lemma concluded_then:
  "concluded c1 (and_then m (\<lambda>_. status_ok)) c' r \<Longrightarrow> r = status_of m \<and> phase_of c' = phase_of c1"
  by (cases m) (auto simp: concluded_def status_of_def status_ok_def)

lemma concluded_phase: "concluded c1 res c' r \<Longrightarrow> phase_of c' = phase_of c1"
  by (cases res) (auto simp: concluded_def)

text \<open>What every call on an instance satisfies, for its kind.\<close>

definition well_behaved :: "call_kind \<Rightarrow> ('f, 'r) nc_core \<Rightarrow> ('f, 'r) nc_core \<Rightarrow> i32 \<Rightarrow> bool" where
  "well_behaved kind c c' r \<longleftrightarrow>
     lifecycle kind (phase_of c) r (phase_of c') \<and> (\<exists>c1 res. concluded c1 res c' r \<and> fine res)"

text \<open>A call whose body runs an operation with a name it first has to read.\<close>

lemma named_call:
  assumes "guarded (Some c) w (\<lambda>c w. case utf8_arg p what of
        Err e \<Rightarrow> (c, w, Err e) | Panic \<Rightarrow> (c, w, Panic) | Ok name \<Rightarrow> f name c w) = (Some c', w', r)"
    and "\<And>name c1 res. f name c w = (c1, w', res) \<Longrightarrow> concluded c1 res c' r \<Longrightarrow>
      fine res \<and> lifecycle kind (phase_of c) r (phase_of c')"
    and "kind = KOpen \<or> kind = KOther"
  shows "well_behaved kind c c' r"
proof -
  obtain c1 res where b: "(case utf8_arg p what of
        Err e \<Rightarrow> (c, w, Err e) | Panic \<Rightarrow> (c, w, Panic) | Ok name \<Rightarrow> f name c w) = (c1, w', res)"
    and r: "concluded c1 res c' r" using guarded_concluded [OF assms(1)] by blast
  show ?thesis
  proof (cases "utf8_arg p what")
    case (Ok name)
    then have "f name c w = (c1, w', res)" using b by simp
    from assms(2) [OF this r] r show ?thesis unfolding well_behaved_def by blast
  next
    case (Err e)
    then have "c1 = c" "res = Err e" using b by auto
    moreover have "ce_status e = StNullArg \<or> ce_status e = StInvalidArg"
      using Err by (auto simp: utf8_arg_def split: option.splits if_splits)
    ultimately have "lifecycle kind (phase_of c) r (phase_of c')" "fine res"
      using r assms(3) by (auto simp: concluded_def proper_error_def intro: lifecycle.bad_name lifecycle.other)
    then show ?thesis using r by (auto simp: well_behaved_def)
  next
    case Panic
    then show ?thesis using proper_utf8_arg [of p what] by simp
  qed
qed

lemma other_call:
  assumes "guarded (Some c) s f = (Some c', s', r)" and "\<And>c1 s' res. f c s = (c1, s', res) \<Longrightarrow> fine res \<and> phase_of c1 = phase_of c"
  shows "well_behaved KOther c c' r"
proof -
  obtain c1 res where b: "f c s = (c1, s', res)" and r: "concluded c1 res c' r"
    using guarded_concluded [OF assms(1)] by blast
  from assms(2) [OF b] r concluded_phase [OF r] lifecycle.other [of "phase_of c" r]
  show ?thesis unfolding well_behaved_def by metis
qed

lemma plain_call:
  assumes "guarded (Some c) w (\<lambda>c w. case f c w of (c, w, r) \<Rightarrow> (c, w, and_then r (\<lambda>_. status_ok))) = (Some c', w', r)"
    and "\<And>c1 w' res. f c w = (c1, w', res) \<Longrightarrow>
      proper res \<and> lifecycle kind (phase_of c) (status_of res) (phase_of c1)"
  shows "well_behaved kind c c' r"
proof -
  obtain c1 res where b: "f c w = (c1, w', res)" and r: "concluded c1 (and_then res (\<lambda>_. status_ok)) c' r"
    using guarded_concluded [OF assms(1)] by (auto split: prod.splits)
  from assms(2) [OF b] concluded_then [OF r] have "lifecycle kind (phase_of c) r (phase_of c')"
    "fine (and_then res (\<lambda>_. status_ok))" by auto
  then show ?thesis using r unfolding well_behaved_def by blast
qed

lemma load_phase: "core_load env path c = (c', res) \<Longrightarrow> phase_of c' = phase_of c"
  by (auto simp: core_load_def Let_def split: result.splits)

lemma pop_phase: "core_pop_alert c = (c', a) \<Longrightarrow> phase_of c' = phase_of c"
  by (auto simp: core_pop_alert_def split: prod.splits)

lemma stats_phase: "core_stats env c w = (c', w', st) \<Longrightarrow> phase_of c' = phase_of c"
  by (auto dest: stats_changes)

lemma api_call_well_behaved:
  assumes "api_step env call (Some c) w = (Some c', w', r)" and "quiet env"
  shows "well_behaved (kind_of call) c c' r"
proof (cases call)
  case (CallFeed ts data caplen wire_len)
  then show ?thesis using assms(1)
    by (auto simp: core_feed_packet_def elim!: other_call split: if_splits)
next
  case (CallOpenLive iface promisc)
  show ?thesis using assms(1) unfolding CallOpenLive api_step.simps core_open_live_def kind_of.simps
    by (rule named_call) (auto split: prod.splits dest: open_live_lifecycle dest!: concluded_then)
next
  case (CallOpenFile path realtime)
  show ?thesis using assms(1) unfolding CallOpenFile api_step.simps core_open_file_def kind_of.simps
    by (rule named_call) (auto split: prod.splits dest: open_file_lifecycle dest!: concluded_then)
next
  case (CallLoadRules path)
  have f: "fine (and_then res (\<lambda>n. Ok (clamp_i32 n))) \<and> lifecycle KOther (phase_of c) r (phase_of c')"
    if "core_load env name c = (c1, res)" "concluded c1 (and_then res (\<lambda>n. Ok (clamp_i32 n))) c' r" for name c1 res
    using load_fine [OF that(1) assms(2)] load_phase [OF that(1)] concluded_phase [OF that(2)] lifecycle.other by metis
  show ?thesis using assms(1) unfolding CallLoadRules api_step.simps core_load_rules_def kind_of.simps
    by (rule named_call) (auto split: prod.splits dest: f)
next
  case (CallConnect endpoint)
  have f: "proper res \<and> lifecycle KOther (phase_of c) r (phase_of c')"
    if k: "connect_analytics env e c = (c1, res)" "concluded c1 (and_then res (\<lambda>_. status_ok)) c' r" for e c1 res
  proof -
    have "phase_of c1 = phase_of c"
      using k(1) by (auto simp: connect_analytics_def Let_def split: result.splits)
    then show ?thesis using connect_fine [OF k(1) assms(2)] concluded_phase [OF k(2)] lifecycle.other by simp
  qed
  show ?thesis using assms(1) unfolding CallConnect api_step.simps core_connect_analytics_def kind_of.simps
    by (rule named_call) (auto split: prod.splits dest: f)
next
  case CallDisconnect
  then show ?thesis using assms(1) by (auto simp: core_disconnect_analytics_def disconnect_analytics_def elim!: other_call)
next
  case CallStart
  show ?thesis using assms(1) unfolding CallStart api_step.simps core_start_def kind_of.simps
    by (rule plain_call) (rule start_lifecycle)
next
  case CallStop
  show ?thesis using assms(1) unfolding CallStop api_step.simps core_stop_def kind_of.simps
    by (rule plain_call) (rule stop_lifecycle)
next
  case (CallPollStats out)
  then obtain s' where "core_poll_stats env out (Some c) w = (Some c', s', r)"
    using assms(1) by (auto split: prod.splits)
  then show ?thesis unfolding CallPollStats kind_of.simps core_poll_stats_def
    by (rule other_call) (auto split: option.splits prod.splits dest: stats_phase)
next
  case (CallPollTopFlows out capacity written)
  then obtain s' where "core_poll_top_flows env out capacity written (Some c) = (Some c', s', r)"
    using assms(1) by (auto split: prod.splits)
  then show ?thesis unfolding CallPollTopFlows kind_of.simps core_poll_top_flows_def
    by (rule other_call) (auto split: option.splits prod.splits if_splits)
next
  case (CallPollAlert out)
  then obtain s' where "core_poll_alert out (Some c) = (Some c', s', r)"
    using assms(1) by (auto split: prod.splits)
  then show ?thesis unfolding CallPollAlert kind_of.simps core_poll_alert_def
    by (rule other_call) (auto split: option.splits prod.splits dest: pop_phase)
next
  case (CallLastError buf n)
  then obtain s' where "core_last_error buf n (Some c) = (Some c', s', r)"
    using assms(1) by (auto split: prod.splits)
  then show ?thesis unfolding CallLastError kind_of.simps core_last_error_def
    by (rule other_call) (auto split: option.splits if_splits)
next
  case (CaptureFrame frame)
  then have r: "concluded (deliver env frame c) (Ok 0) c' r" using assms(1) by (simp add: concluded_def)
  have "phase_of (deliver env frame c) = phase_of c" by (simp add: deliver_def split: option.split)
  then have "lifecycle KOther (phase_of c) r (phase_of c')" using concluded_phase [OF r] lifecycle.other by metis
  then show ?thesis using r unfolding CaptureFrame kind_of.simps well_behaved_def
    by (intro conjI exI [of _ "deliver env frame c"] exI [of _ "Ok 0"]) auto
next
  case (AnomalyAlert a)
  then have r: "concluded (raise_anomaly a c) (Ok 0) c' r" using assms(1) by (simp add: concluded_def)
  have "phase_of (raise_anomaly a c) = phase_of c" by (simp add: raise_anomaly_def)
  then have "lifecycle KOther (phase_of c) r (phase_of c')" using concluded_phase [OF r] lifecycle.other by metis
  then show ?thesis using r unfolding AnomalyAlert kind_of.simps well_behaved_def
    by (intro conjI exI [of _ "raise_anomaly a c"] exI [of _ "Ok 0"]) auto
qed

section \<open>What a call reports\<close>

text \<open>The result of each call, from the operations it is made of: its first error, or its value.\<close>

fun call_result ::
  "('f, 'r, 'w) core_env \<Rightarrow> api_call \<Rightarrow> ('f, 'r) nc_core \<Rightarrow> 'w \<Rightarrow> (core_error, i32) result" where
  "call_result env (CallFeed ts data caplen wire_len) c w =
     (if data = None \<and> caplen \<noteq> 0 then Err (null_arg ''data'') else status_ok)"
| "call_result env (CallOpenLive iface promisc) c w =
     and_then (utf8_arg iface ''iface'') (\<lambda>iface.
     and_then (snd (snd (open_live env iface (promisc \<noteq> 0) c w))) (\<lambda>_. status_ok))"
| "call_result env (CallOpenFile path realtime) c w =
     and_then (utf8_arg path ''path'') (\<lambda>path.
     and_then (snd (snd (open_file env path (realtime \<noteq> 0) c w))) (\<lambda>_. status_ok))"
| "call_result env (CallLoadRules path) c w =
     and_then (utf8_arg path ''path'') (\<lambda>path.
     and_then (parse_file env path) (\<lambda>specs. Ok (clamp_i32 (length (filter rs_enabled specs)))))"
| "call_result env (CallConnect endpoint) c w =
     and_then (utf8_arg endpoint ''endpoint'') (\<lambda>endpoint.
     and_then (analytics_start (ev_start_link env) (ev_spawn env) endpoint) (\<lambda>_. status_ok))"
| "call_result env CallDisconnect c w = status_ok"
| "call_result env CallStart c w = and_then (snd (snd (capture_start env c w))) (\<lambda>_. status_ok)"
| "call_result env CallStop c w = and_then (snd (snd (capture_stop env c w))) (\<lambda>_. status_ok)"
| "call_result env (CallPollStats out) c w = (if out = None then Err (null_arg ''out'') else status_ok)"
| "call_result env (CallPollTopFlows out capacity written) c w =
     (if written = None then Err (null_arg ''written'')
      else if capacity \<noteq> 0 \<and> out = None then Err (null_arg ''out'') else status_ok)"
| "call_result env (CallPollAlert out) c w =
     (if out = None then Err (null_arg ''out'') else Ok (if sh_alerts (co_shared c) = [] then 0 else 1))"
| "call_result env (CallLastError buf n) c w =
     (if buf = None \<or> n = 0 then Err (null_arg ''buf'') else status_ok)"
| "call_result env (CaptureFrame frame) c w = status_ok"
| "call_result env (AnomalyAlert a) c w = status_ok"

lemma operations_proper [simp]:
  "proper (snd (snd (open_live env iface p c w)))" "proper (snd (snd (open_file env iface p c w)))"
  "proper (snd (snd (capture_start env c w)))" "proper (snd (snd (capture_stop env c w)))"
  using open_live_lifecycle [of env iface p c w] open_file_lifecycle [of env iface p c w]
    start_lifecycle [of env c w] stop_lifecycle [of env c w]
  by (metis prod.collapse)+

lemma call_result_fine: "quiet env \<Longrightarrow> fine (call_result env call c w)"
  by (cases call)
    (auto intro!: fine_then simp: parse_file_proper analytics_start_proper clamp_i32_nonneg)

lemma guarded_conclude:
  "guarded (Some c) s f = (Some c', s', r) \<Longrightarrow> \<exists>c1. concluded c1 (snd (snd (f c s))) c' r"
  using guarded_concluded [of c s f c' s' r] by auto

lemma load_result:
  "snd (core_load env path c) = and_then (parse_file env path) (\<lambda>specs. Ok (length (filter rs_enabled specs)))"
  by (cases "parse_file env path") (simp_all add: core_load_def rules_from_specs_def Let_def)

lemma connect_result:
  "snd (connect_analytics env endpoint c) =
     and_then (analytics_start (ev_start_link env) (ev_spawn env) endpoint) (\<lambda>_. Ok ())"
  by (cases "analytics_start (ev_start_link env) (ev_spawn env) endpoint") (simp_all add: connect_analytics_def Let_def)

lemma pop_result: "snd (core_pop_alert c) = (case sh_alerts (co_shared c) of [] \<Rightarrow> None | a # q \<Rightarrow> Some a)"
  by (simp add: core_pop_alert_def pop_alert_def split: list.split)

lemma named_result:
  "snd (snd (case utf8_arg p what of
      Err e \<Rightarrow> (c, w, Err e) | Panic \<Rightarrow> (c, w, Panic) | Ok name \<Rightarrow> f name)) =
   and_then (utf8_arg p what) (\<lambda>name. snd (snd (f name)))"
  by (cases "utf8_arg p what") simp_all

text \<open>The status and the error of a call are those of its result.\<close>

lemma api_call_result:
  assumes "api_step env call (Some c) w = (Some c', w', r)"
  shows "\<exists>c1. concluded c1 (call_result env call c w) c' r"
proof (cases call)
  case (CallFeed ts data caplen wire_len)
  then show ?thesis using assms
    by (auto simp: core_feed_packet_def split: if_splits dest!: guarded_conclude)
next
  case (CallOpenLive iface promisc)
  then show ?thesis using assms
    by (auto simp: core_open_live_def case_prod_unfold named_result dest!: guarded_conclude)
next
  case (CallOpenFile path realtime)
  then show ?thesis using assms
    by (auto simp: core_open_file_def case_prod_unfold named_result dest!: guarded_conclude)
next
  case (CallLoadRules path)
  then show ?thesis using assms
    by (auto simp: core_load_rules_def case_prod_unfold named_result load_result and_then_assoc dest!: guarded_conclude)
next
  case (CallConnect endpoint)
  then show ?thesis using assms
    by (auto simp: core_connect_analytics_def case_prod_unfold named_result connect_result and_then_assoc
      dest!: guarded_conclude)
next
  case CallDisconnect
  then show ?thesis using assms by (auto simp: core_disconnect_analytics_def dest!: guarded_conclude)
next
  case CallStart
  then show ?thesis using assms by (auto simp: core_start_def case_prod_unfold dest!: guarded_conclude)
next
  case CallStop
  then show ?thesis using assms by (auto simp: core_stop_def case_prod_unfold dest!: guarded_conclude)
next
  case (CallPollStats out)
  then obtain s' where "core_poll_stats env out (Some c) w = (Some c', s', r)"
    using assms by (auto split: prod.splits)
  then show ?thesis
    by (cases out) (auto simp: CallPollStats core_poll_stats_def case_prod_unfold dest!: guarded_conclude)
next
  case (CallPollTopFlows out capacity written)
  then obtain s' where "core_poll_top_flows env out capacity written (Some c) = (Some c', s', r)"
    using assms by (auto split: prod.splits)
  then show ?thesis
    by (cases written; cases out; cases "capacity = 0")
      (auto simp: CallPollTopFlows core_poll_top_flows_def case_prod_unfold dest!: guarded_conclude)
next
  case (CallPollAlert out)
  then obtain s' where "core_poll_alert out (Some c) = (Some c', s', r)"
    using assms by (auto split: prod.splits)
  then show ?thesis using pop_result [of c]
    by (cases out; cases "core_pop_alert c"; cases "sh_alerts (co_shared c)")
      (auto simp: CallPollAlert core_poll_alert_def dest!: guarded_conclude)
next
  case (CallLastError buf n)
  then obtain s' where "core_last_error buf n (Some c) = (Some c', s', r)"
    using assms by (auto split: prod.splits)
  then show ?thesis
    by (cases buf; cases "n = 0") (auto simp: CallLastError core_last_error_def dest!: guarded_conclude)
qed (use assms in \<open>auto simp: concluded_def status_ok_def\<close>)

section \<open>Reading an error\<close>

lemma last_error_read:
  assumes "0 < n" and "unat n \<le> length m" and "0 \<notin> set (str_bytes (co_last_error c))"
  shows "\<exists>buf. core_last_error (Some m) n (Some c) = (Some c, Some buf, 0) \<and> length buf = length m \<and>
    drop (unat n) buf = drop (unat n) m \<and> prefix (c_string buf) (str_bytes (co_last_error c)) \<and>
    (length (str_bytes (co_last_error c)) < unat n \<longrightarrow> c_string buf = str_bytes (co_last_error c))"
proof -
  let ?s = "str_bytes (co_last_error c)"
  let ?w = "write_cstr (take (unat n) m) ?s"
  have n: "0 < unat n" "length (take (unat n) m) = unat n" using assms(1,2) by (simp_all add: unat_gt_0)
  then have len: "length ?w = unat n" by simp
  have cs: "c_string ?w = take (char_boundary ?s (min (length ?s) (unat n - 1))) ?s"
    using c_string_written [of "take (unat n) m" ?s] unfolding n(2) using n(1) assms(3) by blast
  let ?k = "char_boundary ?s (min (length ?s) (unat n - 1))"
  have "?k \<le> unat n - 1" using char_boundary_le [of ?s "min (length ?s) (unat n - 1)"] by simp
  then have "length (c_string ?w) < length ?w" using cs len n by simp
  then have "\<exists>x \<in> set ?w. x = 0" unfolding c_string_def using takeWhile_eq_all_conv [of "\<lambda>b. b \<noteq> 0" ?w] by fastforce
  then have "c_string (?w @ drop (unat n) m) = c_string ?w"
    unfolding c_string_def by (auto intro: takeWhile_append1)
  moreover have "core_last_error (Some m) n (Some c) = (Some c, Some (?w @ drop (unat n) m), 0)"
    using assms(1) unsigned_0 by (auto simp: core_last_error_def guarded_def status_ok_def)
  ultimately show ?thesis
    using cs len assms(2) char_boundary_fits [of ?s "unat n"]
    by (intro exI [of _ "?w @ drop (unat n) m"]) (auto simp: take_is_prefix)
qed

lemma status_str_known: "core_status_str (status_as_i32 st) \<noteq> ''unknown status''"
  by (cases st) (simp_all add: core_status_str_def)

lemma status_negative: "sint (status_as_i32 st) < 0 \<longleftrightarrow> st \<noteq> StOk"
  by (cases st) simp_all

lemma status_inj: "status_as_i32 a = status_as_i32 b \<Longrightarrow> a = b"
  by (cases a; cases b) simp_all

section \<open>Feeding is running the engine\<close>

fun feed_packets ::
  "('f, 'r, 'w) core_env \<Rightarrow> frame list \<Rightarrow> ('f, 'r) nc_core option \<Rightarrow> 'w \<Rightarrow> ('f, 'r) nc_core option \<times> 'w \<times> i32 list" where
  "feed_packets env [] core w = (core, w, [])"
| "feed_packets env (f # fs) core w =
     (case core_feed_packet env (fr_ts_us f) (Some (fr_data f)) (of_nat (length (fr_data f))) (fr_wire_len f) core w of
        (core, w, r) \<Rightarrow> (case feed_packets env fs core w of (core, w, rs) \<Rightarrow> (core, w, r # rs)))"

text \<open>A frame as captured: its length fits the argument, and no more of it was captured than there was.\<close>

definition frame_captured :: "frame \<Rightarrow> bool" where
  "frame_captured f \<longleftrightarrow> length (fr_data f) < 2 ^ 32 \<and> length (fr_data f) \<le> unat (fr_wire_len f)"

lemma push_engine: "push_alert (sh\<lparr>sh_engine := e\<rparr>) a = (push_alert sh a)\<lparr>sh_engine := e\<rparr>"
  by (simp add: push_alert_def enqueue_alert_def Let_def)

lemma push_all_engine: "foldl push_alert (sh\<lparr>sh_engine := e\<rparr>) as = (foldl push_alert sh as)\<lparr>sh_engine := e\<rparr>"
  by (induction as arbitrary: sh) (simp_all add: push_engine)

abbreviation ingest_frame where
  "ingest_frame log2 LF LR sh f \<equiv> ingest log2 LF LR sh (fr_ts_us f) (fr_wire_len f) (fr_data f)"

lemma ingest_all_run:
  assumes "en_alerts (sh_engine sh) = []"
  shows "foldl (ingest_frame log2 LF LR) sh fs =
    (let e = engine_run log2 LF LR (sh_engine sh) fs
     in (foldl push_alert sh (en_alerts e))\<lparr>sh_engine := with_alerts e []\<rparr>)"
proof (induction fs rule: rev_induct)
  case Nil
  have "with_alerts (sh_engine sh) [] = sh_engine sh" using with_alerts_simps(3) [of "sh_engine sh"] assms by simp
  then show ?case using assms by (simp add: engine_run_def)
next
  case (snoc f fs)
  let ?e = "engine_run log2 LF LR (sh_engine sh) fs"
  let ?e1 = "fst (engine_process log2 LF LR (with_alerts ?e []) f)"
  have "engine_run log2 LF LR (sh_engine sh) (fs @ [f]) = fst (engine_process log2 LF LR (with_alerts ?e (en_alerts ?e)) f)"
    by (simp add: engine_run_snoc)
  also have "\<dots> = with_alerts ?e1 (en_alerts ?e @ en_alerts ?e1)"
    by (simp only: engine_process_alerts [of _ _ _ ?e "en_alerts ?e"] Let_def)
  finally have run: "engine_run log2 LF LR (sh_engine sh) (fs @ [f]) = with_alerts ?e1 (en_alerts ?e @ en_alerts ?e1)" .
  have "foldl (ingest_frame log2 LF LR) sh (fs @ [f]) =
      ingest_frame log2 LF LR ((foldl push_alert sh (en_alerts ?e))\<lparr>sh_engine := with_alerts ?e []\<rparr>) f"
    by (simp add: snoc Let_def)
  also have "\<dots> = (foldl push_alert sh (en_alerts ?e @ en_alerts ?e1))\<lparr>sh_engine := with_alerts ?e1 []\<rparr>"
    by (cases f) (simp add: ingest_shared Let_def push_all_engine)
  finally show ?case by (simp add: run Let_def)
qed

lemma feed_packets_run:
  "list_all frame_captured fs \<Longrightarrow>
   feed_packets env fs (Some c) w =
     (Some (c\<lparr>co_shared := foldl (ingest_frame (ev_log2 env) (ev_lf env) (ev_lr env)) (co_shared c) fs\<rparr>), w,
      replicate (length fs) 0)"
proof (induction fs arbitrary: c)
  case (Cons f fs)
  let ?n = "of_nat (length (fr_data f)) :: u32"
  have n: "unat ?n = length (fr_data f)" using Cons.prems by (simp add: frame_captured_def unsigned_of_nat take_bit_nat_eq_self)
  then have le: "?n \<le> fr_wire_len f" using Cons.prems by (simp add: frame_captured_def word_le_nat_alt)
  have "raw_slice (Some (fr_data f)) ?n = fr_data f"
    using n by (auto simp: raw_slice_def simp del: of_nat_0_eq_iff)
  then have "core_feed_packet env (fr_ts_us f) (Some (fr_data f)) ?n (fr_wire_len f) (Some c) w =
      (Some (core_feed env c (fr_ts_us f) (fr_data f) (fr_wire_len f)), w, 0)"
    using le by (simp add: core_feed_packet_def guarded_def status_ok_def max_def)
  then show ?case using Cons by (simp add: core_feed_def)
qed simp

text \<open>The counters that a caller reads.\<close>

definition counters_of_stats :: "nc_stats \<Rightarrow> counters" where
  "counters_of_stats s =
     \<lparr>ct_packets = ns_packets s, ct_bytes = ns_bytes s, ct_ipv4 = ns_ipv4 s, ct_ipv6 = ns_ipv6 s,
      ct_tcp = ns_tcp s, ct_udp = ns_udp s, ct_icmp = ns_icmp s, ct_other_l4 = ns_other_l4 s,
      ct_non_ip = ns_non_ip s, ct_fragments = ns_fragments s, ct_dns = ns_dns s,
      ct_dns_errors = ns_dns_errors s, ct_parse_errors = ns_parse_errors s\<rparr>"

lemma counters_of_engine_stats: "counters_of_stats (engine_stats env c) = en_counters (sh_engine (co_shared c))"
  by (simp add: counters_of_stats_def engine_stats_def nc_stats_from_counters_def Let_def)

lemma engine_with_rules_counters:
  "en_counters (engine_run log2 LF LR (engine_with_rules (engine_new LF config) rules) fs) = counters_of (ec_link config) fs"
  using engine_counters [of log2 LF LR config fs] by (simp add: engine_run_counters engine_with_rules_def engine_new_def)

section \<open>Properties\<close>

text \<open>C7. The capture source has three states (none, opened, running), and every call moves between them as
  the abstract machine \<open>lifecycle\<close> allows for its status, whatever the library does: a source is opened
  only while none runs, starting needs a source and stopping a running one (the status says so
  otherwise), a failed start leaves the state, stopping always ends in the opened state, and no other
  call changes it.\<close>

theorem capture_lifecycle:
  assumes "quiet env"
  shows "\<exists>c' w' r. api_step env call (Some c) w = (Some c', w', r) \<and>
    lifecycle (kind_of call) (phase_of c) r (phase_of c')"
proof -
  obtain c' w' r where s: "api_step env call (Some c) w = (Some c', w', r)" using api_step_live [of env call c w] by blast
  from api_call_well_behaved [OF s assms] s show ?thesis unfolding well_behaved_def by blast
qed

lemma sample_quiet: "quiet sample_core_env"
  by (simp add: quiet_def sample_core_env_def)

lemma capture_lifecycle_witness:
  "\<exists>c' w' r. api_step sample_core_env CallStart (Some sample_core) 0 = (Some c', w', r) \<and>
     lifecycle KStart NoSource r (phase_of c')"
  using capture_lifecycle [OF sample_quiet, of CallStart sample_core 0] by (simp add: phase_of_def sample_core_def)



text \<open>C6. Feeding frames is running the engine: fed to a new instance, captured frames all succeed; the
  engine is then the engine of \<open>core\<close> run over them, the queue holds the last 1,024 of the alerts it
  raised, in order, with exact totals; and the statistics a caller polls are the counts of the frames.\<close>

theorem feed_is_engine_run:
  fixes env :: "('f, 'r, 'w) core_env"
  assumes "core_create env config = Some c" and "list_all frame_captured fs"
  defines "e \<equiv> engine_run (ev_log2 env) (ev_lf env) (ev_lr env)
    (engine_with_rules (engine_new (ev_lf env) (co_config c)) (rules_from_specs (ev_lr env) (co_rule_specs c))) fs"
  defines "alerts \<equiv> en_alerts e"
  shows "\<exists>c' st.
    feed_packets env fs (Some c) w = (Some c', w, replicate (length fs) 0) \<and>
    co_shared c' =
      \<lparr>sh_engine = with_alerts e [], sh_alerts = drop (length alerts - 1024) alerts,
       sh_alerts_total = of_nat (length alerts), sh_alerts_dropped = of_nat (length alerts - 1024)\<rparr> \<and>
    core_poll_stats env (Some out) (Some c') w = (Some c', (w, Some st), 0) \<and>
    counters_of_stats st = counters_of (ec_link (co_config c)) fs \<and>
    ns_alerts_total st = of_nat (length alerts) \<and> ns_last_ts_us st = en_last_ts_us e"
proof -
  obtain cfg where n: "core_new env cfg = Ok c" using core_create_Some [OF assms(1)] by blast
  note parts = core_new_parts [OF n]
  let ?sh = "foldl (ingest_frame (ev_log2 env) (ev_lf env) (ev_lr env)) (co_shared c) fs"
  let ?c = "c\<lparr>co_shared := ?sh\<rparr>"
  have "en_alerts (sh_engine (co_shared c)) = []"
    using parts(6) by (simp add: engine_with_rules_def engine_new_def)
  from ingest_all_run [OF this] have "?sh = (foldl push_alert (co_shared c) alerts)\<lparr>sh_engine := with_alerts e []\<rparr>"
    by (simp add: e_def alerts_def parts(6) Let_def)
  then have sh: "?sh = \<lparr>sh_engine = with_alerts e [], sh_alerts = drop (length alerts - 1024) alerts,
       sh_alerts_total = of_nat (length alerts), sh_alerts_dropped = of_nat (length alerts - 1024)\<rparr>"
    using parts(3-5) alert_queue.items_puts [of "co_shared c" alerts] alert_queue.dropped_puts [of "co_shared c" alerts]
    by (simp add: push_alerts_rest)
  have "feed_packets env fs (Some c) w = (Some ?c, w, replicate (length fs) 0)"
    by (rule feed_packets_run [OF assms(2)])
  moreover have "core_poll_stats env (Some out) (Some ?c) w = (Some ?c, (w, Some (engine_stats env ?c)), 0)"
    using parts(1,2) by (simp add: core_poll_stats_def guarded_def core_stats_def analytics_stats_def status_ok_def Let_def)
  moreover have "counters_of_stats (engine_stats env ?c) = counters_of (ec_link (co_config c)) fs"
    unfolding counters_of_engine_stats using sh by (simp add: e_def engine_with_rules_counters)
  moreover have "ns_alerts_total (engine_stats env ?c) = of_nat (length alerts)"
    "ns_last_ts_us (engine_stats env ?c) = en_last_ts_us e"
    using sh by (simp_all add: engine_stats_def Let_def)
  ultimately show ?thesis using sh by (intro exI [of _ ?c] exI [of _ "engine_stats env ?c"]) simp
qed

lemma feed_is_engine_run_witness:
  "\<exists>c' st.
    feed_packets sample_core_env [\<lparr>fr_ts_us = 5, fr_wire_len = 60, fr_data = [1, 2]\<rparr>] (Some sample_core) 0 = (Some c', 0, [0]) \<and>
    core_poll_stats sample_core_env (Some (nc_stats_from_counters counters_default)) (Some c') 0 = (Some c', (0, Some st), 0) \<and>
    counters_of_stats st = counters_of LinkEthernet [\<lparr>fr_ts_us = 5, fr_wire_len = 60, fr_data = [1, 2]\<rparr>]"
proof -
  have "list_all frame_captured [\<lparr>fr_ts_us = 5, fr_wire_len = 60, fr_data = [1, 2]\<rparr>]"
    by (simp add: frame_captured_def)
  from feed_is_engine_run [OF sample_core_created this, of 0 "nc_stats_from_counters counters_default"]
  show ?thesis by (auto simp: sample_core_def engine_config_default_def)
qed

end
