(* ===== verification/Ffi_Flows.thy ===== *)
theory Ffi_Flows
  imports Ffi_Contract
begin

text \<open>
  Flows from frames to the caller: the keys of an instance's table are well formed through every
  sequence of calls, so what \<open>core_poll_top_flows\<close> writes reads back as the table's largest flows.
\<close>

section \<open>Well-formed keys\<close>

context flow_cache
begin

definition keys_wf :: "'c flow_table \<Rightarrow> bool" where
  "keys_wf t \<longleftrightarrow> valid (flows t) \<and> (\<forall>k \<in> fst ` set (entries_of t). key_wf k)"

lemma keys_wf_new: "0 < n \<Longrightarrow> keys_wf (flow_table_new api n timeout)"
  using new [of n] by (simp add: keys_wf_def flow_table_new_def)

lemma keys_wf_expire: "keys_wf t \<Longrightarrow> keys_wf (fst (flow_expire api t now))"
proof -
  assume t: "keys_wf t"
  obtain t' r where x: "flow_expire api t now = (t', r)" by (metis surj_pair)
  from t expire_exact [OF _ x] show ?thesis
    by (auto simp: keys_wf_def x dest!: set_dropWhileD)
qed

lemma keys_wf_update: "keys_wf t \<Longrightarrow> key_wf (fu_key u) \<Longrightarrow> keys_wf (fst (flow_table_update api t u))"
proof -
  assume t: "keys_wf t" and u: "key_wf (fu_key u)"
  obtain t' s where x: "flow_table_update api t u = (t', s)" by (metis surj_pair)
  have v: "valid (flows t)" using t by (simp add: keys_wf_def)
  show ?thesis
  proof (cases "map_of (entries_of t) (fu_key u)")
    case None
    from update_miss [OF v this x] have "valid (flows t')"
      "entries_of t' = add_front (cap (flows t)) (fu_key u) s (entries_of t)" by auto
    then show ?thesis using t u by (auto simp: keys_wf_def x add_front_def dest: in_set_butlastD split: if_splits)
  next
    case (Some s0)
    from update_hit [OF v this x] have "valid (flows t')" "entries_of t' = touch (fu_key u) s (entries_of t)" by auto
    then show ?thesis using t u by (auto simp: keys_wf_def x set_touch)
  qed
qed

lemma keys_wf_process:
  "keys_wf (en_flows e) \<Longrightarrow> keys_wf (en_flows (fst (engine_process log2 api LR e f)))"
proof -
  assume t: "keys_wf (en_flows e)"
  then have c: "keys_wf (clocked api e (fr_ts_us f))"
    by (simp add: clocked_def advance_clock_def Let_def keys_wf_expire)
  have "keys_wf (track_flow api (clocked api e (fr_ts_us f)) p)" if "parse (ec_link (en_config e)) f = Ok p" for p
    using c flow_update_key_wf parse_wf [OF that] by (auto simp: track_flow_def keys_wf_update split: option.split)
  with c show ?thesis by (simp add: engine_process_flows split: result.split)
qed

definition flows_inv :: "('c, 'r) nc_core \<Rightarrow> bool" where
  "flows_inv c \<longleftrightarrow> 0 < ec_max_flows (co_config c) \<and> keys_wf (en_flows (sh_engine (co_shared c)))"

lemma flows_inv_core: "ev_lf env = api \<Longrightarrow> core_invariant env flows_inv"
  by unfold_locales
    (auto simp: flows_inv_def core_feed_def ingest_engine_of keys_wf_process keys_wf_new fresh_engine_def
      engine_with_rules_def engine_new_def core_load_def engine_set_rules_def core_pop_alert_def pop_alert_def
      set_error_def Let_def split: result.splits list.splits)

lemma top_flows_decode:
  assumes "keys_wf t"
  shows "map flow_of_nc (map (\<lambda>(k, s). nc_flow_new k s) (top_by_bytes api t n)) = top_by_bytes api t n"
proof -
  have "set (top_by_bytes api t n) \<subseteq> set (entries_of t)"
    using top_by_bytes_greatest [of t n] assms by (simp add: keys_wf_def)
  then have "key_wf k" if "(k, s) \<in> set (top_by_bytes api t n)" for k s
    using that assms by (force simp: keys_wf_def)
  then show ?thesis by (auto simp: comp_def flow_of_nc_new intro!: map_idI)
qed

end

section \<open>One call\<close>

text \<open>A TCP segment given to \<open>core_feed_packet\<close>, and the flow it makes.\<close>

definition sample_slot :: nc_flow where
  "sample_slot = nc_flow_new (FlowKey (Endpoint (V4 [10, 0, 0, 1]) 80) (Endpoint (V4 [10, 0, 0, 2]) 4000) 6)
     \<lparr>first_seen_us = 1, last_seen_us = 2, fs_packets = (3, 4), fs_bytes = (5, 6), fs_tcp_flags = 7\<rparr>"

definition sample_flow :: "flow_key \<times> flow_stats" where
  "sample_flow =
     (FlowKey (Endpoint (V4 [10, 0, 0, 1]) 53) (Endpoint (V4 [10, 0, 0, 77]) 53001) 6,
      \<lparr>first_seen_us = 5, last_seen_us = 5, fs_packets = (0, 1), fs_bytes = (0, 54), fs_tcp_flags = FLAG_SYN\<rparr>)"

definition sample_frame :: "bytes \<Rightarrow> frame" where
  "sample_frame data = \<lparr>fr_ts_us = 5, fr_wire_len = 54, fr_data = data\<rparr>"

abbreviation sample_parsed :: "bytes \<Rightarrow> packet" where
  "sample_parsed data \<equiv> (parsed_frame (sample_frame data) [10, 0, 0, 77] [10, 0, 0, 1] PROTO_TCP)
     \<lparr>pk_transport := TransportTcp \<lparr>tcp_src_port = 53001, tcp_dst_port = 53, tcp_seq = 0,
        tcp_ack = 0, tcp_flags = FLAG_SYN, tcp_window = 64240\<rparr>\<rparr>"

lemma sample_segment:
  obtains data where "tcp_segment TUNNEL_CLIENT RESOLVER FLAG_SYN 0 = (Ok data :: (io_error, bytes) result)"
    "length data = 54" "parse LinkEthernet (sample_frame data) = Ok (sample_parsed data)"
proof -
  have a: "sa_ip TUNNEL_CLIENT = [10, 0, 0, 77]" "sa_port TUNNEL_CLIENT = 53001"
    "sa_ip RESOLVER = [10, 0, 0, 1]" "sa_port RESOLVER = 53"
    by (simp_all add: TUNNEL_CLIENT_def RESOLVER_def sock_def)
  obtain data where d: "tcp_segment TUNNEL_CLIENT RESOLVER FLAG_SYN 0 = (Ok data :: (io_error, bytes) result)"
    "length data = 54"
    by (auto simp: tcp_segment_def ethernet_ipv4_Ok a Let_def DST_MAC_def SRC_MAC_def SYNTH_ETHERTYPE_IPV4_def ipv4_header_bytes_def)
  then have "tcp_segment TUNNEL_CLIENT RESOLVER FLAG_SYN 0 = (Ok (fr_data (sample_frame data)) :: (io_error, bytes) result)"
    by (simp add: sample_frame_def)
  from that [OF d] parse_tcp_segment [OF _ _ _ this] show thesis by (simp add: a)
qed

lemma sample_tracked:
  assumes "parse LinkEthernet (sample_frame data) = Ok (sample_parsed data)"
  shows "flow_iter list_lru_api (en_flows (fst (engine_process log2 list_lru_api LR (sh_engine (co_shared sample_core))
      (sample_frame data)))) = [sample_flow]"
proof -
  let ?e = "sh_engine (co_shared sample_core)"
  have "clocked list_lru_api ?e 5 = en_flows ?e" "flow_iter list_lru_api (en_flows ?e) = []" "ec_link (en_config ?e) = LinkEthernet"
    "0 < ll_cap (flows (en_flows ?e))"
    by (simp_all add: sample_core_def engine_with_rules_def engine_new_def clocked_def advance_clock_def engine_config_default_def
      flow_expire_def flow_table_new_def list_lru_api_def Let_def flow_iter_def last_opt_def DEFAULT_MAX_FLOWS_def)
  moreover have "flow_iter list_lru_api (fst (flow_table_update list_lru_api t u)) = [(fu_key u, stats_first u)]"
    if "flow_iter list_lru_api t = []" "0 < ll_cap (flows t)" for t u
    using that by (simp add: flow_table_update_def flow_iter_def list_lru_api_def ll_put_def add_front_def Let_def)
  ultimately show ?thesis using assms
    by (simp add: engine_process_flows track_flow_def parsed_frame_def sample_frame_def ipv4_synth_header_def
      flow_update_of_def canonical_def less_eq_endpoint_def less_ip_addr_def stats_first_def sample_flow_def
      PROTO_TCP_def Let_def)
qed
section \<open>Properties\<close>

text \<open>C39. The caller gets the largest flows, and gets them exactly: after any sequence of calls, polling the top
  flows into an array fills its first entries, from which the table's flows with the most bytes read
  back, in order, with their addresses, ports and counters; there are as many as fit and as there are,
  every flow left out has fewer bytes or a smaller key, and the rest of the array is untouched.\<close>

theorem polled_flows_decode:
  assumes "flow_cache (ev_lf env) cap valid" and "core_create env config = Some c"
    and "api_run env calls (Some c) w = (Some c', w')" and "capacity \<noteq> 0" and "unat capacity \<le> length slots"
  defines "table \<equiv> en_flows (sh_engine (co_shared c'))"
  shows "\<exists>out n. core_poll_top_flows env (Some slots) capacity (Some x) (Some c') = (Some c', (Some out, Some (of_nat n)), 0) \<and>
    length out = length slots \<and> drop n out = drop n slots \<and> n = min (unat capacity) (flow_len (ev_lf env) table) \<and>
    set (map flow_of_nc (take n out)) \<subseteq> set (flow_iter (ev_lf env) table) \<and>
    distinct (map fst (map flow_of_nc (take n out))) \<and> sorted_wrt top_order (map flow_of_nc (take n out)) \<and>
    (\<forall>e \<in> set (map flow_of_nc (take n out)). \<forall>e' \<in> set (flow_iter (ev_lf env) table) - set (map flow_of_nc (take n out)).
       rank e' < rank e)"
proof -
  obtain cfg where n: "core_new env cfg = Ok c" using core_create_Some [OF assms(2)] by blast
  have "flow_cache.flows_inv (ev_lf env) valid c"
    using core_new_parts(6,7) [OF n] flow_cache.keys_wf_new [OF assms(1)]
    by (simp add: flow_cache.flows_inv_def [OF assms(1)] engine_with_rules_def engine_new_def)
  then have "flow_cache.flows_inv (ev_lf env) valid c'"
    using core_invariant.core_run [OF flow_cache.flows_inv_core [OF assms(1) refl] _ assms(3)] by simp
  then have k: "flow_cache.keys_wf (ev_lf env) valid table" and v: "valid (flows table)"
    by (simp_all add: table_def flow_cache.flows_inv_def [OF assms(1)] flow_cache.keys_wf_def [OF assms(1)])
  let ?best = "top_by_bytes (ev_lf env) table (unat capacity)"
  let ?new = "map (\<lambda>(k, s). nc_flow_new k s) ?best"
  note best = flow_cache.top_by_bytes_greatest [OF assms(1) v, of "unat capacity"]
  have len: "length ?best = min (unat capacity) (flow_len (ev_lf env) table)"
    using best lru.len [OF flow_cache.axioms [OF assms(1)] v] by (simp add: flow_len_def)
  then have le: "length ?best \<le> unat capacity" by simp
  let ?out = "?new @ drop (length ?best) slots"
  have split: "take (unat capacity) ?new = ?new"
    "drop (length ?best) (take (unat capacity) slots) @ drop (unat capacity) slots = drop (length ?best) slots"
  proof -
    show "take (unat capacity) ?new = ?new" using le by simp
    have "drop (length ?best) (take (unat capacity) slots @ drop (unat capacity) slots) =
        drop (length ?best) (take (unat capacity) slots) @ drop (unat capacity) slots"
      using le assms(5) by (subst drop_append) simp
    then show "drop (length ?best) (take (unat capacity) slots) @ drop (unat capacity) slots = drop (length ?best) slots"
      by simp
  qed
  have "core_poll_top_flows env (Some slots) capacity (Some x) (Some c') =
      (Some c', (Some ?out, Some (of_nat (length ?best))), 0)"
    using assms(4,5) split
    by (simp add: core_poll_top_flows_def guarded_def core_top_flows_def status_ok_def Let_def
      table_def [symmetric] min.absorb2)
  moreover have "map flow_of_nc (take (length ?best) ?out) = ?best"
    using flow_cache.top_flows_decode [OF assms(1) k, of "unat capacity"] by simp
  moreover have "length ?out = length slots" using le assms(5) by simp
  ultimately show ?thesis
    using best len by (intro exI [of _ ?out] exI [of _ "length ?best"]) (simp add: flow_iter_def)
qed

lemma polled_flows_decode_witness:
  "\<exists>data c' out.
     tcp_segment TUNNEL_CLIENT RESOLVER FLAG_SYN 0 = (Ok data :: (io_error, bytes) result) \<and>
     api_run sample_core_env [CallFeed 5 (Some data) 54 54] (Some sample_core) 0 = (Some c', 0) \<and>
     core_poll_top_flows sample_core_env (Some [sample_slot, sample_slot]) 2 (Some 0) (Some c') =
       (Some c', (Some [out, sample_slot], Some 1), 0) \<and>
     flow_of_nc out = sample_flow"
proof -
  obtain data where d: "tcp_segment TUNNEL_CLIENT RESOLVER FLAG_SYN 0 = (Ok data :: (io_error, bytes) result)"
    "length data = 54" and p: "flow_iter list_lru_api (en_flows (fst (engine_process (\<lambda>x. x) list_lru_api list_lru_api
      (sh_engine (co_shared sample_core)) (sample_frame data)))) = [sample_flow]"
    using sample_segment sample_tracked by metis
  define c' where "c' = core_feed sample_core_env sample_core 5 data 54"
  have r: "api_run sample_core_env [CallFeed 5 (Some data) 54 54] (Some sample_core) 0 = (Some c', 0)"
    using d(2) by (simp add: core_feed_packet_def guarded_def raw_slice_def c'_def status_ok_def)
  have t: "flow_iter (ev_lf sample_core_env) (en_flows (sh_engine (co_shared c'))) = [sample_flow]"
    using p by (simp add: c'_def core_feed_def ingest_engine_of sample_core_env_def sample_frame_def with_alerts_def)
  then have "flow_len (ev_lf sample_core_env) (en_flows (sh_engine (co_shared c'))) = 1"
    by (simp add: flow_iter_def flow_len_def sample_core_env_def list_lru_api_def)
  moreover have fc: "flow_cache (ev_lf sample_core_env) ll_cap ll_valid"
    using list_flows.flow_cache_axioms by (simp add: sample_core_env_def)
  ultimately obtain out n where o: "core_poll_top_flows sample_core_env (Some [sample_slot, sample_slot]) 2 (Some 0) (Some c') =
      (Some c', (Some out, Some (of_nat n)), 0)" "length out = 2" "drop 1 out = [sample_slot]" "n = 1"
      "set (map flow_of_nc (take n out)) \<subseteq> {sample_flow}"
    using polled_flows_decode [OF fc sample_core_created r, of 2 "[sample_slot, sample_slot]" 0]
    unfolding t by auto
  then obtain x y where "out = [x, y]" by (auto simp: length_Suc_conv numeral_2_eq_2)
  with o d(1) r show ?thesis by auto
qed

end
