(* ===== verification/Spec2Isabelle.thy ===== *)
theory Spec2Isabelle
  imports Cli Ffi_Flows
begin

text \<open>
  A verification development for the Rust core of netmon-polyglot, a network monitor.  Frames are
  captured (by a C library) or read from a file, parsed, counted, accounted to flows and checked against
  detection rules; flow statistics and alerts go to a user interface over a C interface and to an
  analytics service over gRPC, whose scores come back as alerts.  The program is the Rust workspace
  \<open>src/core-rs\<close>; source paths below are relative to it.

  \<^bold>\<open>Parts and theories.\<close>

  \<^item> \<open>Prelude\<close>: the integer types as words, Rust's results (a value, an \<open>Err\<close>, or a panic), the \<open>?\<close>
    operator, checked reads of slices, byte orders, saturating arithmetic.
  \<^item> \<open>Net_Types\<close> (\<open>core/src/error.rs\<close> and the data types of \<open>core/src/packet\<close>), \<open>Packet\<close> and \<open>Dns\<close>
    (\<open>core/src/packet/*.rs\<close>): one function per parser, as in the source, and \<open>parse\<close>, which composes them.
    Lemmas: no parser panics, errors are honest about lengths, results are well formed; exact
    characterisations of the DNS name decoder and the IPv6 extension chain.
  \<^item> \<open>Lru_Cache\<close> and \<open>Flow\<close> (\<open>core/src/flow.rs\<close>): canonical keys, the flow table over the \<open>lru\<close> crate, expiry,
    and \<open>top_by_bytes\<close> with its bounded heap.  The table is refined to a map from keys to summaries of
    their updates.
  \<^item> \<open>Window\<close> (\<open>core/src/rules/window.rs\<close>), \<open>Float64\<close>, \<open>Rule_Loader\<close> (\<open>core/src/rules/loader.rs\<close>, \<open>core/src/alert.rs\<close>),
    \<open>Rule_Engine\<close> (\<open>core/src/rules/engine.rs\<close> and \<open>mod.rs\<close>): the two sliding windows as instances of one locale,
    validation of rules, and the evaluation of a rule refined to a specification over the history of each
    source.
  \<^item> \<open>Engine\<close> (\<open>core/src/engine.rs\<close>): \<open>process\<close>, which ties parsing, counting, flows, expiry and rules together.
  \<^item> \<open>Pcap\<close> (\<open>core/src/pcap.rs\<close>) and \<open>Synth\<close> (\<open>core/src/synth.rs\<close>): capture files, read and written, and the
    generator of sample traffic, whose frames parse back.
  \<^item> \<open>Cli\<close> (\<open>cli/src/args.rs\<close>, \<open>cli/src/main.rs\<close>): arguments, \<open>gen\<close>, \<open>replay\<close>, the report and the exit status.
  \<^item> \<open>Ffi_Types\<close> (\<open>core-ffi/src/types.rs\<close>) and \<open>Sniffer\<close> (\<open>core-ffi/src/sniffer.rs\<close>): what crosses the C interface, and
    the wrapper of the capture library.
  \<^item> \<open>Shared\<close> (\<open>Shared\<close> of \<open>core-ffi/src/core.rs\<close>): the engine and the alert queue, once as functions and once as
    steps of interleaving threads, cut at the locks and atomic counters.
  \<^item> \<open>Link_Worker\<close> (\<open>core-grpc/src/link.rs\<close>) and \<open>Analytics\<close> (\<open>core-ffi/src/analytics.rs\<close>): the connection to the
    service as a step relation, and the exporter thread.
  \<^item> \<open>Ffi_Core\<close> (\<open>NcCore\<close> of \<open>core-ffi/src/core.rs\<close>), \<open>Ffi\<close> (\<open>core-ffi/src/lib.rs\<close>): an instance of the monitor and the
    exported functions.  \<open>Ffi_Api\<close> makes them a machine of calls; \<open>Ffi_Contract\<close> shows what it promises
    (the states of the capture source, errors, feeding) and \<open>Ffi_Flows\<close> that polled flows are those of the table.

  \<^bold>\<open>How the parts interact.\<close>  A frame comes to \<open>engine_process\<close> from \<open>replay_loop\<close> (a file), from \<open>core_feed_packet\<close>
  or from \<open>on_frame\<close> (the capture thread); the latter two go through \<open>ingest\<close>, which moves the alerts to the
  queue that \<open>core_poll_alert\<close> empties and \<open>exporter_round\<close> adds to.  \<open>replay_is_engine_run\<close> and
  \<open>feed_is_engine_run\<close> reduce the two ways to \<open>engine_run\<close>, so what holds of engine runs (exact counters,
  bounded tables, expiry, rule semantics) holds of both.  \<open>generated_capture_replays\<close> composes the generator,
  the file format and the engine.

  \<^bold>\<open>Interfaces as locales.\<close>  \<open>lru\<close> states the documented behaviour of the cache crate over the list of
  its entries, most recent first; \<open>flow_cache\<close> and \<open>source_cache\<close> extend it for the flow table and the rules'
  sources, and all are interpreted on an association list.  \<open>sliding_window\<close> is what the rules need of a
  window; \<open>layer_parser\<close> what the pipeline needs of a parser; \<open>bounded_queue\<close> what a queue that drops its
  oldest promises.  \<open>instance_invariant\<close> turns an invariant of the operations of an instance into one of every
  sequence of calls, and \<open>core_invariant\<close> is its special case for the instance alone.

  \<^bold>\<open>Parameters.\<close>  Code that is not in the repository is an argument: the cache (\<open>LF\<close>, \<open>LR\<close>, with the contract
  \<open>lru\<close>), \<open>f64::log2\<close>, the YAML reader, files and the clock (\<open>cli_env\<close>, \<open>core_env\<close>; a file being read is the list
  of what its next reads give, one being written has limited room), endpoint parsing and thread creation,
  the C capture library (\<open>sniffer_c\<close>, functions over a state of its own), and, in \<open>link_step\<close>, the network and
  the scheduler, which choose among the enabled steps.  \<open>quiet\<close> says that these do not panic.

  \<^bold>\<open>Numbers.\<close>  \<open>u8\<close> to \<open>u64\<close> and \<open>i32\<close> are words, so arithmetic wraps as in the release profile; \<open>usize\<close> is \<open>nat\<close>.  \<open>f64\<close>
  is a datatype of finite rationals, infinities and NaN, with the rounding of the operations used
  (\<open>Float64\<close>).  Recursion is structural or has a measure; two loops have a bound: \<open>expire_loop\<close> gets one more
  round than the table has entries, and each round removes one or stops; \<open>exporter_run\<close> gets a number of
  rounds, and \<open>exporter_stops\<close> gives one that is enough once a stop is requested.

  \<^bold>\<open>Not modelled.\<close>  Mutexes beyond the steps of \<open>Shared\<close> (lock poisoning is ignored by the code too);
  the memory behind raw pointers beyond null or not and what it holds; the sizes reserved ahead by
  collections; \<open>core-grpc/build.rs\<close> and \<open>core-ffi/build.rs\<close>, module declarations and re-exports, which have no
  program logic; the unit tests.  The capture library (C), the analytics service (Python) and the user
  interface (C#) are other programs; the contract the Rust code has with each is in the parameters above.
\<close>

end
